(* ===== verification/NVDS_Prelude.thy ===== *)
theory NVDS_Prelude
  imports Main "HOL-Library.Word"
begin

text \<open>
  Shared vocabulary of the development: the machine integers of the C and C++ sources, their
  little-endian byte images (the sources are built for x86-64), and byte-addressed memories
  with the read-over-write laws that every component proof uses.

  The collection \<open>mem_simps\<close> gathers the laws about reading a memory after a write; the
  collection \<open>wrap_simps\<close> gathers the facts that turn 32-bit arithmetic into arithmetic
  on natural numbers where it does not wrap.
\<close>

unbundle bit_operations_syntax

named_theorems mem_simps \<open>reading a memory after a write\<close>
named_theorems wrap_simps \<open>32-bit arithmetic that does not wrap\<close>

type_synonym u8 = "8 word"
type_synonym u16 = "16 word"
type_synonym u32 = "32 word"
type_synonym u64 = "64 word"

section \<open>Little-endian images of words\<close>

definition le_bytes :: "nat \<Rightarrow> 'a::len word \<Rightarrow> u8 list" where
  "le_bytes n w = map (\<lambda>i. ucast (drop_bit (8 * i) w)) [0..<n]"

primrec word_of_le :: "u8 list \<Rightarrow> 'a::len word" where
  "word_of_le [] = 0"
| "word_of_le (b # bs) = ucast b OR push_bit 8 (word_of_le bs)"

lemma length_le_bytes [simp]: "length (le_bytes n w) = n"
  by (simp add: le_bytes_def)

lemma nth_le_bytes [simp]: "i < n \<Longrightarrow> le_bytes n w ! i = ucast (drop_bit (8 * i) w)"
  by (simp add: le_bytes_def)

lemma bit_word_of_le:
  "bit (word_of_le bs :: 'a::len word) k \<longleftrightarrow>
     k < LENGTH('a) \<and> k div 8 < length bs \<and> bit (bs ! (k div 8)) (k mod 8)"
proof (induction bs arbitrary: k)
  case Nil
  then show ?case by simp
next
  case (Cons b bs)
  show ?case
  proof (cases "k < 8")
    case True
    then show ?thesis by (auto simp: bit_simps)
  next
    case False
    then have "k div 8 = Suc ((k - 8) div 8)" and "(k - 8) mod 8 = k mod 8"
      by (simp_all add: le_div_geq le_mod_geq)
    moreover have "\<not> bit b k"
      using False by (simp add: bit_imp_le_length impossible_bit)
    ultimately show ?thesis
      using False by (auto simp: bit_simps Cons.IH)
  qed
qed

lemma word_of_le_bytes:
  fixes w :: "'a::len word"
  assumes "LENGTH('a) \<le> 8 * n"
  shows "word_of_le (le_bytes n w) = w"
proof (rule bit_word_eqI)
  fix k
  assume k: "k < LENGTH('a)"
  then have "k div 8 < n"
    using assms by (simp add: less_mult_imp_div_less mult.commute)
  moreover have "8 * (k div 8) + k mod 8 = k"
    by simp
  ultimately show "bit (word_of_le (le_bytes n w) :: 'a word) k \<longleftrightarrow> bit w k"
    using k by (simp add: bit_word_of_le bit_simps)
qed

lemma le_bytes_of_word:
  assumes "8 * length bs \<le> LENGTH('a::len)"
  shows "le_bytes (length bs) (word_of_le bs :: 'a word) = bs"
proof (rule nth_equalityI)
  show "length (le_bytes (length bs) (word_of_le bs :: 'a word)) = length bs"
    by simp
next
  fix i
  assume "i < length (le_bytes (length bs) (word_of_le bs :: 'a word))"
  then have i: "i < length bs"
    by simp
  have "bit (le_bytes (length bs) (word_of_le bs :: 'a word) ! i) k \<longleftrightarrow> bit (bs ! i) k"
    if k: "k < 8" for k
  proof -
    from k i assms have "8 * i + k < LENGTH('a)"
      by linarith
    moreover have "(8 * i + k) div 8 = i" and "(8 * i + k) mod 8 = k"
      using k by simp_all
    ultimately show ?thesis
      using i k by (simp add: bit_simps bit_word_of_le)
  qed
  then show "le_bytes (length bs) (word_of_le bs :: 'a word) ! i = bs ! i"
    by (intro bit_word_eqI) simp
qed

section \<open>Fixed-width codecs\<close>

text \<open>
  A value that is stored in memory or sent over a socket as raw bytes: its image has a fixed
  length and reading the image back gives the value.
\<close>

locale byte_codec =
  fixes enc :: "'v \<Rightarrow> u8 list" and dec :: "u8 list \<Rightarrow> 'v" and width :: nat
  assumes length_enc: "length (enc v) = width"
    and dec_enc: "dec (enc v) = v"
begin

lemma enc_inject: "enc v = enc v' \<longleftrightarrow> v = v'"
  by (metis dec_enc)

lemma dec_take: "dec (take width (enc v @ rest)) = v"
  by (simp add: length_enc dec_enc)

lemma drop_enc: "drop width (enc v @ rest) = rest"
  by (simp add: length_enc)

end

interpretation codec_u16: byte_codec "le_bytes 2 :: u16 \<Rightarrow> u8 list" word_of_le 2
  by unfold_locales (simp_all add: word_of_le_bytes)

interpretation codec_u32: byte_codec "le_bytes 4 :: u32 \<Rightarrow> u8 list" word_of_le 4
  by unfold_locales (simp_all add: word_of_le_bytes)

interpretation codec_u64: byte_codec "le_bytes 8 :: u64 \<Rightarrow> u8 list" word_of_le 8
  by unfold_locales (simp_all add: word_of_le_bytes)

section \<open>Byte-addressed memory\<close>

type_synonym mem = "nat \<Rightarrow> u8"

definition read_bytes :: "mem \<Rightarrow> nat \<Rightarrow> nat \<Rightarrow> u8 list" where
  "read_bytes m a n = map m [a..<a + n]"

definition write_bytes :: "mem \<Rightarrow> nat \<Rightarrow> u8 list \<Rightarrow> mem" where
  "write_bytes m a bs = (\<lambda>i. if a \<le> i \<and> i < a + length bs then bs ! (i - a) else m i)"

definition rd16 :: "mem \<Rightarrow> nat \<Rightarrow> u16" where
  "rd16 m a = word_of_le (read_bytes m a 2)"

definition rd32 :: "mem \<Rightarrow> nat \<Rightarrow> u32" where
  "rd32 m a = word_of_le (read_bytes m a 4)"

definition wr32 :: "mem \<Rightarrow> nat \<Rightarrow> u32 \<Rightarrow> mem" where
  "wr32 m a v = write_bytes m a (le_bytes 4 v)"

lemma length_read_bytes [simp]: "length (read_bytes m a n) = n"
  by (simp add: read_bytes_def)

lemma nth_read_bytes [simp]: "i < n \<Longrightarrow> read_bytes m a n ! i = m (a + i)"
  by (simp add: read_bytes_def)

lemma read_bytes_cong:
  "(\<And>i. a \<le> i \<Longrightarrow> i < a + n \<Longrightarrow> m i = m' i) \<Longrightarrow> read_bytes m a n = read_bytes m' a n"
  by (simp add: read_bytes_def)

lemma write_bytes_Nil [simp]: "write_bytes m a [] = m"
  by (rule ext) (auto simp: write_bytes_def)

lemma read_write_same [mem_simps]:
  "n = length bs \<Longrightarrow> read_bytes (write_bytes m a bs) a n = bs"
  by (rule nth_equalityI) (simp_all add: write_bytes_def)

lemma read_write_disjoint [mem_simps]:
  "a + length bs \<le> b \<or> b + n \<le> a \<Longrightarrow> read_bytes (write_bytes m a bs) b n = read_bytes m b n"
  by (rule read_bytes_cong) (auto simp: write_bytes_def)

lemma write_bytes_outside [mem_simps]:
  "i < a \<or> a + length bs \<le> i \<Longrightarrow> write_bytes m a bs i = m i"
  by (auto simp: write_bytes_def)

lemma wr32_outside [mem_simps]: "i < a \<or> a + 4 \<le> i \<Longrightarrow> wr32 m a v i = m i"
  by (auto simp: wr32_def mem_simps)

lemma rd32_cong: "(\<And>i. a \<le> i \<Longrightarrow> i < a + 4 \<Longrightarrow> m i = m' i) \<Longrightarrow> rd32 m a = rd32 m' a"
  unfolding rd32_def by (intro arg_cong [where f = word_of_le] read_bytes_cong)

lemma rd32_wr32_same [simp]: "rd32 (wr32 m a v) a = v"
  by (simp add: rd32_def wr32_def mem_simps codec_u32.dec_enc)

lemma rd32_wr32_other [mem_simps]:
  "a + 4 \<le> b \<or> b + 4 \<le> a \<Longrightarrow> rd32 (wr32 m a v) b = rd32 m b"
  by (auto simp: rd32_def wr32_def mem_simps)

text \<open>Cells whose addresses are congruent modulo 4 are equal or disjoint.\<close>

lemma rd32_wr32:
  assumes "a mod 4 = b mod 4"
  shows "rd32 (wr32 m a v) b = (if a = b then v else rd32 m b)"
proof (cases "a = b")
  case False
  have a: "a = 4 * (a div 4) + a mod 4" and b: "b = 4 * (b div 4) + b mod 4"
    by simp_all
  with False assms have "a div 4 < b div 4 \<or> b div 4 < a div 4"
    by (metis nat_neq_iff)
  then have "a + 4 \<le> b \<or> b + 4 \<le> a"
  proof
    assume "a div 4 < b div 4"
    with a b assms show ?thesis by linarith
  next
    assume "b div 4 < a div 4"
    with a b assms show ?thesis by linarith
  qed
  with False show ?thesis
    by (simp add: mem_simps)
qed simp

section \<open>32-bit arithmetic that does not wrap\<close>

lemma unat_add_u32 [wrap_simps]:
  "unat (a :: u32) + unat b < 2 ^ 32 \<Longrightarrow> unat (a + b) = unat a + unat b"
  by (simp add: unat_word_ariths)

lemma unat_u16_less: "unat (w :: u16) < 65536"
proof -
  have "unat w < 2 ^ LENGTH(16)"
    by (rule unsigned_less)
  then show ?thesis
    by simp
qed

lemma unat_ucast_u32: "unat (ucast (w :: u32) :: u64) = unat w"
proof -
  have "unat w < 2 ^ LENGTH(32)"
    by (rule unsigned_less)
  then show ?thesis
    by (simp add: unsigned_ucast_eq take_bit_nat_eq_self)
qed

lemma unat_ucast_u16: "unat (ucast (w :: u16) :: u32) = unat w"
  using unat_u16_less [of w] by (simp add: unsigned_ucast_eq take_bit_nat_eq_self)

lemma unat_sub_u32 [wrap_simps]: "b \<le> a \<Longrightarrow> unat (a - b :: u32) = unat a - unat b"
  by (rule unat_sub)

lemma unat_of_nat_u32 [wrap_simps]: "n < 2 ^ 32 \<Longrightarrow> unat (of_nat n :: u32) = n"
  by (simp add: unat_of_nat take_bit_nat_eq_self)

end
