(* ===== verification/Modifications.thy ===== *)
theory Modifications
  imports NVDS_Prelude "HOL-Library.Multiset"
begin

text \<open>
  The modification list of \<^verbatim>\<open>src/modification.h\<close> and the merge that
  \<^verbatim>\<open>Tablet::Sync\<close> applies to it (\<^verbatim>\<open>MergeModifications\<close> of
  \<^verbatim>\<open>src/tablet.cc\<close>): an in-place exchange sort by destination offset followed by
  an in-place pass that joins modifications at most 16 bytes apart. Offsets and lengths are
  32-bit, addresses 64-bit; \<open>end + gap\<close> is computed in 64 bits because
  \<^verbatim>\<open>gap\<close> is a \<^verbatim>\<open>size_t\<close>.
\<close>

section \<open>The data\<close>

record Modification =
  des :: u32
  len :: u32
  src :: u64

definition modification_less :: "Modification \<Rightarrow> Modification \<Rightarrow> bool" where
  "modification_less a b \<longleftrightarrow> des a < des b"

definition gap :: nat where
  "gap = 16"

section \<open>The exchange sort\<close>

definition swap :: "'a list \<Rightarrow> nat \<Rightarrow> nat \<Rightarrow> 'a list" where
  "swap xs i j = xs[i := xs ! j, j := xs ! i]"

function sort_inner :: "nat \<Rightarrow> nat \<Rightarrow> Modification list \<Rightarrow> Modification list" where
  "sort_inner i j xs =
     (if j < length xs
      then sort_inner i (Suc j) (if modification_less (xs ! j) (xs ! i) then swap xs j i else xs)
      else xs)"
  by pat_completeness auto
termination
  by (relation "measure (\<lambda>(i, j, xs). length xs - j)") (auto simp: swap_def)

function sort_outer :: "nat \<Rightarrow> nat \<Rightarrow> Modification list \<Rightarrow> Modification list" where
  "sort_outer n i xs = (if i < n then sort_outer n (Suc i) (sort_inner i (Suc i) xs) else xs)"
  by pat_completeness auto
termination
  by (relation "measure (\<lambda>(n, i, xs). n - i)") auto

declare sort_inner.simps [simp del] sort_outer.simps [simp del]

section \<open>The merging pass\<close>

text \<open>
  The range-based loop keeps a reference to the current element while it overwrites earlier
  slots of the same vector, so the element is read again after the write.
\<close>

function merge_pass ::
  "nat \<Rightarrow> nat \<Rightarrow> u64 \<Rightarrow> u32 \<Rightarrow> u32 \<Rightarrow> Modification list \<Rightarrow> Modification list" where
  "merge_pass t i s b e xs =
     (if t < length xs
      then if unat (des (xs ! t)) > unat e + gap
           then let xs' = xs[i := \<lparr>des = b, len = e - b, src = s\<rparr>]; m = xs' ! t
                in merge_pass (Suc t) (Suc i) (src m) (des m) (des m + len m) xs'
           else merge_pass (Suc t) i s b (max e (des (xs ! t) + len (xs ! t))) xs
      else take (Suc i) (xs[i := \<lparr>des = b, len = e - b, src = s\<rparr>]))"
  by pat_completeness auto
termination
  by (relation "measure (\<lambda>(t, i, s, b, e, xs). length xs - t)") auto

declare merge_pass.simps [simp del]

definition MergeModifications :: "Modification list \<Rightarrow> Modification list option" where
  "MergeModifications mods =
     (if 0 < length mods
      then let xs = sort_outer (length mods) 0 mods; m = xs ! 0
           in Some (merge_pass 0 0 (src m) (des m) (des m + len m) xs)
      else None)"

section \<open>The sort is a sort\<close>

definition des_le :: "Modification \<Rightarrow> Modification \<Rightarrow> bool" where
  "des_le a b \<longleftrightarrow> des a \<le> des b"

lemma length_swap [simp]: "length (swap xs i j) = length xs"
  by (simp add: swap_def)

lemma nth_swap:
  "i < length xs \<Longrightarrow> j < length xs \<Longrightarrow> k < length xs \<Longrightarrow>
   swap xs j i ! k = (if k = i then xs ! j else if k = j then xs ! i else xs ! k)"
  by (auto simp: swap_def nth_list_update)

lemma mset_swap_pos: "i < length xs \<Longrightarrow> j < length xs \<Longrightarrow> mset (swap xs i j) = mset xs"
  unfolding swap_def by (cases "i = j") (simp_all add: mset_swap)

lemma length_sort_inner [simp]: "length (sort_inner i j xs) = length xs"
  by (induction i j xs rule: sort_inner.induct) (subst sort_inner.simps, simp)

lemma mset_sort_inner: "i < length xs \<Longrightarrow> mset (sort_inner i j xs) = mset xs"
proof (induction i j xs rule: sort_inner.induct)
  case (1 i j xs)
  then show ?case
    by (subst sort_inner.simps) (simp add: mset_swap_pos)
qed

text \<open>
  One run of the inner loop leaves the positions before \<open>i\<close> alone, and puts at
  \<open>i\<close> an element that is no larger than any element at or after \<open>i\<close>.
\<close>

lemma sort_inner_prefix:
  "i < j \<Longrightarrow> i < length xs \<Longrightarrow> k < i \<Longrightarrow> sort_inner i j xs ! k = xs ! k"
proof (induction i j xs rule: sort_inner.induct)
  case (1 i j xs)
  then show ?case
    by (subst sort_inner.simps) (auto simp: nth_swap)
qed

lemma sort_inner_min:
  assumes "i < j" "i < length xs" "\<And>k. i < k \<Longrightarrow> k < j \<Longrightarrow> k < length xs \<Longrightarrow> des_le (xs ! i) (xs ! k)"
    and "i < k" "k < length xs"
  shows "des_le (sort_inner i j xs ! i) (sort_inner i j xs ! k)"
  using assms
proof (induction i j xs arbitrary: k rule: sort_inner.induct)
  case (1 i j xs)
  show ?case
  proof (cases "j < length xs")
    case True
    let ?ys = "if modification_less (xs ! j) (xs ! i) then swap xs j i else xs"
    have "des_le (sort_inner i (Suc j) ?ys ! i) (sort_inner i (Suc j) ?ys ! k)"
    proof (rule "1.IH" [OF True])
      fix k
      assume "i < k" "k < Suc j" "k < length ?ys"
      then show "des_le (?ys ! i) (?ys ! k)"
        using "1.prems"(1,2) "1.prems"(3) [of k] True
        by (cases "k = j") (auto simp: nth_swap des_le_def modification_less_def)
    qed (use "1.prems" in auto)
    then show ?thesis
      using True by (simp add: sort_inner.simps [of i j xs])
  next
    case False
    then show ?thesis
      using "1.prems" by (simp add: sort_inner.simps [of i j xs])
  qed
qed

lemma sort_inner_lower:
  assumes "i < length xs" "\<And>k. i \<le> k \<Longrightarrow> k < length xs \<Longrightarrow> des_le a (xs ! k)"
    and "i \<le> k" "k < length xs" "i < j"
  shows "des_le a (sort_inner i j xs ! k)"
  using assms
proof (induction i j xs rule: sort_inner.induct)
  case (1 i j xs)
  show ?case
  proof (cases "j < length xs")
    case True
    let ?ys = "if modification_less (xs ! j) (xs ! i) then swap xs j i else xs"
    have "des_le a (sort_inner i (Suc j) ?ys ! k)"
      by (rule "1.IH" [OF True]) (use "1.prems" True in \<open>auto simp: nth_swap\<close>)
    then show ?thesis
      using True by (simp add: sort_inner.simps [of i j xs])
  next
    case False
    then show ?thesis
      using "1.prems" by (simp add: sort_inner.simps [of i j xs])
  qed
qed

text \<open>The outer loop: positions before \<open>i\<close> hold the smallest elements, in order.\<close>

definition prefix_sorted :: "nat \<Rightarrow> Modification list \<Rightarrow> bool" where
  "prefix_sorted i xs \<longleftrightarrow> (\<forall>a b. a < i \<and> a < b \<and> b < length xs \<longrightarrow> des_le (xs ! a) (xs ! b))"

lemma prefix_sorted_step:
  assumes "prefix_sorted i xs" "i < length xs"
  shows "prefix_sorted (Suc i) (sort_inner i (Suc i) xs)"
proof -
  have "des_le (sort_inner i (Suc i) xs ! a) (sort_inner i (Suc i) xs ! b)"
    if "a < Suc i" "a < b" "b < length xs" for a b
  proof (cases "a = i")
    case True
    then show ?thesis
      using that assms(2) sort_inner_min [of i "Suc i" xs b] by simp
  next
    case False
    with that(1) have a: "a < i"
      by simp
    show ?thesis
    proof (cases "b < i")
      case True
      with a assms that show ?thesis
        by (simp add: sort_inner_prefix prefix_sorted_def)
    next
      case False
      with a assms that show ?thesis
        by (auto simp: sort_inner_prefix prefix_sorted_def intro!: sort_inner_lower)
    qed
  qed
  then show ?thesis
    by (simp add: prefix_sorted_def)
qed

lemma sort_outer_correct:
  "prefix_sorted i xs \<Longrightarrow> n = length xs \<Longrightarrow>
   prefix_sorted n (sort_outer n i xs) \<and> mset (sort_outer n i xs) = mset xs"
proof (induction n i xs rule: sort_outer.induct)
  case (1 n i xs)
  show ?case
  proof (cases "i < n")
    case True
    with "1.prems" have "prefix_sorted (Suc i) (sort_inner i (Suc i) xs)"
      by (intro prefix_sorted_step) auto
    with "1.IH" True "1.prems"
    have "prefix_sorted n (sort_outer n (Suc i) (sort_inner i (Suc i) xs)) \<and>
          mset (sort_outer n (Suc i) (sort_inner i (Suc i) xs)) = mset (sort_inner i (Suc i) xs)"
      by simp
    then show ?thesis
      using True "1.prems" by (simp add: sort_outer.simps [of "length xs" i xs] mset_sort_inner)
  next
    case False
    with "1.prems" show ?thesis
      by (auto simp: sort_outer.simps [of "length xs" i xs] prefix_sorted_def)
  qed
qed

lemma sort_outer_sorted: "sorted_wrt des_le (sort_outer (length xs) 0 xs)"
  and mset_sort_outer: "mset (sort_outer (length xs) 0 xs) = mset xs"
proof -
  have *: "prefix_sorted (length xs) (sort_outer (length xs) 0 xs) \<and>
         mset (sort_outer (length xs) 0 xs) = mset xs"
    by (rule sort_outer_correct) (simp_all add: prefix_sorted_def)
  then show "mset (sort_outer (length xs) 0 xs) = mset xs"
    by simp
  with * show "sorted_wrt des_le (sort_outer (length xs) 0 xs)"
    unfolding sorted_wrt_iff_nth_less prefix_sorted_def
    by (metis size_mset less_trans)
qed

section \<open>The merging pass computes the runs of the sorted list\<close>

fun merge_runs :: "u64 \<Rightarrow> u32 \<Rightarrow> u32 \<Rightarrow> Modification list \<Rightarrow> Modification list" where
  "merge_runs s b e [] = [\<lparr>des = b, len = e - b, src = s\<rparr>]"
| "merge_runs s b e (m # ms) =
     (if unat (des m) > unat e + gap
      then \<lparr>des = b, len = e - b, src = s\<rparr> # merge_runs (src m) (des m) (des m + len m) ms
      else merge_runs s b (max e (des m + len m)) ms)"

lemma merge_pass_runs:
  "i < t \<Longrightarrow> t \<le> length xs \<Longrightarrow> merge_pass t i s b e xs = take i xs @ merge_runs s b e (drop t xs)"
proof (induction t i s b e xs rule: merge_pass.induct)
  case (1 t i s b e xs)
  let ?r = "\<lparr>des = b, len = e - b, src = s\<rparr>"
  show ?case
  proof (cases "t < length xs")
    case True
    then have dr: "drop t xs = xs ! t # drop (Suc t) xs"
      by (simp add: Cons_nth_drop_Suc)
    have tk: "take (Suc i) (xs[i := ?r]) = take i xs @ [?r]"
      using "1.prems" True by (simp add: take_Suc_conv_app_nth)
    show ?thesis
    proof (cases "unat (des (xs ! t)) > unat e + gap")
      case far: True
      have "merge_pass t i s b e xs =
          merge_pass (Suc t) (Suc i) (src (xs ! t)) (des (xs ! t)) (des (xs ! t) + len (xs ! t))
            (xs[i := ?r])"
        using True far "1.prems" by (simp add: merge_pass.simps [of t i] Let_def)
      also have "\<dots> = take (Suc i) (xs[i := ?r]) @
          merge_runs (src (xs ! t)) (des (xs ! t)) (des (xs ! t) + len (xs ! t))
            (drop (Suc t) (xs[i := ?r]))"
        using "1.IH"(1) [OF True far refl refl] "1.prems" True by simp
      finally show ?thesis
        using far "1.prems" True by (simp add: dr tk)
    next
      case near: False
      then show ?thesis
        using "1.IH"(2) [OF True near] "1.prems" True
        by (simp add: merge_pass.simps [of t i s b e xs] dr)
    qed
  next
    case False
    with "1.prems" show ?thesis
      by (simp add: merge_pass.simps [of "length xs"] take_Suc_conv_app_nth)
  qed
qed

text \<open>The bytes a modification covers, as offsets; \<open>no_wrap\<close>: its end is a 32-bit offset.\<close>

definition covers :: "Modification \<Rightarrow> nat \<Rightarrow> bool" where
  "covers m k \<longleftrightarrow> unat (des m) \<le> k \<and> k < unat (des m) + unat (len m)"

definition no_wrap :: "Modification \<Rightarrow> bool" where
  "no_wrap m \<longleftrightarrow> unat (des m) + unat (len m) < 2 ^ 32"

lemma no_wrap_end [wrap_simps]: "no_wrap m \<Longrightarrow> unat (des m + len m) = unat (des m) + unat (len m)"
  by (simp add: no_wrap_def wrap_simps)

lemma no_wrap_des_le: "no_wrap m \<Longrightarrow> des m \<le> des m + len m"
  by (simp add: word_le_nat_alt wrap_simps)

lemma MergeModifications_runs:
  assumes "sort_outer (length mods) 0 mods = m # ms" "no_wrap m"
  shows "MergeModifications mods = Some (merge_runs (src m) (des m) (des m + len m) ms)"
proof -
  have "mset mods = mset (m # ms)"
    using mset_sort_outer [of mods] assms(1) by simp
  then have ne: "0 < length mods"
    by (metis length_greater_0_conv mset.simps(1) mset_zero_iff list.distinct(1))
  have "merge_pass 0 0 (src m) (des m) (des m + len m) (m # ms) =
        merge_pass (Suc 0) 0 (src m) (des m) (des m + len m) (m # ms)"
    using assms(2) by (simp add: merge_pass.simps [of 0] wrap_simps gap_def)
  then show ?thesis
    using ne by (simp add: MergeModifications_def assms(1) merge_pass_runs)
qed

lemma merge_runs_nonempty: "merge_runs s b e ms \<noteq> []"
  by (induction s b e ms rule: merge_runs.induct) simp_all

lemma merge_runs_covers:
  assumes "b \<le> e" "\<And>m. m \<in> set ms \<Longrightarrow> no_wrap m" "sorted_wrt des_le ms"
    "\<And>m. m \<in> set ms \<Longrightarrow> b \<le> des m"
    and "(unat b \<le> k \<and> k < unat e) \<or> (\<exists>m\<in>set ms. covers m k)"
  shows "\<exists>y\<in>set (merge_runs s b e ms). covers y k"
  using assms
proof (induction s b e ms rule: merge_runs.induct)
  case (1 s b e)
  then show ?case
    by (auto simp: covers_def wrap_simps word_le_nat_alt)
next
  case (2 s b e m ms)
  have m: "no_wrap m" and ord: "\<And>m'. m' \<in> set ms \<Longrightarrow> des m \<le> des m'"
    using "2.prems"(2,3) by (auto simp: des_le_def)
  show ?case
  proof (cases "unat (des m) > unat e + gap")
    case True
    show ?thesis
    proof (cases "unat b \<le> k \<and> k < unat e")
      case in_run: True
      then show ?thesis
        using True "2.prems"(1) by (auto simp: covers_def wrap_simps word_le_nat_alt)
    next
      case False
      then have "(unat (des m) \<le> k \<and> k < unat (des m + len m)) \<or> (\<exists>m\<in>set ms. covers m k)"
        using "2.prems"(5) m by (auto simp: covers_def wrap_simps)
      then have "\<exists>y\<in>set (merge_runs (src m) (des m) (des m + len m) ms). covers y k"
        using "2.IH"(1) [OF True] "2.prems"(2,3) ord m by (simp add: no_wrap_des_le)
      then show ?thesis
        using True by auto
    qed
  next
    case False
    have "(unat b \<le> k \<and> k < unat (max e (des m + len m))) \<or> (\<exists>m\<in>set ms. covers m k)"
      using "2.prems"(4) [of m] "2.prems"(5) m
      by (auto simp: covers_def wrap_simps max_def word_le_nat_alt)
    moreover have "b \<le> max e (des m + len m)"
      using "2.prems"(1) by (simp add: le_max_iff_disj)
    ultimately show ?thesis
      using "2.IH"(2) [OF False] "2.prems"(2,3,4) False by simp
  qed
qed

text \<open>What separates two runs, and how many bytes the joins add.\<close>

definition apart :: "Modification \<Rightarrow> Modification \<Rightarrow> bool" where
  "apart y z \<longleftrightarrow> unat (des y) + unat (len y) + gap < unat (des z)"

definition total_len :: "Modification list \<Rightarrow> nat" where
  "total_len ms = (\<Sum>m\<leftarrow>ms. unat (len m))"

lemma merge_runs_des:
  "y \<in> set (merge_runs s b e ms) \<Longrightarrow> des y = b \<or> (\<exists>m\<in>set ms. des y = des m)"
  by (induction s b e ms rule: merge_runs.induct) (auto split: if_splits)

lemma merge_runs_src:
  "(\<And>m. m \<in> set ms \<Longrightarrow> src m = base + ucast (des m)) \<Longrightarrow> s = base + ucast b \<Longrightarrow>
   y \<in> set (merge_runs s b e ms) \<Longrightarrow> src y = base + ucast (des y)"
  by (induction s b e ms rule: merge_runs.induct) (auto split: if_splits)

lemma merge_runs_length: "length (merge_runs s b e ms) \<le> Suc (length ms)"
  by (induction s b e ms rule: merge_runs.induct) auto

lemma merge_runs_apart:
  assumes "b \<le> e" "\<And>m. m \<in> set ms \<Longrightarrow> no_wrap m" "sorted_wrt des_le ms"
    "\<And>m. m \<in> set ms \<Longrightarrow> b \<le> des m"
  shows "sorted_wrt apart (merge_runs s b e ms)"
  using assms
proof (induction s b e ms rule: merge_runs.induct)
  case (1 s b e)
  then show ?case by simp
next
  case (2 s b e m ms)
  have m: "no_wrap m" and ord: "\<And>m'. m' \<in> set ms \<Longrightarrow> des m \<le> des m'"
    using "2.prems"(2,3) by (auto simp: des_le_def)
  show ?case
  proof (cases "unat (des m) > unat e + gap")
    case True
    have "apart \<lparr>des = b, len = e - b, src = s\<rparr> y"
      if "y \<in> set (merge_runs (src m) (des m) (des m + len m) ms)" for y
    proof -
      from merge_runs_des [OF that] ord have "des m \<le> des y"
        by auto
      with True "2.prems"(1) show ?thesis
        by (auto simp: apart_def wrap_simps word_le_nat_alt)
    qed
    then show ?thesis
      using "2.IH"(1) [OF True] "2.prems"(2,3) ord m True by (simp add: no_wrap_des_le)
  next
    case False
    then show ?thesis
      using "2.IH"(2) [OF False] "2.prems" by (simp add: le_max_iff_disj)
  qed
qed

lemma merge_runs_total:
  assumes "b \<le> e" "\<And>m. m \<in> set ms \<Longrightarrow> no_wrap m"
  shows "total_len (merge_runs s b e ms) + gap * length (merge_runs s b e ms)
         \<le> unat e - unat b + total_len ms + gap * Suc (length ms)"
  using assms
proof (induction s b e ms rule: merge_runs.induct)
  case (1 s b e)
  then show ?case
    by (simp add: total_len_def wrap_simps word_le_nat_alt)
next
  case (2 s b e m ms)
  have m: "no_wrap m"
    using "2.prems"(2) by simp
  show ?case
  proof (cases "unat (des m) > unat e + gap")
    case True
    then show ?thesis
      using "2.IH"(1) [OF True] "2.prems" m
      by (simp add: total_len_def wrap_simps no_wrap_des_le)
  next
    case False
    have "unat (max e (des m + len m)) - unat b \<le> unat e - unat b + unat (len m) + gap"
      using False "2.prems"(1) m by (auto simp: max_def wrap_simps word_le_nat_alt)
    then show ?thesis
      using "2.IH"(2) [OF False] "2.prems" False
      by (simp add: total_len_def le_max_iff_disj)
  qed
qed

lemma total_len_perm: "mset xs = mset ys \<Longrightarrow> total_len xs = total_len ys"
proof -
  assume "mset xs = mset ys"
  then have "sum_mset (mset (map (\<lambda>m. unat (len m)) xs)) = sum_mset (mset (map (\<lambda>m. unat (len m)) ys))"
    by simp
  then show ?thesis
    unfolding total_len_def sum_mset_sum_list .
qed

text \<open>What the merge computes, in terms of the sorted input.\<close>

lemma MergeModifications_obtain:
  assumes "mods \<noteq> []" "\<And>m. m \<in> set mods \<Longrightarrow> no_wrap m"
  obtains m ms where "MergeModifications mods = Some (merge_runs (src m) (des m) (des m + len m) ms)"
    "mset mods = mset (m # ms)" "set mods = set (m # ms)" "sorted_wrt des_le ms" "\<And>m'. m' \<in> set ms \<Longrightarrow> des m \<le> des m'"
proof -
  obtain m ms where xs: "sort_outer (length mods) 0 mods = m # ms"
    using assms(1) mset_sort_outer [of mods] by (cases "sort_outer (length mods) 0 mods") auto
  then have perm: "mset mods = mset (m # ms)"
    using mset_sort_outer [of mods] by simp
  moreover have "sorted_wrt des_le (m # ms)"
    using sort_outer_sorted [of mods] xs by simp
  ultimately show thesis
    using assms(2) mset_eq_setD [OF perm]
    by (intro that [of m ms] MergeModifications_runs [OF xs]) (auto simp: des_le_def)
qed

lemma MergeModifications_covers:
  assumes "MergeModifications mods = Some ys" "\<And>m. m \<in> set mods \<Longrightarrow> no_wrap m" "m \<in> set mods" "covers m k"
  shows "\<exists>y\<in>set ys. covers y k"
proof -
  have "mods \<noteq> []"
    using assms(3) by auto
  then obtain m' ms where r: "MergeModifications mods = Some (merge_runs (src m') (des m') (des m' + len m') ms)"
      "set mods = set (m' # ms)" "sorted_wrt des_le ms" "\<And>m''. m'' \<in> set ms \<Longrightarrow> des m' \<le> des m''"
    using MergeModifications_obtain [of mods, OF _ assms(2)] by metis
  have "\<exists>y\<in>set (merge_runs (src m') (des m') (des m' + len m') ms). covers y k"
    using assms(2-4) r(2-4) by (intro merge_runs_covers) (auto simp: covers_def wrap_simps no_wrap_des_le)
  with r(1) assms(1) show ?thesis
    by simp
qed

lemma MergeModifications_nonempty:
  assumes "mods \<noteq> []" "\<And>m. m \<in> set mods \<Longrightarrow> no_wrap m"
  shows "\<exists>ys. MergeModifications mods = Some ys \<and> ys \<noteq> []"
  using MergeModifications_obtain [of mods, OF assms] merge_runs_nonempty by metis

text \<open>The merged ranges end where some range of the input ends.\<close>

lemma merge_runs_end:
  assumes "b \<le> e" "\<And>m. m \<in> set ms \<Longrightarrow> no_wrap m" "y \<in> set (merge_runs s b e ms)"
  shows "unat (des y) + unat (len y) = unat e \<or> (\<exists>m\<in>set ms. unat (des y) + unat (len y) = unat (des m) + unat (len m))"
  using assms
proof (induction s b e ms rule: merge_runs.induct)
  case (2 s b e m ms)
  then show ?case
    by (auto simp: wrap_simps word_le_nat_alt no_wrap_des_le max_def split: if_splits)
qed (simp add: wrap_simps word_le_nat_alt)

lemma MergeModifications_end:
  assumes "MergeModifications mods = Some ys" "\<And>m. m \<in> set mods \<Longrightarrow> no_wrap m" "y \<in> set ys"
  shows "\<exists>m\<in>set mods. unat (des y) + unat (len y) = unat (des m) + unat (len m)"
proof -
  have "mods \<noteq> []"
    using assms(1) by (auto simp: MergeModifications_def split: if_splits)
  then obtain m ms where r: "MergeModifications mods = Some (merge_runs (src m) (des m) (des m + len m) ms)"
      "set mods = set (m # ms)"
    using MergeModifications_obtain [of mods, OF _ assms(2)] by metis
  then show ?thesis
    using merge_runs_end [of "des m" "des m + len m" ms y "src m"] assms
    by (auto simp: no_wrap_des_le wrap_simps)
qed

section \<open>What the merge promises\<close>

text \<open>
  C2: merging a non-empty modification list whose ranges end below \<open>2 ^ 32\<close>
  returns a list that covers every byte the input covers, whose ranges are in increasing
  order and more than 16 bytes apart, which is no longer than the input, and which covers at
  most 16 bytes more than the input for every two ranges it joined.
\<close>

theorem MergeModifications_correct:
  assumes "mods \<noteq> []" "\<And>m. m \<in> set mods \<Longrightarrow> no_wrap m"
  shows "\<exists>ys. MergeModifications mods = Some ys
           \<and> (\<forall>k. (\<exists>m\<in>set mods. covers m k) \<longrightarrow> (\<exists>y\<in>set ys. covers y k))
           \<and> sorted_wrt apart ys
           \<and> length ys \<le> length mods
           \<and> total_len ys \<le> total_len mods + gap * (length mods - length ys)"
proof -
  obtain m ms where run: "MergeModifications mods = Some (merge_runs (src m) (des m) (des m + len m) ms)"
      and perm: "mset mods = mset (m # ms)" and sets: "set mods = set (m # ms)"
      and srt: "sorted_wrt des_le ms" and ord: "\<And>m'. m' \<in> set ms \<Longrightarrow> des m \<le> des m'"
    using MergeModifications_obtain [OF assms] by blast
  have lens: "length mods = Suc (length ms)" and tot: "total_len mods = total_len (m # ms)"
    using mset_eq_length [OF perm] total_len_perm [OF perm] by simp_all
  have nw: "no_wrap m" "\<And>m'. m' \<in> set ms \<Longrightarrow> no_wrap m'"
    using assms(2) sets by auto
  let ?ys = "merge_runs (src m) (des m) (des m + len m) ms"
  note run
  moreover have "\<exists>y\<in>set ?ys. covers y k" if "\<exists>m\<in>set mods. covers m k" for k
    using that sets nw srt ord
    by (intro merge_runs_covers) (auto simp: covers_def wrap_simps no_wrap_des_le)
  moreover have "sorted_wrt apart ?ys"
    using nw srt ord by (intro merge_runs_apart) (auto simp: no_wrap_des_le)
  moreover have len: "length ?ys \<le> length mods"
    by (simp add: lens merge_runs_length)
  moreover have "total_len ?ys \<le> total_len mods + gap * (length mods - length ?ys)"
  proof -
    have "total_len ?ys + gap * length ?ys \<le> total_len mods + gap * length mods"
      using merge_runs_total [OF no_wrap_des_le [OF nw(1)] nw(2), of ms "src m"] nw(1) tot
      by (simp add: lens wrap_simps total_len_def)
    with len show ?thesis
      by (simp add: diff_mult_distrib2)
  qed
  ultimately show ?thesis
    by blast
qed

theorem MergeModifications_correct_witness:
  "\<exists>ys. MergeModifications
          [\<lparr>des = 100, len = 8, src = 1100\<rparr>, \<lparr>des = 40, len = 4, src = 1040\<rparr>,
           \<lparr>des = 120, len = 4, src = 1120\<rparr>] = Some ys
     \<and> (\<forall>k. (\<exists>m\<in>set [\<lparr>des = 100, len = 8, src = 1100\<rparr>, \<lparr>des = 40, len = 4, src = 1040\<rparr>,
           \<lparr>des = 120, len = 4, src = 1120\<rparr>]. covers m k) \<longrightarrow> (\<exists>y\<in>set ys. covers y k))
     \<and> sorted_wrt apart ys \<and> length ys \<le> 3"
  (is "\<exists>ys. ?Q ys")
proof -
  let ?mods = "[\<lparr>des = 100, len = 8, src = 1100\<rparr>, \<lparr>des = 40, len = 4, src = 1040\<rparr>,
           \<lparr>des = 120, len = 4, src = 1120\<rparr>]"
  have "\<And>m. m \<in> set ?mods \<Longrightarrow> no_wrap m"
    by (auto simp: no_wrap_def)
  from MergeModifications_correct [of ?mods, OF _ this] obtain ys where
    "MergeModifications ?mods = Some ys"
    "\<forall>k. (\<exists>m\<in>set ?mods. covers m k) \<longrightarrow> (\<exists>y\<in>set ys. covers y k)"
    "sorted_wrt apart ys" "length ys \<le> length ?mods"
    by blast
  then have "?Q ys"
    by simp
  then show ?thesis ..
qed

lemma MergeModifications_source:
  assumes "MergeModifications mods = Some ys" "\<And>m. m \<in> set mods \<Longrightarrow> no_wrap m"
    and "\<And>m. m \<in> set mods \<Longrightarrow> src m = base + ucast (des m)" "y \<in> set ys"
  shows "src y = base + ucast (des y)"
proof -
  have "mods \<noteq> []"
    using assms(1) by (auto simp: MergeModifications_def split: if_splits)
  then obtain m ms where r: "MergeModifications mods = Some (merge_runs (src m) (des m) (des m + len m) ms)"
      "set mods = set (m # ms)"
    using MergeModifications_obtain [of mods, OF _ assms(2)] by metis
  then show ?thesis
    using assms(1,3,4) by (intro merge_runs_src [of ms base "src m" "des m" y "des m + len m"]) auto
qed

end
