(* ===== verification/Allocator.thy ===== *)
theory Allocator
  imports Modifications "HOL-Library.Monad_Syntax"
begin

text \<open>
  The allocator of \<^verbatim>\<open>src/allocator.h\<close> and \<^verbatim>\<open>src/allocator.cc\<close>, a
  boundary-tag allocator with segregated free lists inside the first 64 MB of a tablet.

  The state is the bytes of the tablet (offsets relative to \<^verbatim>\<open>base_\<close>), the write
  counter and the modification list the caller has installed. Every operation is a function
  into \<open>option\<close>: \<^const>\<open>None\<close> stands for a failed \<^verbatim>\<open>assert\<close> (the
  build does not define \<^verbatim>\<open>NDEBUG\<close>) and for an access outside the tablet, so that a
  theorem that an operation returns \<^const>\<open>Some\<close> also says that it stays inside the
  tablet and that no assertion fails.

  A block of size \<open>n\<close> at offset \<open>a\<close> has its size in the low 31 bits of the word at
  \<open>a\<close>; the top bit of that word says whether the block \<^emph>\<open>before\<close> it is free, so the
  free tag of the block itself is the top bit of the word at \<open>a + n\<close>. A free block also
  keeps list pointers at \<open>a + 4\<close> and \<open>a + 8\<close> and its size in its last word.
\<close>

section \<open>The state and its accesses\<close>

definition kMaxBlockSize :: u32 where
  "kMaxBlockSize = 1152"

definition kSize :: u32 where
  "kSize = 67108864"

definition kNumFreeLists :: u32 where
  "kNumFreeLists = 73"

definition kHashTableSize :: nat where
  "kHashTableSize = 1000003"

definition kNVMTabletSize :: nat where
  "kNVMTabletSize = 71108876"

definition kFreeMask :: u32 where
  "kFreeMask = 0x80000000"

record Allocator =
  nvm_base :: u64
  nvm_data :: mem
  cnt_writes :: u64
  modifications :: "Modification list"

definition ensure :: "bool \<Rightarrow> unit option" where
  "ensure c = (if c then Some () else None)"

definition in_tablet :: "u32 \<Rightarrow> nat \<Rightarrow> bool" where
  "in_tablet off n \<longleftrightarrow> unat off + n \<le> kNVMTabletSize"

definition log_write :: "Allocator \<Rightarrow> u32 \<Rightarrow> u8 list \<Rightarrow> Allocator" where
  "log_write s off bs = s\<lparr>
     nvm_data := write_bytes (nvm_data s) (unat off) bs,
     modifications := modifications s @
       [\<lparr>des = off, len = of_nat (length bs), src = nvm_base s + ucast off\<rparr>]\<rparr>"

definition Write :: "Allocator \<Rightarrow> u32 \<Rightarrow> u8 list \<Rightarrow> Allocator option" where
  "Write s off bs = do {
     ensure (off \<noteq> 0);
     ensure (in_tablet off (length bs));
     Some ((log_write s off bs)\<lparr>cnt_writes := cnt_writes s + 1\<rparr>)
   }"

abbreviation Write32 :: "Allocator \<Rightarrow> u32 \<Rightarrow> u32 \<Rightarrow> Allocator option" where
  "Write32 s off v \<equiv> Write s off (le_bytes 4 v)"

definition Read :: "nat \<Rightarrow> Allocator \<Rightarrow> u32 \<Rightarrow> u8 list option" where
  "Read n s off = do {
     ensure (off \<noteq> 0);
     ensure (in_tablet off n);
     Some (read_bytes (nvm_data s) (unat off) n)
   }"

definition Read32 :: "Allocator \<Rightarrow> u32 \<Rightarrow> u32 option" where
  "Read32 s off = map_option word_of_le (Read 4 s off)"

definition Read16 :: "Allocator \<Rightarrow> u32 \<Rightarrow> u16 option" where
  "Read16 s off = map_option word_of_le (Read 2 s off)"

definition Memcmp :: "Allocator \<Rightarrow> u32 \<Rightarrow> u8 list \<Rightarrow> bool option" where
  "Memcmp s lhs rhs = do {
     ensure (in_tablet lhs (length rhs));
     Some (read_bytes (nvm_data s) (unat lhs) (length rhs) \<noteq> rhs)
   }"

definition Memcpy_in :: "Allocator \<Rightarrow> u32 \<Rightarrow> u8 list \<Rightarrow> Allocator option" where
  "Memcpy_in s off bs = do {
     ensure (in_tablet off (length bs));
     Some (log_write s off bs)
   }"

definition Memcpy_out :: "Allocator \<Rightarrow> u32 \<Rightarrow> nat \<Rightarrow> u8 list option" where
  "Memcpy_out s off n = do {
     ensure (in_tablet off n);
     Some (read_bytes (nvm_data s) (unat off) n)
   }"

definition set_modifications :: "Allocator \<Rightarrow> Modification list \<Rightarrow> Allocator" where
  "set_modifications s ms = s\<lparr>modifications := ms\<rparr>"

section \<open>Free lists and tags\<close>

definition GetLastFreeList :: u32 where
  "GetLastFreeList = (kNumFreeLists - 1) * 4"

definition GetFreeListByBlockSize :: "u32 \<Rightarrow> u32 option" where
  "GetFreeListByBlockSize blk_size = do {
     ensure (blk_size \<ge> 16);
     Some (if blk_size \<le> kMaxBlockSize then (blk_size div 16 - 1) * 4 else GetLastFreeList)
   }"

definition RoundupBlockSize :: "u32 \<Rightarrow> u32 option" where
  "RoundupBlockSize blk_size =
     (if blk_size \<le> kMaxBlockSize then Some ((blk_size + 16 - 1) div 16 * 16) else None)"

definition SetTheFreeTag :: "Allocator \<Rightarrow> u32 \<Rightarrow> u32 \<Rightarrow> Allocator option" where
  "SetTheFreeTag s blk blk_size = do {
     let next_blk = blk + blk_size;
     w \<leftarrow> Read32 s next_blk;
     Write32 s next_blk (w OR kFreeMask)
   }"

definition ResetTheFreeTag :: "Allocator \<Rightarrow> u32 \<Rightarrow> u32 \<Rightarrow> Allocator option" where
  "ResetTheFreeTag s blk blk_size = do {
     let next_blk = blk + blk_size;
     w \<leftarrow> Read32 s next_blk;
     Write32 s next_blk (w AND NOT kFreeMask)
   }"

definition ReadTheFreeTag :: "Allocator \<Rightarrow> u32 \<Rightarrow> u32 \<Rightarrow> u32 option" where
  "ReadTheFreeTag s blk blk_size = do {
     w \<leftarrow> Read32 s (blk + blk_size);
     Some (w AND kFreeMask)
   }"

definition ReadThePrevFreeTag :: "Allocator \<Rightarrow> u32 \<Rightarrow> u32 option" where
  "ReadThePrevFreeTag s blk = do { w \<leftarrow> Read32 s blk; Some (w AND kFreeMask) }"

definition ReadTheSizeTag :: "Allocator \<Rightarrow> u32 \<Rightarrow> u32 option" where
  "ReadTheSizeTag s blk = do { w \<leftarrow> Read32 s blk; Some (w AND NOT kFreeMask) }"

abbreviation (input) prev_off :: u32 where
  "prev_off \<equiv> 4"

abbreviation (input) next_off :: u32 where
  "next_off \<equiv> 8"

section \<open>The operations\<close>

definition Format :: "Allocator \<Rightarrow> Allocator option" where
  "Format s = do {
     let s = set_modifications s [];
     let s = s\<lparr>nvm_data := (\<lambda>i. if i < unat kSize then 0 else nvm_data s i)\<rparr>;
     let blk = kNumFreeLists * 4;
     s \<leftarrow> Write32 s GetLastFreeList blk;
     let blk_size = (kSize - blk - 4) AND NOT 0x0f;
     s \<leftarrow> Write32 s blk (blk_size AND NOT kFreeMask);
     s \<leftarrow> Write32 s (blk + blk_size - 4) blk_size;
     SetTheFreeTag s blk blk_size
   }"

definition RemoveBlock :: "Allocator \<Rightarrow> u32 \<Rightarrow> u32 \<Rightarrow> Allocator option" where
  "RemoveBlock s blk blk_size = do {
     tag \<leftarrow> ReadTheFreeTag s blk blk_size;
     ensure (tag \<noteq> 0);
     prev_blk \<leftarrow> Read32 s (blk + prev_off);
     next_blk \<leftarrow> Read32 s (blk + next_off);
     s \<leftarrow> (if prev_blk \<noteq> 0
          then do { nx \<leftarrow> Read32 s (blk + next_off); Write32 s (prev_blk + next_off) nx }
          else do {
            free_list \<leftarrow> GetFreeListByBlockSize blk_size;
            nx \<leftarrow> Read32 s (blk + next_off);
            Write32 s free_list nx });
     if next_blk \<noteq> 0
     then do { pv \<leftarrow> Read32 s (blk + prev_off); Write32 s (next_blk + prev_off) pv }
     else Some s
   }"

definition SplitBlock :: "Allocator \<Rightarrow> u32 \<Rightarrow> u32 \<Rightarrow> u32 \<Rightarrow> (u32 \<times> Allocator) option" where
  "SplitBlock s blk blk_size needed_size = do {
     next_blk \<leftarrow> Read32 s (blk + next_off);
     free_list \<leftarrow> GetFreeListByBlockSize blk_size;
     ensure (blk_size > needed_size);
     let new_size = blk_size - needed_size;
     s \<leftarrow> Write32 s free_list next_blk;
     s \<leftarrow> (if next_blk \<noteq> 0 then Write32 s (next_blk + prev_off) 0 else Some s);
     tag \<leftarrow> ReadThePrevFreeTag s blk;
     s \<leftarrow> Write32 s blk (tag OR new_size);
     s \<leftarrow> Write32 s (blk + new_size - 4) new_size;
     free_list \<leftarrow> GetFreeListByBlockSize new_size;
     head \<leftarrow> Read32 s free_list;
     s \<leftarrow> Write32 s (blk + prev_off) 0;
     s \<leftarrow> Write32 s (blk + next_off) head;
     s \<leftarrow> Write32 s free_list blk;
     s \<leftarrow> (if head \<noteq> 0 then Write32 s (head + prev_off) blk else Some s);
     s \<leftarrow> Write32 s (blk + new_size) (kFreeMask OR needed_size);
     s \<leftarrow> Write32 s (blk + blk_size - 4) needed_size;
     s \<leftarrow> ResetTheFreeTag s (blk + new_size) needed_size;
     Some (blk + new_size, s)
   }"

text \<open>The search of \<^verbatim>\<open>AllocBlock\<close>: the first non-empty list, or the end of the lists.\<close>

function scan_lists :: "Allocator \<Rightarrow> u32 \<Rightarrow> (u32 \<times> u32) option" where
  "scan_lists s free_list =
     (if free_list < kNumFreeLists * 4
      then do { head \<leftarrow> Read32 s free_list;
                if head = 0 then scan_lists s (free_list + 4) else Some (free_list, head) }
      else Some (free_list, 0))"
  by pat_completeness auto
termination
proof (relation "measure (\<lambda>(s, fl). 292 - unat fl)")
  fix s :: Allocator and fl head :: u32
  assume "fl < kNumFreeLists * 4"
  then have "unat fl < 292"
    by (simp add: kNumFreeLists_def word_less_nat_alt)
  then show "((s, fl + 4), s, fl) \<in> measure (\<lambda>(s, fl). 292 - unat fl)"
    by (simp add: unat_word_ariths)
qed simp

declare scan_lists.simps [simp del]

definition AllocBlock :: "Allocator \<Rightarrow> u32 \<Rightarrow> (u32 \<times> Allocator) option" where
  "AllocBlock s blk_size = do {
     free_list \<leftarrow> GetFreeListByBlockSize blk_size;
     (free_list, head) \<leftarrow> scan_lists s free_list;
     if head = 0 then Some (0, s)
     else do {
       head_size \<leftarrow> ReadTheSizeTag s head;
       tag \<leftarrow> ReadTheFreeTag s head head_size;
       ensure (tag \<noteq> 0);
       ensure (head_size \<ge> blk_size);
       if head_size = blk_size
       then do {
         next_blk \<leftarrow> Read32 s (head + next_off);
         s \<leftarrow> ResetTheFreeTag s head head_size;
         s \<leftarrow> Write32 s free_list next_blk;
         s \<leftarrow> Write32 s (next_blk + prev_off) 0;
         Some (head, s) }
       else SplitBlock s head head_size blk_size }
   }"

definition FreeBlock :: "Allocator \<Rightarrow> u32 \<Rightarrow> Allocator option" where
  "FreeBlock s blk = do {
     blk_size \<leftarrow> ReadTheSizeTag s blk;
     let blk_size_old = blk_size;
     prev_blk_size \<leftarrow> Read32 s (blk - 4);
     let prev_blk = blk - prev_blk_size;
     let next_blk = blk + blk_size;
     next_blk_size \<leftarrow> ReadTheSizeTag s next_blk;
     prev_tag \<leftarrow> ReadThePrevFreeTag s blk;
     (s, blk, blk_size) \<leftarrow>
       (if prev_tag \<noteq> 0 \<and> blk_size \<le> kMaxBlockSize \<and> prev_blk_size \<le> kMaxBlockSize
        then do { s \<leftarrow> RemoveBlock s prev_blk prev_blk_size;
                  Some (s, prev_blk, blk_size + prev_blk_size) }
        else Some (s, blk, blk_size));
     next_tag \<leftarrow> ReadTheFreeTag s next_blk next_blk_size;
     (s, blk_size) \<leftarrow>
       (if next_tag \<noteq> 0 \<and> blk_size \<le> kMaxBlockSize \<and> next_blk_size \<le> kMaxBlockSize
        then do { s \<leftarrow> RemoveBlock s next_blk next_blk_size;
                  Some (s, blk_size + next_blk_size) }
        else Some (s, blk_size));
     s \<leftarrow> (if blk_size \<noteq> blk_size_old
          then do { tag \<leftarrow> ReadThePrevFreeTag s blk;
                    s \<leftarrow> Write32 s blk (tag OR blk_size);
                    Write32 s (blk + blk_size - 4) blk_size }
          else Some s);
     s \<leftarrow> SetTheFreeTag s blk blk_size;
     free_list \<leftarrow> GetFreeListByBlockSize blk_size;
     head \<leftarrow> Read32 s free_list;
     s \<leftarrow> Write32 s free_list blk;
     s \<leftarrow> Write32 s (blk + prev_off) 0;
     s \<leftarrow> Write32 s (blk + next_off) head;
     if head \<noteq> 0 then Write32 s (head + prev_off) blk else Some s
   }"

definition Alloc :: "Allocator \<Rightarrow> u32 \<Rightarrow> (u32 \<times> Allocator) option" where
  "Alloc s sz = do {
     blk_size \<leftarrow> RoundupBlockSize (sz + 4);
     ensure (blk_size mod 16 = 0);
     ensure (blk_size \<le> kMaxBlockSize);
     (blk, s) \<leftarrow> AllocBlock s blk_size;
     Some (if blk = 0 then 0 else blk + 4, s)
   }"

definition Free :: "Allocator \<Rightarrow> u32 \<Rightarrow> Allocator option" where
  "Free s ptr = do {
     ensure (ptr > 4 \<and> ptr \<le> kSize);
     FreeBlock s (ptr - 4)
   }"

end
