(* ===== verification/Free_Lists.thy ===== *)
theory Free_Lists
  imports Allocator
begin

text \<open>
  The doubly linked free lists as a structure of their own, apart from the blocks they run
  through. A relation \<open>L c x\<close> says that the block at offset \<open>x\<close> is listed in
  class \<open>c\<close>. The invariant \<open>links\<close> is local: the two pointers of a listed block lead to
  listed blocks of the same class that point back, and the head of a class, when there is
  one, is a listed block without a predecessor. It does not say that every listed block can
  be reached from its head; \<^verbatim>\<open>AllocBlock\<close> does not keep that.
\<close>

section \<open>Pointers\<close>

definition ptr :: "mem \<Rightarrow> nat \<Rightarrow> nat" where
  "ptr m a = unat (rd32 m a)"

lemma ptr_wr32: "a mod 4 = b mod 4 \<Longrightarrow> ptr (wr32 m a v) b = (if a = b then unat v else ptr m b)"
  by (simp add: ptr_def rd32_wr32)

definition num_lists :: nat where
  "num_lists = 73"

definition heap_start :: nat where
  "heap_start = 292"

type_synonym listing = "nat \<Rightarrow> nat \<Rightarrow> bool"

definition wf_listing :: "listing \<Rightarrow> bool" where
  "wf_listing L \<longleftrightarrow>
     (\<forall>c x. L c x \<longrightarrow> heap_start \<le> x \<and> x mod 16 = 4 \<and> c < num_lists)
     \<and> (\<forall>c c' x. L c x \<longrightarrow> L c' x \<longrightarrow> c = c')"

definition links :: "mem \<Rightarrow> listing \<Rightarrow> bool" where
  "links m L \<longleftrightarrow>
     (\<forall>c x. L c x \<longrightarrow>
        (ptr m (x + 8) \<noteq> 0 \<longrightarrow> L c (ptr m (x + 8)) \<and> ptr m (ptr m (x + 8) + 4) = x)
        \<and> (ptr m (x + 4) \<noteq> 0 \<longrightarrow> L c (ptr m (x + 4)) \<and> ptr m (ptr m (x + 4) + 8) = x))
     \<and> (\<forall>c < num_lists. ptr m (4 * c) \<noteq> 0 \<longrightarrow>
        L c (ptr m (4 * c)) \<and> ptr m (ptr m (4 * c) + 4) = 0)"

lemma wf_listingD:
  assumes "wf_listing L" "L c x"
  shows "heap_start \<le> x" "x mod 16 = 4" "c < num_lists" "x mod 4 = 0"
proof -
  show "heap_start \<le> x" and *: "x mod 16 = 4" and "c < num_lists"
    using assms by (auto simp: wf_listing_def)
  have "x mod 4 = x mod 16 mod 4"
    by (simp add: mod_mod_cancel)
  with * show "x mod 4 = 0"
    by simp
qed

lemma wf_listing_class: "wf_listing L \<Longrightarrow> L c x \<Longrightarrow> L c' x \<Longrightarrow> c = c'"
  by (auto simp: wf_listing_def)

lemma links_next:
  "links m L \<Longrightarrow> L c x \<Longrightarrow> ptr m (x + 8) \<noteq> 0 \<Longrightarrow>
   L c (ptr m (x + 8)) \<and> ptr m (ptr m (x + 8) + 4) = x"
  by (auto simp: links_def)

lemma links_prev:
  "links m L \<Longrightarrow> L c x \<Longrightarrow> ptr m (x + 4) \<noteq> 0 \<Longrightarrow>
   L c (ptr m (x + 4)) \<and> ptr m (ptr m (x + 4) + 8) = x"
  by (auto simp: links_def)

lemma links_head:
  "links m L \<Longrightarrow> c < num_lists \<Longrightarrow> ptr m (4 * c) \<noteq> 0 \<Longrightarrow>
   L c (ptr m (4 * c)) \<and> ptr m (ptr m (4 * c) + 4) = 0"
  by (auto simp: links_def)

text \<open>Three kinds of cell: heads of classes, predecessors and successors. They never overlap.\<close>

lemma cell_distinct:
  assumes "wf_listing L" "L c x" "L d y"
  shows "x + 4 \<noteq> y + 8" "e < num_lists \<Longrightarrow> 4 * e \<noteq> x + 4" "e < num_lists \<Longrightarrow> 4 * e \<noteq> x + 8"
proof -
  note x = wf_listingD [OF assms(1,2)] and y = wf_listingD [OF assms(1,3)]
  show "x + 4 \<noteq> y + 8"
  proof
    assume "x + 4 = y + 8"
    then have "x = y + 4"
      by simp
    with x(2) y(2) show False
      by (simp add: mod_add_left_eq [symmetric])
  qed
  show "e < num_lists \<Longrightarrow> 4 * e \<noteq> x + 4" "e < num_lists \<Longrightarrow> 4 * e \<noteq> x + 8"
    using x(1) by (simp_all add: heap_start_def num_lists_def)
qed

section \<open>What keeps the lists\<close>

lemma links_frame:
  assumes "links m L" "wf_listing L"
    and "\<And>c. c < num_lists \<Longrightarrow> ptr m' (4 * c) = ptr m (4 * c)"
    and "\<And>c x. L c x \<Longrightarrow> ptr m' (x + 4) = ptr m (x + 4)"
    and "\<And>c x. L c x \<Longrightarrow> ptr m' (x + 8) = ptr m (x + 8)"
  shows "links m' L"
  unfolding links_def
proof (intro conjI allI impI)
  fix c x
  assume L: "L c x"
  then show "L c (ptr m' (x + 8))" "ptr m' (ptr m' (x + 8) + 4) = x" if "ptr m' (x + 8) \<noteq> 0"
    using that assms(4,5) links_next [OF assms(1) L] by (metis)+
  from L show "L c (ptr m' (x + 4))" "ptr m' (ptr m' (x + 4) + 8) = x" if "ptr m' (x + 4) \<noteq> 0"
    using that assms(4,5) links_prev [OF assms(1) L] by (metis)+
next
  fix c
  assume "c < num_lists" "ptr m' (4 * c) \<noteq> 0"
  then show "L c (ptr m' (4 * c))" "ptr m' (ptr m' (4 * c) + 4) = 0"
    using assms(3,4) links_head [OF assms(1)] by (metis)+
qed

text \<open>Emptying the head of a class keeps the invariant.\<close>

lemma links_clear_head:
  assumes "links m L" "wf_listing L" "e < num_lists"
  shows "links (wr32 m (4 * e) 0) L"
proof -
  have head: "ptr (wr32 m (4 * e) 0) (4 * c) = (if c = e then 0 else ptr m (4 * c))" for c
    by (auto simp: ptr_wr32)
  have cell: "ptr (wr32 m (4 * e) 0) (x + 4) = ptr m (x + 4)"
    "ptr (wr32 m (4 * e) 0) (x + 8) = ptr m (x + 8)" if "L c x" for c x
    using that cell_distinct [OF assms(2) that that] wf_listingD(4) [OF assms(2) that] assms(3)
    by (simp_all add: ptr_wr32 mod_add_left_eq [symmetric])
  show ?thesis
    unfolding links_def
  proof (intro conjI allI impI)
    fix c x
    assume L: "L c x"
    show "L c (ptr (wr32 m (4 * e) 0) (x + 8))"
      "ptr (wr32 m (4 * e) 0) (ptr (wr32 m (4 * e) 0) (x + 8) + 4) = x"
      if "ptr (wr32 m (4 * e) 0) (x + 8) \<noteq> 0"
      using that links_next [OF assms(1) L] cell(2) [OF L] cell(1) by metis+
    show "L c (ptr (wr32 m (4 * e) 0) (x + 4))"
      "ptr (wr32 m (4 * e) 0) (ptr (wr32 m (4 * e) 0) (x + 4) + 8) = x"
      if "ptr (wr32 m (4 * e) 0) (x + 4) \<noteq> 0"
      using that links_prev [OF assms(1) L] cell(1) [OF L] cell(2) by metis+
  next
    fix c
    assume "c < num_lists" "ptr (wr32 m (4 * e) 0) (4 * c) \<noteq> 0"
    then show "L c (ptr (wr32 m (4 * e) 0) (4 * c))"
      "ptr (wr32 m (4 * e) 0) (ptr (wr32 m (4 * e) 0) (4 * c) + 4) = 0"
      using links_head [OF assms(1)] head cell(1) by metis+
  qed
qed

text \<open>
  Taking a block out: its neighbours are joined, and when it has no predecessor its successor
  becomes the head of the class. The memory afterwards is described cell by cell.
\<close>

definition unlinked :: "mem \<Rightarrow> nat \<Rightarrow> nat \<Rightarrow> nat \<Rightarrow> nat" where
  "unlinked m c x a =
     (let p = ptr m (x + 4); q = ptr m (x + 8)
      in if q \<noteq> 0 \<and> a = q + 4 then p
         else if p \<noteq> 0 \<and> a = p + 8 then q
         else if p = 0 \<and> a = 4 * c then q
         else ptr m a)"

lemma links_unlink:
  assumes "links m L" "wf_listing L" "L c x"
    and m': "\<And>a. a mod 4 = 0 \<Longrightarrow> ptr m' a = unlinked m c x a"
  shows "links m' (\<lambda>d y. L d y \<and> y \<noteq> x)"
proof -
  let ?p = "ptr m (x + 4)" and ?q = "ptr m (x + 8)"
  have q: "?q \<noteq> 0 \<Longrightarrow> L c ?q \<and> ptr m (?q + 4) = x"
    using links_next [OF assms(1,3)] .
  have p: "?p \<noteq> 0 \<Longrightarrow> L c ?p \<and> ptr m (?p + 8) = x"
    using links_prev [OF assms(1,3)] .
  have x0: "x \<noteq> 0"
    using wf_listingD(1) [OF assms(2,3)] by (simp add: heap_start_def)
  have al: "(y + 4) mod 4 = 0" "(y + 8) mod 4 = 0" if "L d y" for d y
    using wf_listingD(4) [OF assms(2) that] by (simp_all add: mod_add_left_eq [symmetric])
  have nxt: "ptr m' (y + 8) = (if ?p \<noteq> 0 \<and> y = ?p then ?q else ptr m (y + 8))" if "L d y" for d y
  proof -
    have "?q \<noteq> 0 \<Longrightarrow> y + 8 \<noteq> ?q + 4"
      using cell_distinct(1) [OF assms(2) conjunct1 [OF q] that] by simp
    moreover have "y + 8 \<noteq> 4 * c"
      using cell_distinct(3) [OF assms(2) that that wf_listingD(3) [OF assms(2,3)]] by simp
    ultimately show ?thesis
      using m' [OF al(2) [OF that]] by (auto simp: unlinked_def Let_def)
  qed
  have prv: "ptr m' (y + 4) = (if ?q \<noteq> 0 \<and> y = ?q then ?p else ptr m (y + 4))" if "L d y" for d y
  proof -
    have "?p \<noteq> 0 \<Longrightarrow> y + 4 \<noteq> ?p + 8"
      using cell_distinct(1) [OF assms(2) that conjunct1 [OF p]] by simp
    moreover have "y + 4 \<noteq> 4 * c"
      using cell_distinct(2) [OF assms(2) that that wf_listingD(3) [OF assms(2,3)]] by simp
    ultimately show ?thesis
      using m' [OF al(1) [OF that]] by (auto simp: unlinked_def Let_def)
  qed
  have head: "ptr m' (4 * d) = (if ?p = 0 \<and> d = c then ?q else ptr m (4 * d))"
    if "d < num_lists" for d
  proof -
    have "?q \<noteq> 0 \<Longrightarrow> 4 * d \<noteq> ?q + 4" "?p \<noteq> 0 \<Longrightarrow> 4 * d \<noteq> ?p + 8"
      using cell_distinct(2) [OF assms(2) conjunct1 [OF q] assms(3) that]
        cell_distinct(3) [OF assms(2) conjunct1 [OF p] assms(3) that] by blast+
    then show ?thesis
      using m' [of "4 * d"] by (auto simp: unlinked_def Let_def)
  qed
  have next_ok: "(L d (ptr m' (y + 8)) \<and> ptr m' (y + 8) \<noteq> x) \<and> ptr m' (ptr m' (y + 8) + 4) = y"
    if L: "L d y" and "y \<noteq> x" and "ptr m' (y + 8) \<noteq> 0" for d y
  proof (cases "?p \<noteq> 0 \<and> y = ?p")
    case True
    then have "d = c" "ptr m' (y + 8) = ?q"
      using wf_listing_class [OF assms(2) L] p nxt [OF L] by auto
    moreover from this that True q have "?q \<noteq> x" "ptr m' (?q + 4) = y"
      using prv [of c ?q] by auto
    ultimately show ?thesis
      using q that by simp
  next
    case False
    then have eq: "ptr m' (y + 8) = ptr m (y + 8)"
      using nxt [OF L] by auto
    have z: "L d (ptr m (y + 8))" "ptr m (ptr m (y + 8) + 4) = y"
      using links_next [OF assms(1) L] that eq by auto
    have "y \<noteq> 0"
      using wf_listingD(1) [OF assms(2) L] by (simp add: heap_start_def)
    then have "ptr m (y + 8) \<noteq> x"
      using z(2) False by auto
    moreover have "ptr m' (ptr m (y + 8) + 4) = y"
      using prv [OF z(1)] z(2) q that(2) by auto
    ultimately show ?thesis
      using eq z by simp
  qed
  have prev_ok: "(L d (ptr m' (y + 4)) \<and> ptr m' (y + 4) \<noteq> x) \<and> ptr m' (ptr m' (y + 4) + 8) = y"
    if L: "L d y" and "y \<noteq> x" and "ptr m' (y + 4) \<noteq> 0" for d y
  proof (cases "?q \<noteq> 0 \<and> y = ?q")
    case True
    then have "d = c" "ptr m' (y + 4) = ?p"
      using wf_listing_class [OF assms(2) L] q prv [OF L] by auto
    moreover from this that True p have "?p \<noteq> x" "ptr m' (?p + 8) = y"
      using nxt [of c ?p] by auto
    ultimately show ?thesis
      using p that by simp
  next
    case False
    then have eq: "ptr m' (y + 4) = ptr m (y + 4)"
      using prv [OF L] by auto
    have z: "L d (ptr m (y + 4))" "ptr m (ptr m (y + 4) + 8) = y"
      using links_prev [OF assms(1) L] that eq by auto
    have "y \<noteq> 0"
      using wf_listingD(1) [OF assms(2) L] by (simp add: heap_start_def)
    then have "ptr m (y + 4) \<noteq> x"
      using z(2) False by auto
    moreover have "ptr m' (ptr m (y + 4) + 8) = y"
      using nxt [OF z(1)] z(2) p that(2) by auto
    ultimately show ?thesis
      using eq z by simp
  qed
  have head_ok: "(L d (ptr m' (4 * d)) \<and> ptr m' (4 * d) \<noteq> x) \<and> ptr m' (ptr m' (4 * d) + 4) = 0"
    if d: "d < num_lists" and "ptr m' (4 * d) \<noteq> 0" for d
  proof (cases "?p = 0 \<and> d = c")
    case True
    then show ?thesis
      using head [OF d] that q x0 prv [of c ?q] by auto
  next
    case False
    then have eq: "ptr m' (4 * d) = ptr m (4 * d)"
      using head [OF d] by auto
    have z: "L d (ptr m (4 * d))" "ptr m (ptr m (4 * d) + 4) = 0"
      using links_head [OF assms(1) d] that eq by auto
    then have "ptr m (4 * d) \<noteq> x"
      using False wf_listing_class [OF assms(2,3)] by auto
    moreover have "ptr m' (ptr m (4 * d) + 4) = 0"
      using prv [OF z(1)] z(2) q x0 by auto
    ultimately show ?thesis
      using eq z by simp
  qed
  show ?thesis
    unfolding links_def using next_ok prev_ok head_ok by blast
qed

text \<open>Putting a block in front of its class.\<close>

definition pushed :: "mem \<Rightarrow> nat \<Rightarrow> nat \<Rightarrow> nat \<Rightarrow> nat" where
  "pushed m c x a =
     (let h = ptr m (4 * c)
      in if a = 4 * c then x
         else if a = x + 4 then 0
         else if a = x + 8 then h
         else if h \<noteq> 0 \<and> a = h + 4 then x
         else ptr m a)"

lemma links_push:
  assumes "links m L" "wf_listing L" "\<And>d. \<not> L d x"
    and x: "heap_start \<le> x" "x mod 16 = 4" and c: "c < num_lists"
    and m': "\<And>a. a mod 4 = 0 \<Longrightarrow> ptr m' a = pushed m c x a"
  shows "links m' (\<lambda>d y. L d y \<or> d = c \<and> y = x)"
proof -
  let ?L = "\<lambda>d y. L d y \<or> d = c \<and> y = x"
  let ?h = "ptr m (4 * c)"
  have wf: "wf_listing ?L"
    using assms(2,3) x c by (auto simp: wf_listing_def)
  have h: "?h \<noteq> 0 \<Longrightarrow> L c ?h \<and> ptr m (?h + 4) = 0"
    using links_head [OF assms(1) c] .
  have x0: "x \<noteq> 0" and hx: "?h \<noteq> x"
    using x(1) h assms(3) [of c] by (auto simp: heap_start_def)
  have al: "(y + 4) mod 4 = 0" "(y + 8) mod 4 = 0" if "?L d y" for d y
    using wf_listingD(4) [OF wf that] by (simp_all add: mod_add_left_eq [symmetric])
  have nxt: "ptr m' (y + 8) = (if y = x then ?h else ptr m (y + 8))" if "?L d y" for d y
  proof -
    have "y + 8 \<noteq> x + 4" "?h \<noteq> 0 \<Longrightarrow> y + 8 \<noteq> ?h + 4"
      using cell_distinct(1) [OF wf _ that, of c x] cell_distinct(1) [OF wf _ that, of c ?h] h
      by auto
    moreover have "y + 8 \<noteq> 4 * c"
      using cell_distinct(3) [OF wf that that c] by simp
    ultimately show ?thesis
      using m' [OF al(2) [OF that]] by (auto simp: pushed_def Let_def)
  qed
  have prv: "ptr m' (y + 4) = (if y = x then 0 else if ?h \<noteq> 0 \<and> y = ?h then x else ptr m (y + 4))"
    if "?L d y" for d y
  proof -
    have "y + 4 \<noteq> x + 8"
      using cell_distinct(1) [OF wf that, of c x] by auto
    moreover have "y + 4 \<noteq> 4 * c"
      using cell_distinct(2) [OF wf that that c] by simp
    ultimately show ?thesis
      using m' [OF al(1) [OF that]] by (auto simp: pushed_def Let_def)
  qed
  have head: "ptr m' (4 * d) = (if d = c then x else ptr m (4 * d))" if "d < num_lists" for d
    using m' [of "4 * d"] that cell_distinct(2,3) [OF wf _ _ that, of c x c x]
      cell_distinct(2) [OF wf _ _ that, of c ?h c ?h] h
    by (auto simp: pushed_def Let_def)
  show ?thesis
    unfolding links_def
  proof (intro conjI allI impI)
    fix d y
    assume L: "?L d y" and ne: "ptr m' (y + 8) \<noteq> 0"
    show "?L d (ptr m' (y + 8))" "ptr m' (ptr m' (y + 8) + 4) = y"
    proof -
      have "?L d (ptr m' (y + 8)) \<and> ptr m' (ptr m' (y + 8) + 4) = y"
      proof (cases "y = x")
        case True
        with L assms(3) ne nxt [OF L] h hx prv [of c ?h] show ?thesis
          by auto
      next
        case False
        with L have "L d y"
          by simp
        then have "y \<noteq> 0"
          using wf_listingD(1) [OF assms(2)] by (fastforce simp: heap_start_def)
        with \<open>L d y\<close> False ne nxt [OF L] links_next [OF assms(1), of d y]
          prv [of d "ptr m (y + 8)"] h assms(3)
        show ?thesis
          by (auto split: if_splits)
      qed
      then show "?L d (ptr m' (y + 8))" "ptr m' (ptr m' (y + 8) + 4) = y"
        by blast+
    qed
  next
    fix d y
    assume L: "?L d y" and ne: "ptr m' (y + 4) \<noteq> 0"
    have "?L d (ptr m' (y + 4)) \<and> ptr m' (ptr m' (y + 4) + 8) = y"
    proof (cases "?h \<noteq> 0 \<and> y = ?h")
      case True
      with L h have "d = c"
        using wf_listing_class [OF assms(2)] assms(3) by blast
      with True ne prv [OF L] nxt [of c x] hx show ?thesis
        by auto
    next
      case False
      with prv [OF L] ne L have "y \<noteq> x" "L d y"
        by auto
      with False ne prv [OF L] links_prev [OF assms(1), of d y] nxt [of d "ptr m (y + 4)"] assms(3)
      show ?thesis
        by auto
    qed
    then show "?L d (ptr m' (y + 4))" "ptr m' (ptr m' (y + 4) + 8) = y"
      by blast+
  next
    fix d
    assume d: "d < num_lists" and ne: "ptr m' (4 * d) \<noteq> 0"
    have "?L d (ptr m' (4 * d)) \<and> ptr m' (ptr m' (4 * d) + 4) = 0"
    proof (cases "d = c")
      case True
      then show ?thesis
        using head [OF d] prv [of c x] by simp
    next
      case False
      with head [OF d] ne links_head [OF assms(1) d] have
        "L d (ptr m (4 * d))" "ptr m (ptr m (4 * d) + 4) = 0"
        by auto
      with False head [OF d] prv [of d "ptr m (4 * d)"] h assms(3) wf_listing_class [OF assms(2)]
      show ?thesis
        by (auto split: if_splits)
    qed
    then show "?L d (ptr m' (4 * d))" "ptr m' (ptr m' (4 * d) + 4) = 0"
      by blast+
  qed
qed

end
