(* ===== verification/Heap_Blocks.thy ===== *)
theory Heap_Blocks
  imports Free_Lists
begin

text \<open>
  The blocks that tile the heap, as a map \<open>B\<close> from offsets to a size and a free flag, and
  the boundary tags that record them in memory. \<open>geom\<close> says that the blocks tile the
  heap, \<open>tags\<close> that the headers and footers agree with \<open>B\<close>. The block operations are
  \<open>absorb\<close> (one free block covers a run of blocks), \<open>carve\<close> (a free block gives up its
  end) and a change of flag.
\<close>

section \<open>Geometry\<close>

type_synonym blocks = "nat \<Rightarrow> (nat \<times> bool) option"

definition heap_end :: nat where
  "heap_end = 67108852"

definition geom :: "blocks \<Rightarrow> bool" where
  "geom B \<longleftrightarrow>
     (\<forall>a n f. B a = Some (n, f) \<longrightarrow>
        heap_start \<le> a \<and> a mod 16 = 4 \<and> 32 \<le> n \<and> n mod 16 = 0 \<and> a + n \<le> heap_end
        \<and> (a + n = heap_end \<or> a + n \<in> dom B)
        \<and> (a = heap_start \<or> (\<exists>p k g. B p = Some (k, g) \<and> p + k = a)))
     \<and> (\<forall>a n f a' n' f'. B a = Some (n, f) \<longrightarrow> B a' = Some (n', f') \<longrightarrow> a < a' \<longrightarrow> a + n \<le> a')"

lemma geomD:
  assumes "geom B" "B a = Some (n, f)"
  shows "heap_start \<le> a" "a mod 16 = 4" "32 \<le> n" "n mod 16 = 0" "a + n \<le> heap_end"
    "a + n = heap_end \<or> a + n \<in> dom B"
    "a = heap_start \<or> (\<exists>p k g. B p = Some (k, g) \<and> p + k = a)"
  using assms unfolding geom_def by blast+

lemma geom_disjoint:
  "geom B \<Longrightarrow> B a = Some (n, f) \<Longrightarrow> B a' = Some (n', f') \<Longrightarrow> a < a' \<Longrightarrow> a + n \<le> a'"
  unfolding geom_def by blast

text \<open>An offset that is a block or the end of the heap is outside every other block.\<close>

definition boundary :: "blocks \<Rightarrow> nat \<Rightarrow> bool" where
  "boundary B a \<longleftrightarrow> a = heap_end \<or> a \<in> dom B"

lemma boundary_outside:
  assumes "geom B" "B x = Some (n, f)" "boundary B a"
  shows "a \<le> x \<or> x + n \<le> a"
  using geomD(5) [OF assms(1,2)] geom_disjoint [OF assms(1,2)] assms(3)
  by (force simp: boundary_def not_le)

lemma boundary_next: "geom B \<Longrightarrow> B x = Some (n, f) \<Longrightarrow> boundary B (x + n)"
  using geomD(6) by (auto simp: boundary_def)

lemma boundary_mod:
  assumes "geom B" "boundary B a"
  shows "a mod 16 = 4" "heap_start \<le> a" "a \<le> heap_end"
  using assms geomD(2) [OF assms(1)] geomD(1) [OF assms(1)] geomD(5) [OF assms(1)]
  by (fastforce simp: boundary_def heap_end_def heap_start_def)+

lemma mod_16_diff:
  fixes x n :: nat
  assumes "x mod 16 = 4" "(x + n) mod 16 = 4"
  shows "n mod 16 = 0"
proof -
  have "x = 16 * (x div 16) + 4" "x + n = 16 * ((x + n) div 16) + 4"
    using assms by (metis div_mult_mod_eq mult.commute)+
  then have "n = 16 * ((x + n) div 16 - x div 16)"
    by linarith
  then show ?thesis
    by (metis mod_mult_self1_is_0)
qed

definition absorb :: "blocks \<Rightarrow> nat \<Rightarrow> nat \<Rightarrow> blocks" where
  "absorb B x n = (\<lambda>a. if a = x then Some (n, True) else if x < a \<and> a < x + n then None else B a)"

lemma absorb_Some_iff:
  "absorb B x n a = Some (k, f) \<longleftrightarrow>
     a = x \<and> k = n \<and> f \<or> a \<noteq> x \<and> \<not> (x < a \<and> a < x + n) \<and> B a = Some (k, f)"
  by (auto simp: absorb_def)

lemma absorb_other:
  assumes "geom B" "B x = Some (n0, f0)" "0 < n" "boundary B (x + n)"
    and "B a = Some (k, f)" "a \<noteq> x" "\<not> (x < a \<and> a < x + n)"
  shows "a + k \<le> x \<or> x + n \<le> a"
  using assms geom_disjoint [OF assms(1,5,2)] by linarith

lemma geom_absorb:
  assumes g: "geom B" and x: "B x = Some (n0, f0)" and n: "0 < n" and b: "boundary B (x + n)"
  shows "geom (absorb B x n)"
proof -
  let ?B = "absorb B x n"
  note gx = geomD [OF g x] and bm = boundary_mod [OF g b]
  have nn: "n0 \<le> n"
    using boundary_outside [OF g x b] n by linarith
  have nmod: "n mod 16 = 0"
    using gx(2) bm(1) by (rule mod_16_diff)
  have dom: "a \<in> dom ?B \<longleftrightarrow> a = x \<or> a \<in> dom B \<and> \<not> (x < a \<and> a < x + n)" for a
    using x by (auto simp: absorb_def split: if_splits)
  have other: "a + k \<le> x \<or> x + n \<le> a"
    if "B a = Some (k, f)" "a \<noteq> x" "\<not> (x < a \<and> a < x + n)" for a k f
    using absorb_other [OF g x n b that] .
  have fields: "heap_start \<le> a \<and> a mod 16 = 4 \<and> 32 \<le> k \<and> k mod 16 = 0 \<and> a + k \<le> heap_end
      \<and> (a + k = heap_end \<or> a + k \<in> dom ?B) \<and> (a = heap_start \<or> (\<exists>p j g. ?B p = Some (j, g) \<and> p + j = a))"
    if "?B a = Some (k, f)" for a k f
  proof (cases "a = x")
    case True
    with that have k: "k = n"
      by (simp add: absorb_def)
    have "x = heap_start \<or> (\<exists>p j g. ?B p = Some (j, g) \<and> p + j = x)"
    proof (cases "x = heap_start")
      case False
      then obtain p j h where p: "B p = Some (j, h)" "p + j = x"
        using gx(7) by blast
      with geomD(3) [OF g p(1)] have "?B p = Some (j, h)"
        by (simp add: absorb_Some_iff)
      with p(2) show ?thesis by blast
    qed simp
    moreover have "x + n = heap_end \<or> x + n \<in> dom ?B"
      using b n by (auto simp: boundary_def dom)
    ultimately show ?thesis
      using True k gx(1-3) nn nmod bm(3) by simp
  next
    case False
    with that have B: "B a = Some (k, f)" "\<not> (x < a \<and> a < x + n)"
      by (auto simp: absorb_Some_iff)
    note ga = geomD [OF g B(1)] and o = other [OF B(1) False B(2)]
    have "a + k = heap_end \<or> a + k \<in> dom ?B"
      using ga(6) o by (auto simp: dom)
    moreover have "a = heap_start \<or> (\<exists>p j g. ?B p = Some (j, g) \<and> p + j = a)"
    proof (cases "a = heap_start")
      case not_first: False
      then obtain p j h where p: "B p = Some (j, h)" "p + j = a"
        using ga(7) by blast
      show ?thesis
      proof (cases "p = x \<or> x < p \<and> p < x + n")
        case True
        have "a \<le> x + n"
        proof (rule ccontr)
          assume "\<not> a \<le> x + n"
          with True p boundary_outside [OF g p(1) b] n show False
            by linarith
        qed
        with True p o ga(3) geomD(3) [OF g p(1)] have "a = x + n"
          by linarith
        then show ?thesis
          by (auto simp: absorb_Some_iff)
      next
        case outside: False
        with p show ?thesis
          by (auto simp: absorb_Some_iff)
      qed
    qed simp
    ultimately show ?thesis
      using ga(1-5) by blast
  qed
  have disj: "a + k \<le> a'" if "?B a = Some (k, f)" "?B a' = Some (k', f')" "a < a'" for a k f a' k' f'
    using that other [of a k f] other [of a' k' f'] geom_disjoint [OF g, of a k f a' k' f']
    by (auto simp: absorb_Some_iff)
  show ?thesis
    unfolding geom_def using fields disj by blast
qed

definition carve :: "blocks \<Rightarrow> nat \<Rightarrow> nat \<Rightarrow> nat \<Rightarrow> blocks" where
  "carve B x n k = B(x \<mapsto> (n - k, True), x + n - k \<mapsto> (k, False))"

lemma carve_Some_iff:
  "0 < k \<Longrightarrow> k < n \<Longrightarrow> carve B x n k a = Some (j, f) \<longleftrightarrow>
     a = x \<and> j = n - k \<and> f \<or> a = x + (n - k) \<and> j = k \<and> \<not> f \<or> a \<noteq> x \<and> a \<noteq> x + (n - k) \<and> B a = Some (j, f)"
  by (auto simp: carve_def)

lemma geom_carve:
  assumes g: "geom B" and x: "B x = Some (n, f0)" and k: "32 \<le> k" "k + 32 \<le> n" "k mod 16 = 0"
  shows "geom (carve B x n k)"
proof -
  let ?B = "carve B x n k"
  let ?y = "x + (n - k)"
  note gx = geomD [OF g x]
  have y: "x < ?y" "?y + k = x + n" "32 \<le> n - k"
    using k by simp_all
  have nk: "(n - k) mod 16 = 0"
    using gx(4) k by (simp add: mod_0_imp_dvd dvd_imp_mod_0)
  have "?y mod 16 = (x mod 16 + (n - k) mod 16) mod 16"
    by (rule mod_add_eq [symmetric])
  with gx(2) nk have ymod: "?y mod 16 = 4"
    by simp
  have dom: "a \<in> dom ?B \<longleftrightarrow> a = ?y \<or> a \<in> dom B" for a
    using x k by (auto simp: carve_def)
  have S: "?B a = Some (j, f) \<longleftrightarrow> a = x \<and> j = n - k \<and> f \<or> a = ?y \<and> j = k \<and> \<not> f
      \<or> a \<noteq> x \<and> a \<noteq> ?y \<and> B a = Some (j, f)" for a j f
    using k by (intro carve_Some_iff) simp_all
  have other: "a + j \<le> x \<or> x + n \<le> a" if "B a = Some (j, f)" "a \<noteq> x" for a j f
    using that geom_disjoint [OF g that(1) x] geom_disjoint [OF g x that(1)] by linarith
  have fields: "heap_start \<le> a \<and> a mod 16 = 4 \<and> 32 \<le> j \<and> j mod 16 = 0 \<and> a + j \<le> heap_end
      \<and> (a + j = heap_end \<or> a + j \<in> dom ?B) \<and> (a = heap_start \<or> (\<exists>p i g. ?B p = Some (i, g) \<and> p + i = a))"
    if Ba: "?B a = Some (j, f)" for a j f
  proof -
    consider "a = x" "j = n - k" | "a = ?y" "j = k" | "a \<noteq> x" "a \<noteq> ?y" "B a = Some (j, f)"
      using Ba [unfolded S] by blast
    then show ?thesis
    proof cases
      case 1
      have "x = heap_start \<or> (\<exists>p i g. ?B p = Some (i, g) \<and> p + i = x)"
      proof (cases "x = heap_start")
        case False
        then obtain p i h where p: "B p = Some (i, h)" "p + i = x"
          using gx(7) by blast
        have "p \<noteq> x" "p \<noteq> ?y"
          using geomD(3) [OF g p(1)] p(2) y(1) by linarith+
        with p(1) have "?B p = Some (i, h)"
          unfolding S by blast
        with p(2) show ?thesis by blast
      qed simp
      then show ?thesis
        using 1 gx(1,2,5) y nk dom by auto
    next
      case 2
      have "\<exists>p i g. ?B p = Some (i, g) \<and> p + i = ?y"
        by (intro exI [of _ x] exI [of _ "n - k"] exI [of _ True]) (simp add: S)
      then show ?thesis
        using 2 gx(1,5,6) k y ymod dom by auto
    next
      case 3
      note ga = geomD [OF g 3(3)]
      have "a = heap_start \<or> (\<exists>p i g. ?B p = Some (i, g) \<and> p + i = a)"
      proof (cases "a = heap_start")
        case False
        then obtain p i h where p: "B p = Some (i, h)" "p + i = a"
          using ga(7) by blast
        show ?thesis
        proof (cases "p = x")
          case True
          with p x have "a = ?y + k"
            using y(2) by simp
          then show ?thesis
            by (intro disjI2 exI [of _ ?y] exI [of _ k] exI [of _ False]) (use y in \<open>simp add: S\<close>)
        next
          case False
          moreover have "p \<noteq> ?y"
            using other [OF p(1) False] geomD(3) [OF g p(1)] y k(1) by linarith
          ultimately show ?thesis
            using p by (auto simp: S)
        qed
      qed simp
      then show ?thesis
        using ga(1-6) dom by auto
    qed
  qed
  have disj: "a + j \<le> a'" if "?B a = Some (j, f)" "?B a' = Some (j', f')" "a < a'" for a j f a' j' f'
  proof -
    have pos: "32 \<le> i" if "B b = Some (i, h)" for b i h
      using geomD(3) [OF g that] .
    show ?thesis
      using that(1,2) [unfolded S] that(3) other [of a j f] other [of a' j' f'] y
        geom_disjoint [OF g, of a j f a' j' f'] pos [of a j f] pos [of a' j' f']
      by (elim disjE) auto
  qed
  show ?thesis
    unfolding geom_def using fields disj by blast
qed

lemma geom_flag:
  assumes g: "geom B" and x: "B x = Some (n, f)"
  shows "geom (B(x \<mapsto> (n, g)))"
proof -
  let ?B = "B(x \<mapsto> (n, g))"
  have fwd: "\<exists>h. B a = Some (k, h)" if "?B a = Some (k, h')" for a k h'
    using that x by (auto split: if_splits)
  have bwd: "\<exists>h. ?B a = Some (k, h)" if "B a = Some (k, h')" for a k h'
    using that x by auto
  have dom: "dom ?B = dom B"
    using x by auto
  have fields: "heap_start \<le> a \<and> a mod 16 = 4 \<and> 32 \<le> k \<and> k mod 16 = 0 \<and> a + k \<le> heap_end
      \<and> (a + k = heap_end \<or> a + k \<in> dom ?B) \<and> (a = heap_start \<or> (\<exists>p j g. ?B p = Some (j, g) \<and> p + j = a))"
    if Ba: "?B a = Some (k, f)" for a k f
  proof -
    obtain h where h: "B a = Some (k, h)"
      using fwd [OF Ba] by blast
    show ?thesis
      using geomD [OF g h] bwd unfolding dom by blast
  qed
  have disj: "a + k \<le> a'" if Ba: "?B a = Some (k, f)" "?B a' = Some (k', f')" "a < a'" for a k f a' k' f'
  proof -
    obtain h h' where "B a = Some (k, h)" "B a' = Some (k', h')"
      using fwd [OF Ba(1)] fwd [OF Ba(2)] by blast
    then show ?thesis
      using geom_disjoint [OF g] Ba(3) by blast
  qed
  show ?thesis
    unfolding geom_def using fields disj by blast
qed

section \<open>Tags\<close>

definition sz :: "mem \<Rightarrow> nat \<Rightarrow> nat" where
  "sz m a = unat (rd32 m a AND NOT kFreeMask)"

definition pf :: "mem \<Rightarrow> nat \<Rightarrow> bool" where
  "pf m a \<longleftrightarrow> rd32 m a AND kFreeMask \<noteq> 0"

definition tags :: "mem \<Rightarrow> blocks \<Rightarrow> bool" where
  "tags m B \<longleftrightarrow>
     (\<forall>a n f. B a = Some (n, f) \<longrightarrow>
        sz m a = n \<and> pf m (a + n) = f \<and> (f \<longrightarrow> ptr m (a + n - 4) = n))
     \<and> sz m heap_end = 0 \<and> \<not> pf m heap_start"

lemma tagsD:
  assumes "tags m B" "B a = Some (n, f)"
  shows "sz m a = n" "pf m (a + n) = f" "f \<Longrightarrow> ptr m (a + n - 4) = n"
  using assms unfolding tags_def by blast+

text \<open>The offsets at which a state keeps tags.\<close>

definition tag_cell :: "blocks \<Rightarrow> nat \<Rightarrow> bool" where
  "tag_cell B a \<longleftrightarrow> a = heap_start \<or> boundary B a \<or> (\<exists>x n. B x = Some (n, True) \<and> a = x + n - 4)"

lemma tags_cong:
  assumes "tags m B" "geom B" "\<And>a. tag_cell B a \<Longrightarrow> rd32 m' a = rd32 m a"
  shows "tags m' B"
  unfolding tags_def
proof (intro conjI allI impI)
  fix a n f
  assume B: "B a = Some (n, f)"
  have "tag_cell B a" "tag_cell B (a + n)"
    using B boundary_next [OF assms(2) B] by (auto simp: tag_cell_def boundary_def)
  then show "sz m' a = n" "pf m' (a + n) = f"
    using tagsD [OF assms(1) B] assms(3) by (simp_all add: sz_def pf_def)
  show "ptr m' (a + n - 4) = n" if f
  proof -
    have "tag_cell B (a + n - 4)"
      using that B by (auto simp: tag_cell_def)
    then show ?thesis
      using tagsD(3) [OF assms(1) B that] assms(3) by (simp add: ptr_def)
  qed
next
  show "sz m' heap_end = 0" "\<not> pf m' heap_start"
    using assms by (simp_all add: tags_def tag_cell_def boundary_def sz_def pf_def)
qed

lemma tag_cell_mod4:
  assumes "geom B" "tag_cell B a"
  shows "a mod 4 = 0" "heap_start \<le> a"
proof -
  have m4: "a mod 4 = 0" if "a mod 16 = 4" for a :: nat
  proof -
    have "a mod 4 = a mod 16 mod 4"
      by (simp add: mod_mod_cancel)
    with that show ?thesis by simp
  qed
  have foot: "(x + n - 4) mod 4 = 0 \<and> heap_start \<le> x + n - 4" if "B x = Some (n, True)" for x n
  proof -
    note gx = geomD [OF assms(1) that] and bm = boundary_mod(1) [OF assms(1) boundary_next [OF assms(1) that]]
    have "x + n = (x + n - 4) + 4"
      using gx(3) by simp
    then have "(x + n) mod 4 = (x + n - 4) mod 4"
      by (metis mod_add_self2)
    with m4 [OF bm] gx(1,3) show ?thesis
      by simp
  qed
  show "a mod 4 = 0" "heap_start \<le> a"
    using assms m4 boundary_mod [OF assms(1)] foot
    by (auto simp: tag_cell_def heap_start_def)
qed

lemma tag_cells:
  assumes "geom B" "B a = Some (n, f)"
  shows "tag_cell B a" "tag_cell B (a + n)" "f \<Longrightarrow> tag_cell B (a + n - 4)"
proof -
  show "tag_cell B a" "tag_cell B (a + n)"
    using assms boundary_next [OF assms] by (auto simp: tag_cell_def boundary_def)
  show "f \<Longrightarrow> tag_cell B (a + n - 4)"
    using assms(2) unfolding tag_cell_def by (intro disjI2 exI [of _ a] exI [of _ n]) simp
qed

text \<open>The cells of the free lists are none of these.\<close>

lemma link_cell_not_tag:
  assumes "geom B" "B x = Some (n, f)" "tag_cell B a"
  shows "a \<noteq> x + 4" "a \<noteq> x + 8" "c < num_lists \<Longrightarrow> a \<noteq> 4 * c"
proof -
  note gx = geomD [OF assms(1,2)]
  have out: "a \<le> x \<or> x + n - 4 \<le> a"
    using assms(3) unfolding tag_cell_def
  proof (elim disjE exE conjE)
    fix y k
    assume y: "B y = Some (k, True)" "a = y + k - 4"
    show ?thesis
    proof (cases "y = x")
      case True
      with y assms(2) show ?thesis by simp
    next
      case False
      with geom_disjoint [OF assms(1) y(1) assms(2)] geom_disjoint [OF assms(1,2) y(1)]
        geomD(3) [OF assms(1) y(1)] y(2)
      show ?thesis by linarith
    qed
  qed (use boundary_outside [OF assms(1,2)] gx(1) in fastforce)+
  show "a \<noteq> x + 4" "a \<noteq> x + 8"
    using out gx(3) by linarith+
  show "c < num_lists \<Longrightarrow> a \<noteq> 4 * c"
    using tag_cell_mod4(2) [OF assms(1,3)] by (simp add: heap_start_def num_lists_def)
qed

section \<open>Words as tags\<close>

lemma bit_kFreeMask: "bit kFreeMask k \<longleftrightarrow> k = 31"
proof -
  have "kFreeMask = 2 ^ 31"
    by (simp add: kFreeMask_def)
  then have "bit kFreeMask k \<longleftrightarrow> bit (2 ^ 31 :: u32) k"
    by (simp only:)
  also have "\<dots> \<longleftrightarrow> k = 31"
    unfolding bit_exp_iff by auto
  finally show ?thesis .
qed

lemma not_bit_31: "unat (v :: u32) < 2 ^ 31 \<Longrightarrow> \<not> bit v 31"
proof -
  assume "unat v < 2 ^ 31"
  then have "\<not> odd (unat v div 2 ^ 31)"
    by simp
  then have "\<not> bit (unat v) 31"
    unfolding bit_iff_odd .
  then show ?thesis
    by (simp add: bit_unsigned_iff)
qed

lemma and_kFreeMask_0: "w AND kFreeMask = 0 \<longleftrightarrow> \<not> bit w 31"
proof
  assume "w AND kFreeMask = 0"
  then have "\<not> bit (w AND kFreeMask) 31"
    by simp
  then show "\<not> bit w 31"
    by (simp add: bit_and_iff bit_kFreeMask)
next
  assume nb: "\<not> bit w 31"
  show "w AND kFreeMask = 0"
  proof (rule bit_word_eqI)
    fix k
    show "bit (w AND kFreeMask) k = bit (0 :: u32) k"
      using nb by (cases "k = 31") (simp_all add: bit_and_iff bit_kFreeMask)
  qed
qed

lemma tag_word:
  assumes "unat v < 2 ^ 31"
  shows "((t AND kFreeMask) OR v) AND NOT kFreeMask = v"
    "((t AND kFreeMask) OR v) AND kFreeMask = 0 \<longleftrightarrow> t AND kFreeMask = 0"
proof -
  have nb: "\<not> bit v 31"
    using assms by (rule not_bit_31)
  show "((t AND kFreeMask) OR v) AND NOT kFreeMask = v"
    by (rule bit_word_eqI) (use nb in \<open>auto simp: bit_simps bit_kFreeMask\<close>)
  show "((t AND kFreeMask) OR v) AND kFreeMask = 0 \<longleftrightarrow> t AND kFreeMask = 0"
    unfolding and_kFreeMask_0 using nb by (auto simp: bit_simps bit_kFreeMask)
qed

lemma set_tag_word:
  "(w OR kFreeMask) AND NOT kFreeMask = w AND NOT kFreeMask" "(w OR kFreeMask) AND kFreeMask \<noteq> 0"
  "(w AND NOT kFreeMask) AND NOT kFreeMask = w AND NOT kFreeMask"
  "(w AND NOT kFreeMask) AND kFreeMask = 0"
proof -
  show "(w OR kFreeMask) AND NOT kFreeMask = w AND NOT kFreeMask"
    by (rule bit_word_eqI) (auto simp: bit_simps bit_kFreeMask)
  show "(w OR kFreeMask) AND kFreeMask \<noteq> 0" "(w AND NOT kFreeMask) AND kFreeMask = 0"
    unfolding and_kFreeMask_0 by (simp_all add: bit_simps bit_kFreeMask)
  show "(w AND NOT kFreeMask) AND NOT kFreeMask = w AND NOT kFreeMask"
    by (simp add: and.assoc)
qed

section \<open>Tags under the block operations\<close>

text \<open>
  In each lemma the new memory is described on the cells that matter: which words change and how,
  and that the other words of the heap do not.
\<close>

lemma tags_absorb:
  assumes g: "geom B" and t: "tags m B" and x: "B x = Some (n0, f0)" and n: "0 < n"
    and b: "boundary B (x + n)"
    and new: "sz m' x = n" "pf m' x = pf m x" "ptr m' (x + n - 4) = n"
      "pf m' (x + n)" "sz m' (x + n) = sz m (x + n)"
    and same: "\<And>a. tag_cell B a \<Longrightarrow> a \<noteq> x \<Longrightarrow> a \<noteq> x + n - 4 \<Longrightarrow> a \<noteq> x + n \<Longrightarrow>
      rd32 m' a = rd32 m a"
  shows "tags m' (absorb B x n)"
proof -
  note gx = geomD [OF g x]
  have nn: "n0 \<le> n"
    using boundary_outside [OF g x b] n by linarith
  have size: "sz m' a = sz m a" if "tag_cell B a" "a \<noteq> x" "a \<noteq> x + n - 4" for a
    using that same new(5) by (cases "a = x + n") (auto simp: sz_def)
  have free: "pf m' a = pf m a" if "tag_cell B a" "a \<noteq> x + n" "a \<noteq> x + n - 4" for a
    using that same new(2) by (cases "a = x") (auto simp: pf_def)
  have foot: "ptr m' a = ptr m a" if "tag_cell B a" "a \<noteq> x" "a \<noteq> x + n" "a \<noteq> x + n - 4" for a
    using that same by (auto simp: ptr_def)
  have blk: "sz m' a = k \<and> pf m' (a + k) = f \<and> (f \<longrightarrow> ptr m' (a + k - 4) = k)"
    if B: "B a = Some (k, f)" and ne: "a \<noteq> x" "\<not> (x < a \<and> a < x + n)" for a k f
  proof -
    note ta = tagsD [OF t B] and ga = geomD [OF g B] and tc = tag_cells [OF g B]
    have o: "a + k \<le> x \<or> x + n \<le> a"
      by (rule absorb_other [OF g x n b B ne])
    have "a \<noteq> x + n - 4" "a + k \<noteq> x + n" "a + k \<noteq> x + n - 4"
      using o ga(3) gx(3) nn by linarith+
    moreover have "a + k - 4 \<noteq> x" "a + k - 4 \<noteq> x + n" "a + k - 4 \<noteq> x + n - 4"
      using o ga(3) gx(3) nn by linarith+
    ultimately show ?thesis
      using ta tc size [of a] free [of "a + k"] foot [of "a + k - 4"] ne(1) by auto
  qed
  have "sz m' heap_end = 0"
  proof -
    have "heap_end \<noteq> x" "heap_end \<noteq> x + n - 4"
      using boundary_mod(3) [OF g b] gx(3,5) nn by linarith+
    then show ?thesis
      using size [of heap_end] t by (simp add: tags_def tag_cell_def boundary_def)
  qed
  moreover have "\<not> pf m' heap_start"
  proof -
    have "heap_start \<noteq> x + n" "heap_start \<noteq> x + n - 4"
      using gx(1,3) nn by linarith+
    then show ?thesis
      using free [of heap_start] t by (simp add: tags_def tag_cell_def)
  qed
  ultimately show ?thesis
    using blk new unfolding tags_def absorb_Some_iff by blast
qed

lemma tags_flag:
  assumes g: "geom B" and t: "tags m B" and x: "B x = Some (n, f)"
    and new: "\<not> pf m' (x + n)" "sz m' (x + n) = sz m (x + n)"
    and same: "\<And>a. tag_cell B a \<Longrightarrow> a \<noteq> x + n \<Longrightarrow> rd32 m' a = rd32 m a"
  shows "tags m' (B(x \<mapsto> (n, False)))"
proof -
  note gx = geomD [OF g x]
  have size: "sz m' a = sz m a" if "tag_cell B a" for a
    using that same new(2) by (cases "a = x + n") (auto simp: sz_def)
  have free: "pf m' a = pf m a" if "tag_cell B a" "a \<noteq> x + n" for a
    using that same by (auto simp: pf_def)
  have foot: "ptr m' a = ptr m a" if "tag_cell B a" "a \<noteq> x + n" for a
    using that same by (auto simp: ptr_def)
  have blk: "sz m' a = k \<and> pf m' (a + k) = h \<and> (h \<longrightarrow> ptr m' (a + k - 4) = k)"
    if B: "B a = Some (k, h)" and ne: "a \<noteq> x" for a k h
  proof -
    note ta = tagsD [OF t B] and ga = geomD [OF g B] and tc = tag_cells [OF g B]
    have "a + k \<le> x \<or> x + n \<le> a"
      using ne geom_disjoint [OF g B x] geom_disjoint [OF g x B] by linarith
    then have "a + k \<noteq> x + n" "a + k - 4 \<noteq> x + n"
      using ga(3) gx(3) by linarith+
    then show ?thesis
      using ta tc size [of a] free [of "a + k"] foot [of "a + k - 4"] by auto
  qed
  have "sz m' x = n" "\<not> pf m' heap_start" "sz m' heap_end = 0"
    using size [of x] tag_cells [OF g x] tagsD(1) [OF t x] free [of heap_start] size [of heap_end] t gx(1,3)
    by (auto simp: tags_def tag_cell_def boundary_def)
  then show ?thesis
    using blk new unfolding tags_def by (auto split: if_splits)
qed

lemma tags_carve:
  assumes g: "geom B" and t: "tags m B" and x: "B x = Some (n, f0)"
    and k: "32 \<le> k" "k + 32 \<le> n"
    and new: "sz m' x = n - k" "pf m' x = pf m x" "ptr m' (x + (n - k) - 4) = n - k"
      "sz m' (x + (n - k)) = k" "pf m' (x + (n - k))"
      "\<not> pf m' (x + n)" "sz m' (x + n) = sz m (x + n)"
    and same: "\<And>a. tag_cell B a \<Longrightarrow> a \<noteq> x \<Longrightarrow> a \<noteq> x + (n - k) - 4 \<Longrightarrow>
      a \<noteq> x + (n - k) \<Longrightarrow> a \<noteq> x + n - 4 \<Longrightarrow> a \<noteq> x + n \<Longrightarrow> rd32 m' a = rd32 m a"
  shows "tags m' (carve B x n k)"
proof -
  note gx = geomD [OF g x]
  define y where "y = x + (n - k)"
  have y: "x + 32 \<le> y" "y + k = x + n"
    using k by (simp_all add: y_def)
  have size: "sz m' a = sz m a" if "tag_cell B a" "a \<le> x \<or> x + n \<le> a" "a \<noteq> x" for a
  proof (cases "a = x + n")
    case False
    have "a \<noteq> x + (n - k) - 4" "a \<noteq> x + (n - k)" "a \<noteq> x + n - 4"
      using that(2,3) y k unfolding y_def by linarith+
    with False show ?thesis
      using same [of a] that(1,3) by (simp add: sz_def)
  qed (use new(7) in simp)
  have free: "pf m' a = pf m a" if "tag_cell B a" "a \<le> x \<or> x + n \<le> a" "a \<noteq> x + n" for a
  proof (cases "a = x")
    case False
    have "a \<noteq> x + (n - k) - 4" "a \<noteq> x + (n - k)" "a \<noteq> x + n - 4"
      using that(2,3) False y k unfolding y_def by linarith+
    with False show ?thesis
      using same [of a] that(1,3) by (simp add: pf_def)
  qed (use new(2) in simp)
  have foot: "ptr m' a = ptr m a" if "tag_cell B a" "a < x \<or> x + n < a" for a
  proof -
    have "a \<noteq> x" "a \<noteq> x + n" "a \<noteq> x + (n - k) - 4" "a \<noteq> x + (n - k)" "a \<noteq> x + n - 4"
      using that(2) y k unfolding y_def by linarith+
    then show ?thesis
      using same [of a] that(1) by (simp add: ptr_def)
  qed
  have blk: "sz m' a = j \<and> pf m' (a + j) = h \<and> (h \<longrightarrow> ptr m' (a + j - 4) = j)"
    if B: "B a = Some (j, h)" and ne: "a \<noteq> x" for a j h
  proof -
    note ta = tagsD [OF t B] and ga = geomD [OF g B] and tc = tag_cells [OF g B]
    have o: "a + j \<le> x \<or> x + n \<le> a"
      using ne geom_disjoint [OF g B x] geom_disjoint [OF g x B] by linarith
    have "a \<le> x \<or> x + n \<le> a" "a + j \<le> x \<or> x + n \<le> a + j" "a + j \<noteq> x + n"
      "a + j - 4 < x \<or> x + n < a + j - 4"
      using o ga(3) gx(3) by linarith+
    then show ?thesis
      using ta tc size [of a] free [of "a + j"] foot [of "a + j - 4"] ne by auto
  qed
  have ends: "\<not> pf m' heap_start" "sz m' heap_end = 0"
    using free [of heap_start] size [of heap_end] t gx(1,3,5)
    by (auto simp: tags_def tag_cell_def boundary_def)
  have S: "carve B x n k a = Some (j, f) \<longleftrightarrow> a = x \<and> j = n - k \<and> f \<or> a = y \<and> j = k \<and> \<not> f
      \<or> a \<noteq> x \<and> a \<noteq> y \<and> B a = Some (j, f)" for a j f
    unfolding y_def using k by (intro carve_Some_iff) simp_all
  show ?thesis
    unfolding tags_def S
  proof (intro conjI allI impI)
    fix a j f
    assume "a = x \<and> j = n - k \<and> f \<or> a = y \<and> j = k \<and> \<not> f \<or> a \<noteq> x \<and> a \<noteq> y \<and> B a = Some (j, f)"
    then consider "a = x" "j = n - k" f | "a = y" "j = k" "\<not> f" | "a \<noteq> x" "B a = Some (j, f)"
      by blast
    then have "sz m' a = j \<and> pf m' (a + j) = f \<and> (f \<longrightarrow> ptr m' (a + j - 4) = j)"
    proof cases
      case 1
      then show ?thesis
        using new(1,3,5) by simp
    next
      case 2
      then show ?thesis
        using new(4,6) y by (simp add: y_def)
    next
      case 3
      then show ?thesis
        using blk by blast
    qed
    then show "sz m' a = j" "pf m' (a + j) = f" "f \<Longrightarrow> ptr m' (a + j - 4) = j"
      by blast+
  qed (use ends in simp_all)
qed

end
