(* ===== verification/Allocator_Inv.thy ===== *)
theory Allocator_Inv
  imports Heap_Blocks
begin

text \<open>
  The heap invariant of the allocator and its preservation by the internal operations. A
  state satisfies \<open>heap_inv s B D\<close> when the blocks \<open>B\<close> tile the heap, the boundary tags
  record them, and the free blocks outside \<open>D\<close> are correctly linked; \<open>D\<close> holds the free
  blocks that an operation has taken out of the lists and not yet disposed of. \<open>kept\<close> says
  that the payloads of the allocated blocks, and everything after the heap, are unchanged.
\<close>

section \<open>Classes and listed blocks\<close>

definition cls :: "nat \<Rightarrow> nat" where
  "cls n = (if n \<le> 1152 then n div 16 - 1 else 72)"

definition listed :: "blocks \<Rightarrow> nat set \<Rightarrow> listing" where
  "listed B D c x \<longleftrightarrow> (\<exists>n. B x = Some (n, True) \<and> x \<notin> D \<and> cls n = c)"

definition heap_inv :: "Allocator \<Rightarrow> blocks \<Rightarrow> nat set \<Rightarrow> bool" where
  "heap_inv s B D \<longleftrightarrow> geom B \<and> tags (nvm_data s) B \<and> links (nvm_data s) (listed B D)"

lemma heap_invD:
  assumes "heap_inv s B D"
  shows "geom B" "tags (nvm_data s) B" "links (nvm_data s) (listed B D)"
  using assms by (simp_all add: heap_inv_def)

lemma cls_less: "cls n < num_lists"
  by (auto simp: cls_def num_lists_def)

lemma cls_pos: "32 \<le> n \<Longrightarrow> 0 < cls n"
  by (auto simp: cls_def)

lemma wf_listed: "geom B \<Longrightarrow> wf_listing (listed B D)"
  using geomD(1,2) by (fastforce simp: wf_listing_def listed_def cls_less)

lemma listedD: "listed B D c x \<Longrightarrow> \<exists>n. B x = Some (n, True) \<and> cls n = c"
  by (auto simp: listed_def)

lemma listed_insert: "(\<lambda>d y. listed B D d y \<and> y \<noteq> x) = listed B (insert x D)"
  by (intro ext) (auto simp: listed_def)

section \<open>Reads and writes inside the heap\<close>

definition put :: "Allocator \<Rightarrow> nat \<Rightarrow> u32 \<Rightarrow> Allocator" where
  "put s a v = (log_write s (of_nat a) (le_bytes 4 v))\<lparr>cnt_writes := cnt_writes s + 1\<rparr>"

definition heap_off :: "nat \<Rightarrow> bool" where
  "heap_off a \<longleftrightarrow> 0 < a \<and> a \<le> heap_end"

lemma Read32_off:
  "heap_off (unat off) \<Longrightarrow> Read32 s off = Some (rd32 (nvm_data s) (unat off))"
  by (auto simp: Read32_def Read_def ensure_def in_tablet_def heap_off_def heap_end_def
      kNVMTabletSize_def rd32_def)

lemma Write32_off: "heap_off (unat off) \<Longrightarrow> Write32 s off v = Some (put s (unat off) v)"
  by (auto simp: Write_def ensure_def in_tablet_def heap_off_def heap_end_def
      kNVMTabletSize_def put_def)

lemma nvm_data_put: "heap_off a \<Longrightarrow> nvm_data (put s a v) = wr32 (nvm_data s) a v"
  by (simp add: put_def log_write_def wr32_def heap_off_def heap_end_def unat_of_nat_u32)

lemma rd32_put:
  "heap_off a \<Longrightarrow> a mod 4 = 0 \<Longrightarrow> b mod 4 = 0 \<Longrightarrow>
   rd32 (nvm_data (put s a v)) b = (if a = b then v else rd32 (nvm_data s) b)"
  by (simp add: nvm_data_put rd32_wr32)

lemma ptr_put:
  "heap_off a \<Longrightarrow> a mod 4 = 0 \<Longrightarrow> b mod 4 = 0 \<Longrightarrow>
   ptr (nvm_data (put s a v)) b = (if a = b then unat v else ptr (nvm_data s) b)"
  by (simp add: nvm_data_put ptr_wr32)

lemma unat_off:
  "unat x + k \<le> heap_end \<Longrightarrow> k < 2 ^ 32 \<Longrightarrow> unat (x + of_nat k :: u32) = unat x + k"
  by (subst unat_add_u32) (simp_all add: unat_of_nat_u32 heap_end_def)

lemma unat_off4: "unat x + 4 \<le> heap_end \<Longrightarrow> unat (x + 4 :: u32) = unat x + 4"
  and unat_off8: "unat x + 8 \<le> heap_end \<Longrightarrow> unat (x + 8 :: u32) = unat x + 8"
  using unat_off [of x 4] unat_off [of x 8] by simp_all

text \<open>The cells of a block: header, the two pointers, the word after it.\<close>

lemma block_cells:
  assumes "geom B" "B x = Some (n, f)"
  shows "x mod 4 = 0" "(x + 4) mod 4 = 0" "(x + 8) mod 4 = 0" "(x + n) mod 4 = 0" "(x + n - 4) mod 4 = 0"
    "heap_off x" "heap_off (x + 4)" "heap_off (x + 8)" "heap_off (x + n)" "heap_off (x + n - 4)"
proof -
  note gx = geomD [OF assms]
  have *: "x mod 4 = x mod 16 mod 4" "n mod 4 = n mod 16 mod 4"
    by (simp_all add: mod_mod_cancel)
  with gx(2,4) show x4: "x mod 4 = 0" and "(x + 4) mod 4 = 0" "(x + 8) mod 4 = 0"
    by (simp_all add: mod_add_left_eq [symmetric])
  from * gx(4) have n4: "n mod 4 = 0"
    by simp
  with x4 show xn: "(x + n) mod 4 = 0"
    by (simp add: mod_add_left_eq [symmetric])
  show "heap_off x" "heap_off (x + 4)" "heap_off (x + 8)" "heap_off (x + n)" "heap_off (x + n - 4)"
    using gx by (auto simp: heap_off_def heap_start_def)
  have "x + n = (x + n - 4) + 4"
    using gx(3) by simp
  then have "(x + n) mod 4 = (x + n - 4) mod 4"
    by (metis mod_add_self2)
  with xn show "(x + n - 4) mod 4 = 0"
    by simp
qed

lemma head_cell: "0 < c \<Longrightarrow> c < num_lists \<Longrightarrow> heap_off (4 * c)"
  by (simp add: heap_off_def num_lists_def heap_end_def)

lemma GetFreeListByBlockSize_cls:
  assumes "16 \<le> unat n"
  shows "\<exists>fl. GetFreeListByBlockSize n = Some fl \<and> unat fl = 4 * cls (unat n)"
proof (cases "n \<le> kMaxBlockSize")
  case True
  then have le: "unat n \<le> 1152"
    by (simp add: word_le_nat_alt kMaxBlockSize_def)
  have "1 \<le> n div 16"
    using assms by (simp add: word_le_nat_alt unat_div div_greater_zero_iff Suc_leI)
  then have k: "unat (n div 16 - 1) = unat n div 16 - 1"
    by (simp add: unat_sub_u32 unat_div)
  have "(unat n div 16 - 1) * 4 < 2 ^ 32"
    using le by (auto intro: le_less_trans [of _ "1152 * 4"])
  then have "unat ((n div 16 - 1) * 4) = unat (n div 16 - 1) * 4"
    using k by (simp only: unat_word_ariths) simp
  then have "unat ((n div 16 - 1) * 4) = 4 * cls (unat n)"
    using le by (simp only: k cls_def) simp
  then show ?thesis
    using True assms
    by (simp add: GetFreeListByBlockSize_def ensure_def word_le_nat_alt)
next
  case False
  then have "\<not> unat n \<le> 1152"
    by (simp add: word_le_nat_alt kMaxBlockSize_def)
  then show ?thesis
    using False assms
    by (simp add: GetFreeListByBlockSize_def ensure_def word_le_nat_alt GetLastFreeList_def
        kNumFreeLists_def cls_def)
qed

section \<open>What an operation leaves alone\<close>

definition kept :: "blocks \<Rightarrow> mem \<Rightarrow> mem \<Rightarrow> bool" where
  "kept B m m' \<longleftrightarrow>
     (\<forall>i. (\<exists>a n. B a = Some (n, False) \<and> a + 4 \<le> i \<and> i < a + n) \<or> heap_end + 4 \<le> i \<longrightarrow> m' i = m i)"

lemma kept_refl [simp]: "kept B m m"
  by (simp add: kept_def)

lemma kept_trans: "kept B m m' \<Longrightarrow> kept B m' m'' \<Longrightarrow> kept B m m''"
  by (simp add: kept_def)

text \<open>The cells the allocator may write without touching a payload.\<close>

definition meta :: "blocks \<Rightarrow> nat \<Rightarrow> bool" where
  "meta B a \<longleftrightarrow> a + 4 \<le> heap_start \<or> boundary B a
     \<or> (\<exists>x n. B x = Some (n, True) \<and> x \<le> a \<and> a + 4 \<le> x + n)"

lemma kept_wr32:
  assumes "geom B" "meta B a"
  shows "kept B m (wr32 m a v)"
  unfolding kept_def
proof (intro allI impI)
  fix i
  assume i: "(\<exists>b n. B b = Some (n, False) \<and> b + 4 \<le> i \<and> i < b + n) \<or> heap_end + 4 \<le> i"
  have "i < a \<or> a + 4 \<le> i"
    using i
  proof (elim disjE exE conjE)
    fix b n
    assume b: "B b = Some (n, False)" and bi: "b + 4 \<le> i" "i < b + n"
    show ?thesis
      using assms(2) unfolding meta_def
    proof (elim disjE exE conjE)
      assume "boundary B a"
      with boundary_outside [OF assms(1) b] bi show ?thesis
        by fastforce
    next
      fix x k
      assume x: "B x = Some (k, True)" "x \<le> a" "a + 4 \<le> x + k"
      then have "b \<noteq> x"
        using b by auto
      with geom_disjoint [OF assms(1) b x(1)] geom_disjoint [OF assms(1) x(1) b] bi x show ?thesis
        by linarith
    qed (use geomD(1) [OF assms(1) b] bi in linarith)
  next
    assume "heap_end + 4 \<le> i"
    then show ?thesis
      using assms(2) geomD(5) [OF assms(1)] boundary_mod(3) [OF assms(1)]
      unfolding meta_def heap_start_def heap_end_def by fastforce
  qed
  then show "wr32 m a v i = m i"
    by (simp add: wr32_outside)
qed

lemma kept_put: "geom B \<Longrightarrow> meta B a \<Longrightarrow> heap_off a \<Longrightarrow> kept B (nvm_data s) (nvm_data (put s a v))"
  by (simp add: nvm_data_put kept_wr32)

lemma meta_inside: "B x = Some (n, True) \<Longrightarrow> x \<le> a \<Longrightarrow> a + 4 \<le> x + n \<Longrightarrow> meta B a"
  by (auto simp: meta_def)

lemma meta_cells:
  assumes "geom B" "B x = Some (n, True)"
  shows "meta B (x + 4)" "meta B (x + 8)" "meta B (x + n - 4)"
  using geomD(3) [OF assms] meta_inside [of B, OF assms(2)] by simp_all

lemma meta_boundary: "boundary B a \<Longrightarrow> meta B a"
  by (simp add: meta_def)

lemma meta_head: "c < num_lists \<Longrightarrow> meta B (4 * c)"
  by (simp add: meta_def num_lists_def heap_start_def)

section \<open>Writes to the lists keep the tags\<close>

definition link_cell :: "blocks \<Rightarrow> nat \<Rightarrow> bool" where
  "link_cell B a \<longleftrightarrow> (\<exists>c. 0 < c \<and> c < num_lists \<and> a = 4 * c)
     \<or> (\<exists>x n. B x = Some (n, True) \<and> (a = x + 4 \<or> a = x + 8))"

lemma link_cells:
  "B x = Some (n, True) \<Longrightarrow> link_cell B (x + 4)" "B x = Some (n, True) \<Longrightarrow> link_cell B (x + 8)"
  "0 < c \<Longrightarrow> c < num_lists \<Longrightarrow> link_cell B (4 * c)"
  by (auto simp: link_cell_def)

lemma link_cellD:
  assumes "geom B" "link_cell B a"
  shows "heap_off a" "a mod 4 = 0" "meta B a"
  using assms(2) block_cells(2,3,7,8) [OF assms(1)] meta_cells(1,2) [OF assms(1)] head_cell
    meta_head
  unfolding link_cell_def by (elim disjE exE conjE; simp)+

lemma tags_put_link:
  assumes "geom B" "tags (nvm_data s) B" "link_cell B a"
  shows "tags (nvm_data (put s a v)) B"
proof (rule tags_cong [OF assms(2,1)])
  fix b
  assume b: "tag_cell B b"
  have "b \<noteq> a"
    using assms(3) unfolding link_cell_def
  proof (elim disjE exE conjE)
    fix c
    assume "c < num_lists" "a = 4 * c"
    then show ?thesis
      using tag_cell_mod4(2) [OF assms(1) b] by (simp add: heap_start_def num_lists_def)
  qed (use link_cell_not_tag(1,2) [OF assms(1) _ b] in blast)+
  then show "rd32 (nvm_data (put s a v)) b = rd32 (nvm_data s) b"
    using link_cellD [OF assms(1,3)] tag_cell_mod4(1) [OF assms(1) b] by (simp add: rd32_put)
qed

lemma ReadTheFreeTag_block:
  assumes "geom B" "tags (nvm_data s) B" "B (unat x) = Some (unat n, f)"
  shows "\<exists>t. ReadTheFreeTag s x n = Some t \<and> (t \<noteq> 0 \<longleftrightarrow> f)"
proof -
  have "unat (x + n) = unat x + unat n"
    using geomD(5) [OF assms(1,3)] by (intro unat_add_u32) (simp add: heap_end_def)
  then show ?thesis
    using tagsD(2) [OF assms(2,3)] block_cells(9) [OF assms(1,3)]
    by (simp add: ReadTheFreeTag_def Read32_off pf_def)
qed

section \<open>RemoveBlock\<close>

lemma RemoveBlock_correct:
  assumes inv: "heap_inv s B D" and x: "B (unat x) = Some (unat n, True)" "unat x \<notin> D"
  shows "\<exists>s'. RemoveBlock s x n = Some s' \<and> heap_inv s' B (insert (unat x) D)
           \<and> kept B (nvm_data s) (nvm_data s')"
proof -
  note g = heap_invD(1) [OF inv] and t = heap_invD(2) [OF inv] and l = heap_invD(3) [OF inv]
  let ?m = "nvm_data s" and ?X = "unat x" and ?c = "cls (unat n)"
  note wf = wf_listed [OF g, of D] and xc = block_cells [OF g x(1)] and gx = geomD [OF g x(1)]
  define p where "p = rd32 ?m (?X + 4)"
  define q where "q = rd32 ?m (?X + 8)"
  have pq: "unat p = ptr ?m (?X + 4)" "unat q = ptr ?m (?X + 8)"
    by (simp_all add: p_def q_def ptr_def)
  have Lx: "listed B D ?c ?X"
    using x by (auto simp: listed_def)
  have u48: "unat (x + 4) = ?X + 4" "unat (x + 8) = ?X + 8"
    using gx(3,5) by (simp_all add: unat_off4 unat_off8)
  have Lp: "listed B D ?c (unat p)" if "p \<noteq> 0"
    using links_prev [OF l Lx] that by (simp add: pq [symmetric] unat_eq_zero)
  have Lq: "listed B D ?c (unat q)" if "q \<noteq> 0"
    using links_next [OF l Lx] that by (simp add: pq [symmetric] unat_eq_zero)
  have P: "\<exists>k. B (unat p) = Some (k, True)" if "p \<noteq> 0"
    using listedD [OF Lp [OF that]] by blast
  have Q: "\<exists>k. B (unat q) = Some (k, True)" if "q \<noteq> 0"
    using listedD [OF Lq [OF that]] by blast
  obtain fl where fl: "GetFreeListByBlockSize n = Some fl" "unat fl = 4 * ?c"
    using GetFreeListByBlockSize_cls [of n] gx(3) by auto
  define a where "a = (if p \<noteq> 0 then unat p + 8 else 4 * ?c)"
  have lc: "link_cell B a"
    using P link_cells cls_pos [OF gx(3)] cls_less unfolding a_def by auto
  note a = link_cellD [OF g lc]
  have xa: "?X + 4 \<noteq> a"
    using cell_distinct(1) [OF wf Lx Lp] cell_distinct(2) [OF wf Lx Lx cls_less, of "unat n"]
    by (auto simp: a_def)
  define s1 where "s1 = put s a q"
  have w1: "(if p \<noteq> 0 then do { nx \<leftarrow> Read32 s (x + 8); Write32 s (p + 8) nx }
      else do { free_list \<leftarrow> GetFreeListByBlockSize n; nx \<leftarrow> Read32 s (x + 8); Write32 s free_list nx }) = Some s1"
  proof (cases "p \<noteq> 0")
    case True
    then have "unat (p + 8) = unat p + 8"
      using P [OF True] block_cells(8) [OF g] by (fastforce simp: heap_off_def intro: unat_off8)
    with True a(1) xc(8) show ?thesis
      by (simp add: Read32_off Write32_off u48 s1_def a_def q_def)
  next
    case False
    with a(1) xc(8) fl show ?thesis
      by (simp add: Read32_off Write32_off u48 s1_def a_def q_def)
  qed
  have r1: "rd32 (nvm_data s1) (?X + 4) = p"
    using a xa xc by (simp add: s1_def rd32_put p_def)
  define s2 where "s2 = (if q \<noteq> 0 then put s1 (unat q + 4) p else s1)"
  have w2: "(if q \<noteq> 0 then do { pv \<leftarrow> Read32 s1 (x + 4); Write32 s1 (q + 4) pv } else Some s1) = Some s2"
  proof (cases "q \<noteq> 0")
    case True
    obtain k where k: "B (unat q) = Some (k, True)"
      using Q [OF True] by blast
    have "unat (q + 4) = unat q + 4"
      using geomD(3,5) [OF g k] by (intro unat_off4) simp
    with True k xc(7) r1 block_cells(7) [OF g k] show ?thesis
      by (simp add: Read32_off Write32_off u48 s2_def)
  qed (simp add: s2_def)
  have lq: "link_cell B (unat q + 4)" if "q \<noteq> 0"
    using Q [OF that] link_cells(1) by blast
  note qc = link_cellD [OF g lq]
  have exec: "RemoveBlock s x n = Some s2"
  proof -
    obtain tg where "ReadTheFreeTag s x n = Some tg" "tg \<noteq> 0"
      using ReadTheFreeTag_block [OF g t x(1)] by auto
    then show ?thesis
      using w1 w2 xc(7,8) unfolding RemoveBlock_def
      by (simp add: ensure_def Read32_off u48 flip: p_def q_def)
  qed
  have cells: "ptr (nvm_data s2) b = unlinked ?m ?c ?X b" if "b mod 4 = 0" for b
    using that a qc
    by (auto simp: s2_def s1_def ptr_put unlinked_def Let_def a_def pq [symmetric] unat_eq_zero)
  have "links (nvm_data s2) (listed B (insert ?X D))"
    using links_unlink [OF l wf Lx cells] by (simp only: listed_insert)
  moreover have "tags (nvm_data s2) B"
    using tags_put_link [OF g t lc] tags_put_link [OF g _ lq] unfolding s2_def s1_def by auto
  moreover have "kept B ?m (nvm_data s2)"
  proof (cases "q = 0")
    case True
    then show ?thesis
      by (simp add: s2_def s1_def kept_put [OF g a(3,1)])
  next
    case False
    with kept_trans [OF kept_put [OF g a(3,1)] kept_put [OF g qc(3,1) [OF False]]] show ?thesis
      by (simp add: s2_def s1_def)
  qed
  ultimately show ?thesis
    using exec g by (auto simp: heap_inv_def)
qed

end
