(* ===== verification/Allocator_Alloc.thy ===== *)
theory Allocator_Alloc
  imports Allocator_Inv
begin

text \<open>
  Allocation: \<^verbatim>\<open>SplitBlock\<close>, \<^verbatim>\<open>AllocBlock\<close> and \<^verbatim>\<open>Alloc\<close> keep the heap
  invariant and return a block that was free. The lemmas follow the phases of the code:
  taking the head of a class out of its list, putting a block in front of a class, and the
  writes of headers and footers, which touch neither list.
\<close>

section \<open>Phases shared by the operations\<close>

lemma kept_step:
  "kept B m (nvm_data s) \<Longrightarrow> geom B \<Longrightarrow> meta B a \<Longrightarrow> heap_off a \<Longrightarrow> kept B m (nvm_data (put s a v))"
  by (rule kept_trans [OF _ kept_put])

text \<open>A write to a cell that is no list cell.\<close>

lemma links_put_other:
  assumes "links (nvm_data s) (listed B D)" "geom B" "heap_off a" "a mod 4 = 0" "heap_start \<le> a"
    and "\<And>c x. listed B D c x \<Longrightarrow> a \<noteq> x + 4 \<and> a \<noteq> x + 8"
  shows "links (nvm_data (put s a v)) (listed B D)"
proof (rule links_frame [OF assms(1) wf_listed [OF assms(2)]])
  fix c
  assume "c < num_lists"
  then have "a \<noteq> 4 * c"
    using assms(5) by (simp add: heap_start_def num_lists_def)
  then show "ptr (nvm_data (put s a v)) (4 * c) = ptr (nvm_data s) (4 * c)"
    using assms(3,4) by (simp add: ptr_put)
next
  fix c x
  assume x: "listed B D c x"
  then obtain n where n: "B x = Some (n, True)"
    using listedD by blast
  show "ptr (nvm_data (put s a v)) (x + 4) = ptr (nvm_data s) (x + 4)"
    "ptr (nvm_data (put s a v)) (x + 8) = ptr (nvm_data s) (x + 8)"
    using assms(3,4) assms(6) [OF x] block_cells(2,3) [OF assms(2) n] by (simp_all add: ptr_put)
qed

lemma tag_cell_off:
  assumes "geom B" "tag_cell B a"
  shows "heap_off a" "a mod 4 = 0" "heap_start \<le> a" "listed B D c x \<Longrightarrow> a \<noteq> x + 4 \<and> a \<noteq> x + 8"
proof -
  show m: "a mod 4 = 0" "heap_start \<le> a"
    using tag_cell_mod4 [OF assms] by simp_all
  have "a \<le> heap_end"
    using assms(2) boundary_mod(3) [OF assms(1)] geomD(5) [OF assms(1)]
    by (fastforce simp: tag_cell_def heap_start_def heap_end_def)
  then show "heap_off a"
    using m by (simp add: heap_off_def heap_start_def)
  show "listed B D c x \<Longrightarrow> a \<noteq> x + 4 \<and> a \<noteq> x + 8"
    using listedD link_cell_not_tag(1,2) [OF assms(1) _ assms(2)] by blast
qed

lemma links_put_tag:
  assumes "links (nvm_data s) (listed B D)" "geom B" "tag_cell B a"
  shows "links (nvm_data (put s a v)) (listed B D)"
  using tag_cell_off [OF assms(2,3)] by (intro links_put_other [OF assms(1,2)]) blast+

text \<open>Taking the head of a class out of its list.\<close>

definition unlink_head :: "Allocator \<Rightarrow> nat \<Rightarrow> u32 \<Rightarrow> Allocator" where
  "unlink_head s c q =
     (let s1 = put s (4 * c) q in if q \<noteq> 0 then put s1 (unat q + 4) 0 else s1)"

lemma unlink_head_correct:
  assumes g: "geom B" and l: "links (nvm_data s) (listed B D)" and c: "0 < c" "c < num_lists"
    and X: "ptr (nvm_data s) (4 * c) = X" "X \<noteq> 0" and q: "q = rd32 (nvm_data s) (X + 8)"
  shows "links (nvm_data (unlink_head s c q)) (listed B (insert X D))"
    "q \<noteq> 0 \<Longrightarrow> link_cell B (unat q + 4)" "q \<noteq> 0 \<Longrightarrow> \<exists>n. B (unat q) = Some (n, True) \<and> unat q \<noteq> X"
proof -
  have LX: "listed B D c X" and p: "ptr (nvm_data s) (X + 4) = 0"
    using links_head [OF l c(2)] X by auto
  have qq: "unat q = ptr (nvm_data s) (X + 8)"
    by (simp add: q ptr_def)
  show Q: "\<exists>n. B (unat q) = Some (n, True) \<and> unat q \<noteq> X" if "q \<noteq> 0"
    using links_next [OF l LX] listedD [of B D c "unat q"] that p X(2)
    by (auto simp: qq [symmetric] unat_eq_zero)
  show lq: "link_cell B (unat q + 4)" if "q \<noteq> 0"
    using Q [OF that] link_cells(1) by blast
  have "ptr (nvm_data (unlink_head s c q)) b = unlinked (nvm_data s) c X b" if "b mod 4 = 0" for b
    using that link_cellD [OF g lq] link_cellD [OF g link_cells(3) [OF c]] p
    by (auto simp: unlink_head_def unlinked_def Let_def ptr_put qq [symmetric] unat_eq_zero)
  then show "links (nvm_data (unlink_head s c q)) (listed B (insert X D))"
    using links_unlink [OF l wf_listed [OF g] LX] by (simp only: listed_insert)
qed

lemma tags_unlink_head:
  assumes "geom B" "tags (nvm_data s) B" "0 < c" "c < num_lists" "q \<noteq> 0 \<Longrightarrow> link_cell B (unat q + 4)"
  shows "tags (nvm_data (unlink_head s c q)) B"
  using tags_put_link [OF assms(1,2) link_cells(3) [OF assms(3,4)]] tags_put_link [OF assms(1) _ assms(5)]
  by (auto simp: unlink_head_def Let_def)

lemma kept_unlink_head:
  assumes "geom B" "0 < c" "c < num_lists" "q \<noteq> 0 \<Longrightarrow> link_cell B (unat q + 4)"
  shows "kept B (nvm_data s) (nvm_data (unlink_head s c q))"
  using link_cellD [OF assms(1,4)] link_cellD [OF assms(1) link_cells(3) [OF assms(2,3)]] assms(1)
  by (auto simp: unlink_head_def Let_def intro!: kept_step)

text \<open>Putting a block in front of a class; the code writes the four cells in two orders.\<close>

definition push_head :: "Allocator \<Rightarrow> nat \<Rightarrow> u32 \<Rightarrow> u32 \<Rightarrow> Allocator" where
  "push_head s c x h =
     (let s1 = put (put (put s (unat x + 4) 0) (unat x + 8) h) (4 * c) x
      in if h \<noteq> 0 then put s1 (unat h + 4) x else s1)"

lemma push_head_correct:
  assumes g: "geom B" and l: "links (nvm_data s) (listed B (insert X D))" and X: "X = unat x" "X \<notin> D"
    and b: "B X = Some (n, True)" and h: "h = rd32 (nvm_data s) (4 * cls n)"
  shows "links (nvm_data (push_head s (cls n) x h)) (listed B D)" "h \<noteq> 0 \<Longrightarrow> link_cell B (unat h + 4)"
    "h \<noteq> 0 \<Longrightarrow> listed B (insert X D) (cls n) (unat h)"
proof -
  note gx = geomD [OF g b]
  have hh: "unat h = ptr (nvm_data s) (4 * cls n)"
    by (simp add: h ptr_def)
  show H: "listed B (insert X D) (cls n) (unat h)" if "h \<noteq> 0"
    using links_head [OF l cls_less, of n] that by (simp add: hh [symmetric] unat_eq_zero)
  show lh: "link_cell B (unat h + 4)" if "h \<noteq> 0"
    using listedD [OF H [OF that]] link_cells(1) by blast
  have hX: "unat h \<noteq> X" if "h \<noteq> 0"
    using H [OF that] by (auto simp: listed_def)
  have c: "0 < cls n" "cls n < num_lists"
    using cls_pos [OF gx(3)] cls_less by auto
  have ne: "unat h + 4 \<noteq> 4 * cls n" "unat h + 4 \<noteq> X + 8" if "h \<noteq> 0"
  proof -
    have wf: "wf_listing (listed B D)" and L: "listed B D (cls n) (unat h)" "listed B D (cls n) X"
      using wf_listed [OF g] H [OF that] b X(2) by (auto simp: listed_def)
    show "unat h + 4 \<noteq> 4 * cls n" "unat h + 4 \<noteq> X + 8"
      using cell_distinct(1) [OF wf L] cell_distinct(2) [OF wf L c(2)] by auto
  qed
  have nx: "4 * cls n \<noteq> X + 4" "4 * cls n \<noteq> X + 8"
    using gx(1) c by (auto simp: heap_start_def num_lists_def)
  have "ptr (nvm_data (push_head s (cls n) x h)) a = pushed (nvm_data s) (cls n) X a"
    if a: "a mod 4 = 0" for a
    using a link_cellD [OF g lh] link_cellD [OF g link_cells(3) [OF c]]
      link_cellD [OF g link_cells(1) [of B, OF b]] link_cellD [OF g link_cells(2) [of B, OF b]] ne nx hX
    by (auto simp: push_head_def pushed_def Let_def ptr_put X(1) hh [symmetric] unat_eq_zero)
  then have "links (nvm_data (push_head s (cls n) x h))
      (\<lambda>d y. listed B (insert X D) d y \<or> d = cls n \<and> y = X)"
    using gx(1,2) c by (intro links_push [OF l wf_listed [OF g]]) (auto simp: listed_def)
  moreover have "(\<lambda>d y. listed B (insert X D) d y \<or> d = cls n \<and> y = X) = listed B D"
    using b X(2) by (intro ext) (auto simp: listed_def)
  ultimately show "links (nvm_data (push_head s (cls n) x h)) (listed B D)"
    by simp
qed


section \<open>SplitBlock\<close>

text \<open>
  The states of \<^verbatim>\<open>SplitBlock\<close>: the block leaves its list, its header and footer get the
  smaller size, it enters the list of that size, and the tail becomes an allocated block.
\<close>

definition shrunk :: "Allocator \<Rightarrow> u32 \<Rightarrow> u32 \<Rightarrow> u32 \<Rightarrow> Allocator" where
  "shrunk s x n k =
     (let s2 = unlink_head s (cls (unat n)) (rd32 (nvm_data s) (unat x + 8));
          s3 = put s2 (unat x) ((rd32 (nvm_data s2) (unat x) AND kFreeMask) OR (n - k))
      in put s3 (unat x + unat (n - k) - 4) (n - k))"

definition tail_block :: "Allocator \<Rightarrow> nat \<Rightarrow> nat \<Rightarrow> u32 \<Rightarrow> Allocator" where
  "tail_block s y e k =
     (let s2 = put (put s y (kFreeMask OR k)) (e - 4) k
      in put s2 e (rd32 (nvm_data s2) e AND NOT kFreeMask))"

definition split_state :: "Allocator \<Rightarrow> u32 \<Rightarrow> u32 \<Rightarrow> u32 \<Rightarrow> Allocator" where
  "split_state s x n k =
     (let s4 = shrunk s x n k; c = cls (unat (n - k));
          s8 = push_head s4 c x (rd32 (nvm_data s4) (4 * c))
      in tail_block s8 (unat x + unat (n - k)) (unat x + unat n) k)"

text \<open>When a split is possible: the block is the head of its class and both parts are blocks.\<close>

definition splittable :: "Allocator \<Rightarrow> blocks \<Rightarrow> u32 \<Rightarrow> u32 \<Rightarrow> u32 \<Rightarrow> bool" where
  "splittable s B x n k \<longleftrightarrow> heap_inv s B {} \<and> B (unat x) = Some (unat n, True)
     \<and> ptr (nvm_data s) (4 * cls (unat n)) = unat x
     \<and> 32 \<le> unat k \<and> unat k + 32 \<le> unat n \<and> unat k mod 16 = 0"

lemma splittableD:
  assumes "splittable s B x n k"
  shows "geom B" "tags (nvm_data s) B" "links (nvm_data s) (listed B {})"
    "B (unat x) = Some (unat n, True)" "ptr (nvm_data s) (4 * cls (unat n)) = unat x"
    "32 \<le> unat k" "unat k + 32 \<le> unat n" "unat k mod 16 = 0" "unat (n - k) = unat n - unat k"
    "geom (carve B (unat x) (unat n) (unat k))"
proof -
  show a: "geom B" "tags (nvm_data s) B" "links (nvm_data s) (listed B {})"
    "B (unat x) = Some (unat n, True)" "ptr (nvm_data s) (4 * cls (unat n)) = unat x"
    "32 \<le> unat k" "unat k + 32 \<le> unat n" "unat k mod 16 = 0"
    using assms by (simp_all add: splittable_def heap_inv_def)
  show "unat (n - k) = unat n - unat k"
    using a(7) by (intro unat_sub_u32) (simp add: word_le_nat_alt)
  show "geom (carve B (unat x) (unat n) (unat k))"
    by (rule geom_carve [OF a(1,4,6,7,8)])
qed

lemma unlinked_in_split:
  assumes sp: "splittable s B x n k" and s2: "s2 = unlink_head s (cls (unat n)) (rd32 (nvm_data s) (unat x + 8))"
  shows "tags (nvm_data s2) B" "links (nvm_data s2) (listed B {unat x})" "kept B (nvm_data s) (nvm_data s2)"
proof -
  note d = splittableD [OF sp]
  note gx = geomD [OF d(1,4)]
  have c: "0 < cls (unat n)" "cls (unat n) < num_lists" "unat x \<noteq> 0"
    using cls_pos [OF gx(3)] cls_less gx(1) by (auto simp: heap_start_def)
  note u = unlink_head_correct [OF d(1,3) c(1,2) d(5) c(3) refl]
  show "tags (nvm_data s2) B" "kept B (nvm_data s) (nvm_data s2)"
    unfolding s2 using tags_unlink_head [OF d(1,2) c(1,2) u(2)] kept_unlink_head [OF d(1) c(1,2) u(2)]
    by blast+
  show "links (nvm_data s2) (listed B {unat x})"
    unfolding s2 using u(1) by simp
qed

lemma carve_fresh:
  assumes "splittable s B x n k"
  shows "B (unat x + (unat n - unat k)) = None"
proof (rule ccontr)
  note d = splittableD [OF assms]
  assume "B (unat x + (unat n - unat k)) \<noteq> None"
  then obtain m f where "B (unat x + (unat n - unat k)) = Some (m, f)"
    by auto
  from geom_disjoint [OF d(1,4) this] d(6,7) show False
    by linarith
qed

lemma listed_carve:
  assumes "splittable s B x n k"
  shows "listed (carve B (unat x) (unat n) (unat k)) {unat x} = listed B {unat x}"
proof -
  note d = splittableD [OF assms]
  from carve_fresh [OF assms] show ?thesis
    using carve_Some_iff [of "unat k" "unat n" B "unat x"] d(6,7)
    by (intro ext) (auto simp: listed_def)
qed

lemma shrunk_links:
  assumes sp: "splittable s B x n k"
  shows "links (nvm_data (shrunk s x n k)) (listed (carve B (unat x) (unat n) (unat k)) {unat x})"
proof -
  note d = splittableD [OF sp]
  let ?B = "carve B (unat x) (unat n) (unat k)"
  have bx: "?B (unat x) = Some (unat (n - k), True)"
    using d(6,7,9) by (simp add: carve_Some_iff)
  note tc = tag_cells [OF d(10) bx]
  from unlinked_in_split(2) [OF sp refl] have
    "links (nvm_data (unlink_head s (cls (unat n)) (rd32 (nvm_data s) (unat x + 8)))) (listed ?B {unat x})"
    by (simp only: listed_carve [OF sp])
  then show ?thesis
    unfolding shrunk_def Let_def using tc by (intro links_put_tag [OF _ d(10)]) simp_all
qed

lemma links_tail_block:
  assumes l: "links (nvm_data s) (listed B D)" and g: "geom B" and y: "B y = Some (j, False)"
  shows "links (nvm_data (tail_block s y (y + j) k)) (listed B D)"
proof -
  note tc = tag_cells [OF g y] and yc = block_cells [OF g y] and gy = geomD [OF g y]
  have foot: "y + j - 4 \<noteq> z + 4 \<and> y + j - 4 \<noteq> z + 8" if Lz: "listed B D c z" for c z
  proof -
    obtain m where z: "B z = Some (m, True)"
      using listedD [OF Lz] by blast
    then have "z \<noteq> y"
      using y by auto
    then show ?thesis
      using geom_disjoint [OF g z y] geom_disjoint [OF g y z] geomD(3) [OF g z] gy(3) by linarith
  qed
  have s: "heap_start \<le> y + j - 4"
    using gy(1,3) by linarith
  show ?thesis
    unfolding tail_block_def Let_def
    by (rule links_put_tag [OF links_put_other [OF links_put_tag [OF l g tc(1)] g yc(10,5) s foot] g tc(2)])
qed

lemma kept_tail_block:
  assumes "kept B m (nvm_data s)" "geom B" "meta B y" "meta B (e - 4)" "meta B e"
    and "heap_off y" "heap_off (e - 4)" "heap_off e"
  shows "kept B m (nvm_data (tail_block s y e k))"
  unfolding tail_block_def Let_def
  by (rule kept_step [OF kept_step [OF kept_step [OF assms(1,2,3,6)] assms(2,4,7)] assms(2,5,8)])

lemma split_links:
  assumes sp: "splittable s B x n k"
  shows "links (nvm_data (split_state s x n k)) (listed (carve B (unat x) (unat n) (unat k)) {})"
proof -
  note d = splittableD [OF sp]
  let ?B = "carve B (unat x) (unat n) (unat k)"
  have bx: "?B (unat x) = Some (unat (n - k), True)"
    and by': "?B (unat x + unat (n - k)) = Some (unat k, False)"
    using d(6,7,9) by (simp_all add: carve_Some_iff)
  have e: "unat x + unat (n - k) + unat k = unat x + unat n"
    using d(7,9) by simp
  have "links (nvm_data (push_head (shrunk s x n k) (cls (unat (n - k))) x
      (rd32 (nvm_data (shrunk s x n k)) (4 * cls (unat (n - k)))))) (listed ?B {})"
    by (rule push_head_correct(1) [OF d(10) shrunk_links [OF sp] refl _ bx refl]) simp
  from links_tail_block [OF this d(10) by', unfolded e] show ?thesis
    by (simp only: split_state_def Let_def)
qed

text \<open>The words of the split state outside the list cells.\<close>

lemma push_head_calm:
  assumes "geom B" "B (unat x) = Some (n, f)" "0 < c" "c < num_lists"
    and "h \<noteq> 0 \<Longrightarrow> \<exists>j. B (unat h) = Some (j, True)" "tag_cell B a"
  shows "rd32 (nvm_data (push_head s c x h)) a = rd32 (nvm_data s) a"
proof -
  have lc: "link_cell B (4 * c)" "h \<noteq> 0 \<Longrightarrow> link_cell B (unat h + 4)"
    using assms(3-5) link_cells by blast+
  have ne: "a \<noteq> unat x + 4" "a \<noteq> unat x + 8" "a \<noteq> 4 * c"
    using link_cell_not_tag [OF assms(1,2,6)] assms(4) by blast+
  have nh: "h \<noteq> 0 \<Longrightarrow> a \<noteq> unat h + 4"
    using assms(5) link_cell_not_tag(1) [OF assms(1) _ assms(6)] by blast
  show ?thesis
    unfolding push_head_def Let_def
    using lc [THEN link_cellD(1) [OF assms(1)]] lc [THEN link_cellD(2) [OF assms(1)]] ne nh
      tag_cell_mod4(1) [OF assms(1,6)] block_cells(2,3,7,8) [OF assms(1,2)]
    by (auto simp: rd32_put)
qed

lemma split_pushed:
  assumes sp: "splittable s B x n k"
    and h: "h = rd32 (nvm_data (shrunk s x n k)) (4 * cls (unat (n - k)))"
  shows "h \<noteq> 0 \<Longrightarrow> \<exists>j. B (unat h) = Some (j, True) \<and> unat h \<noteq> unat x"
    "h \<noteq> 0 \<Longrightarrow> \<exists>j. carve B (unat x) (unat n) (unat k) (unat h) = Some (j, True)"
proof -
  note d = splittableD [OF sp]
  let ?B = "carve B (unat x) (unat n) (unat k)"
  have bx: "?B (unat x) = Some (unat (n - k), True)"
    using d(6,7,9) by (simp add: carve_Some_iff)
  have L: "listed ?B {unat x} (cls (unat (n - k))) (unat h)" if "h \<noteq> 0"
    using push_head_correct(3) [OF d(10) shrunk_links [OF sp] refl _ bx h that] by simp
  show "\<exists>j. ?B (unat h) = Some (j, True)" if "h \<noteq> 0"
    using L [OF that] listedD by blast
  show "\<exists>j. B (unat h) = Some (j, True) \<and> unat h \<noteq> unat x" if "h \<noteq> 0"
    using L [OF that] unfolding listed_carve [OF sp] by (auto simp: listed_def)
qed

lemma rd32_tail_block:
  assumes "heap_off y" "heap_off e" "heap_off (e - 4)" "y mod 4 = 0" "e mod 4 = 0" "(e - 4) mod 4 = 0"
    and "y \<noteq> e" "a mod 4 = 0"
  shows "rd32 (nvm_data (tail_block s y e k)) a =
    (if a = e then rd32 (nvm_data s) e AND NOT kFreeMask else if a = e - 4 then k
     else if a = y then kFreeMask OR k else rd32 (nvm_data s) a)"
proof -
  have "e \<noteq> e - 4"
    using assms(2) unfolding heap_off_def by linarith
  with assms show ?thesis
    by (simp add: tail_block_def Let_def rd32_put)
qed

lemma split_words:
  assumes sp: "splittable s B x n k"
    and a: "tag_cell B a \<or> tag_cell (carve B (unat x) (unat n) (unat k)) a"
    and s2: "s2 = unlink_head s (cls (unat n)) (rd32 (nvm_data s) (unat x + 8))"
  shows "rd32 (nvm_data (split_state s x n k)) a =
    (if a = unat x + unat n then rd32 (nvm_data s2) a AND NOT kFreeMask
     else if a = unat x + unat n - 4 then k
     else if a = unat x + (unat n - unat k) then kFreeMask OR k
     else if a = unat x + (unat n - unat k) - 4 then n - k
     else if a = unat x then (rd32 (nvm_data s2) a AND kFreeMask) OR (n - k)
     else rd32 (nvm_data s2) a)"
proof -
  note d = splittableD [OF sp]
  let ?B = "carve B (unat x) (unat n) (unat k)" and ?X = "unat x" and ?N = "unat n" and ?M = "unat n - unat k"
  have bx: "?B ?X = Some (?M, True)" and by': "?B (?X + ?M) = Some (unat k, False)"
    using d(6,7) by (simp_all add: carve_Some_iff)
  have e: "?X + ?M + unat k = ?X + ?N"
    using d(7) by simp
  note xc = block_cells [OF d(10) bx] and yc = block_cells [OF d(10) by', unfolded e]
  define s4 where "s4 = shrunk s x n k"
  define h where "h = rd32 (nvm_data s4) (4 * cls (unat (n - k)))"
  define s8 where "s8 = push_head s4 (cls (unat (n - k))) x h"
  have c: "0 < cls (unat (n - k))" "cls (unat (n - k)) < num_lists"
    using cls_pos cls_less d(7,9) by auto
  have calm: "rd32 (nvm_data s8) b = rd32 (nvm_data s4) b" if "tag_cell B b \<or> tag_cell ?B b" for b
    using that push_head_calm [OF d(1,4) c _, of h b s4] push_head_calm [OF d(10) bx c _, of h b s4]
      split_pushed [OF sp, folded s4_def, OF h_def]
    unfolding s8_def by blast
  have am: "b mod 4 = 0" if "tag_cell B b \<or> tag_cell ?B b" for b
    using that tag_cell_mod4(1) [OF d(1)] tag_cell_mod4(1) [OF d(10)] by blast
  have end_cell: "tag_cell B (?X + ?N)"
    by (rule tag_cells(2) [OF d(1,4)])
  have s4w: "rd32 (nvm_data s4) b = (if b = ?X + ?M - 4 then n - k
      else if b = ?X then (rd32 (nvm_data s2) b AND kFreeMask) OR (n - k) else rd32 (nvm_data s2) b)"
    if "b mod 4 = 0" for b
    using that xc d(6,7) unfolding s4_def shrunk_def Let_def s2 [symmetric] d(9) by (simp add: rd32_put)
  have ne: "?X + ?N \<noteq> ?X + ?M - 4" "?X + ?N \<noteq> ?X" "?X + ?M \<noteq> ?X + ?N"
    using d(6,7) by linarith+
  have "rd32 (nvm_data (split_state s x n k)) a = (if a = ?X + ?N then rd32 (nvm_data s8) (?X + ?N) AND NOT kFreeMask
      else if a = ?X + ?N - 4 then k else if a = ?X + ?M then kFreeMask OR k else rd32 (nvm_data s8) a)"
    unfolding split_state_def Let_def s4_def [symmetric] h_def [symmetric] s8_def [symmetric]
    unfolding d(9) by (rule rd32_tail_block [OF yc(6,9,10,1,4,5) ne(3) am [OF a]])
  then show ?thesis
    unfolding calm [OF a] calm [OF disjI1 [OF end_cell]] s4w [OF am [OF a]] s4w [OF yc(4)]
    using ne(1,2) by presburger
qed

lemma kFreeMask_ne_0: "kFreeMask \<noteq> 0"
  by (simp add: kFreeMask_def)

lemma split_tags:
  assumes sp: "splittable s B x n k"
  shows "tags (nvm_data (split_state s x n k)) (carve B (unat x) (unat n) (unat k))"
proof -
  note d = splittableD [OF sp]
  let ?X = "unat x" and ?N = "unat n" and ?M = "unat n - unat k"
  define s2 where "s2 = unlink_head s (cls ?N) (rd32 (nvm_data s) (?X + 8))"
  note w = split_words [OF sp _ s2_def]
  have bx: "carve B ?X ?N (unat k) ?X = Some (?M, True)"
    and by': "carve B ?X ?N (unat k) (?X + ?M) = Some (unat k, False)"
    using d(6,7) by (simp_all add: carve_Some_iff)
  note tx = tag_cells [OF d(1,4)] and tX = tag_cells [OF d(10) bx] and tY = tag_cells [OF d(10) by']
  have small: "unat k < 2 ^ 31" "unat (n - k) < 2 ^ 31"
    using geomD(5) [OF d(1,4)] d(7,9) by (simp_all add: heap_end_def)
  have mask_k: "kFreeMask OR k = (kFreeMask AND kFreeMask) OR k"
    by simp
  have ne: "?X \<noteq> ?X + ?N" "?X \<noteq> ?X + ?N - 4" "?X \<noteq> ?X + ?M" "?X \<noteq> ?X + ?M - 4"
    "?X + ?M \<noteq> ?X + ?N" "?X + ?M \<noteq> ?X + ?N - 4" "?X + ?M - 4 \<noteq> ?X + ?N" "?X + ?M - 4 \<noteq> ?X + ?N - 4"
    "?X + ?M - 4 \<noteq> ?X + ?M"
    using d(6,7) by linarith+
  have wx: "rd32 (nvm_data (split_state s x n k)) ?X = (rd32 (nvm_data s2) ?X AND kFreeMask) OR (n - k)"
    using w [of ?X] tx(1) ne(1-4) by presburger
  have wf: "rd32 (nvm_data (split_state s x n k)) (?X + ?M - 4) = n - k"
    using w [of "?X + ?M - 4"] tX(3) ne(7-9) by presburger
  have wy: "rd32 (nvm_data (split_state s x n k)) (?X + ?M) = kFreeMask OR k"
    using w [of "?X + ?M"] tX(2) ne(5,6) by presburger
  have we: "rd32 (nvm_data (split_state s x n k)) (?X + ?N) = rd32 (nvm_data s2) (?X + ?N) AND NOT kFreeMask"
    using w [of "?X + ?N"] tx(2) by presburger
  show ?thesis
  proof (rule tags_carve [OF d(1) unlinked_in_split(1) [OF sp s2_def] d(4,6,7)])
    show "sz (nvm_data (split_state s x n k)) ?X = ?M" "pf (nvm_data (split_state s x n k)) ?X = pf (nvm_data s2) ?X"
      using tag_word [OF small(2)] d(9) by (simp_all add: sz_def pf_def wx)
    show "ptr (nvm_data (split_state s x n k)) (?X + ?M - 4) = ?M"
      by (simp add: ptr_def wf d(9))
    show "sz (nvm_data (split_state s x n k)) (?X + ?M) = unat k" "pf (nvm_data (split_state s x n k)) (?X + ?M)"
      unfolding sz_def pf_def wy mask_k tag_word [OF small(1)] by (simp_all add: kFreeMask_ne_0)
    show "\<not> pf (nvm_data (split_state s x n k)) (?X + ?N)"
      "sz (nvm_data (split_state s x n k)) (?X + ?N) = sz (nvm_data s2) (?X + ?N)"
      by (simp_all add: sz_def pf_def we set_tag_word)
    show "rd32 (nvm_data (split_state s x n k)) a = rd32 (nvm_data s2) a"
      if "tag_cell B a" "a \<noteq> ?X" "a \<noteq> ?X + ?M - 4" "a \<noteq> ?X + ?M" "a \<noteq> ?X + ?N - 4" "a \<noteq> ?X + ?N" for a
      using that w [of a] by presburger
  qed
qed

lemma split_kept:
  assumes sp: "splittable s B x n k"
  shows "kept B (nvm_data s) (nvm_data (split_state s x n k))"
proof -
  note d = splittableD [OF sp]
  let ?X = "unat x" and ?N = "unat n" and ?M = "unat n - unat k"
  define h where "h = rd32 (nvm_data (shrunk s x n k)) (4 * cls (unat (n - k)))"
  have bx: "carve B ?X ?N (unat k) ?X = Some (?M, True)"
    and by': "carve B ?X ?N (unat k) (?X + ?M) = Some (unat k, False)"
    using d(6,7) by (simp_all add: carve_Some_iff)
  note xc = block_cells [OF d(10) bx] and yc = block_cells [OF d(10) by']
  have e: "?X + ?M + unat k = ?X + ?N"
    using d(7) by simp
  have m: "meta B ?X" "meta B (?X + ?M - 4)" "meta B (?X + ?M)" "meta B (?X + ?N - 4)" "meta B (?X + ?N)"
    using d(6,7) meta_boundary [OF boundary_next [OF d(1,4)]] meta_inside [of B, OF d(4)] by simp_all
  have c: "0 < cls (unat (n - k))" "cls (unat (n - k)) < num_lists"
    using cls_pos cls_less d(7,9) by auto
  have lc: "link_cell B (?X + 4)" "link_cell B (?X + 8)" "link_cell B (4 * cls (unat (n - k)))"
    "h \<noteq> 0 \<Longrightarrow> link_cell B (unat h + 4)"
    using d(4) c split_pushed(1) [OF sp h_def] link_cells by blast+
  note lo = lc [THEN link_cellD(1) [OF d(1)]] and lm = lc [THEN link_cellD(3) [OF d(1)]]
  have "kept B (nvm_data s) (nvm_data (shrunk s x n k))"
    unfolding shrunk_def Let_def d(9)
    by (rule kept_step [OF kept_step [OF unlinked_in_split(3) [OF sp refl] d(1) m(1) xc(6)] d(1) m(2) xc(10)])
  then have "kept B (nvm_data s) (nvm_data (push_head (shrunk s x n k) (cls (unat (n - k))) x h))"
    using lo lm by (auto simp: push_head_def Let_def intro!: kept_step [OF _ d(1)])
  then show ?thesis
    unfolding split_state_def Let_def h_def [symmetric] unfolding d(9)
    by (rule kept_tail_block [OF _ d(1) m(3,4,5) yc(6,10,9) [unfolded e]])
qed

lemma unat_end:
  fixes x n :: u32
  assumes "geom B" "B (unat x) = Some (unat n, f)"
  shows "unat (x + n) = unat x + unat n" "unat (x + n - 4) = unat x + unat n - 4"
    "unat (x + 4) = unat x + 4" "unat (x + 8) = unat x + 8"
proof -
  note gx = geomD [OF assms]
  show e: "unat (x + n) = unat x + unat n"
    using gx(5) by (subst unat_add_u32) (simp_all add: heap_end_def)
  have "4 \<le> x + n"
    using e gx(3) by (simp add: word_le_nat_alt)
  then show "unat (x + n - 4) = unat x + unat n - 4"
    using e by (simp add: unat_sub_u32)
  show "unat (x + 4) = unat x + 4" "unat (x + 8) = unat x + 8"
    using gx(3,5) by (simp_all add: unat_off4 unat_off8)
qed

lemma Write_list_head:
  fixes q :: u32
  assumes "geom B" "q \<noteq> 0" "\<exists>j. B (unat q) = Some (j, True)"
  shows "Write32 s (q + 4) v = Some (put s (unat q + 4) v)"
proof -
  obtain j where j: "B (unat q) = Some (j, True)"
    using assms(3) by blast
  have "unat (q + 4) = unat q + 4"
    using geomD(3,5) [OF assms(1) j] by (intro unat_off4) simp
  then show ?thesis
    using block_cells(7) [OF assms(1) j] by (simp add: Write32_off)
qed

lemma SplitBlock_exec:
  assumes sp: "splittable s B x n k"
  shows "SplitBlock s x n k = Some (x + (n - k), split_state s x n k)"
proof -
  note d = splittableD [OF sp]
  let ?X = "unat x" and ?N = "unat n" and ?M = "unat n - unat k"
  have bx: "carve B ?X ?N (unat k) ?X = Some (unat (n - k), True)"
    and by': "carve B ?X ?N (unat k) (?X + unat (n - k)) = Some (unat k, False)"
    using d(6,7,9) by (simp_all add: carve_Some_iff)
  note ux = unat_end [OF d(1,4)] and um = unat_end [OF d(10) bx]
  note uy = unat_end [OF d(10) by' [folded um(1)]]
  have ye: "x + (n - k) + k = x + n"
    by simp
  note xc = block_cells [OF d(1,4)] and mc = block_cells [OF d(10) bx] and yc = block_cells [OF d(10) by']
  have c: "0 < cls ?N" "cls ?N < num_lists" "?X \<noteq> 0" "16 \<le> ?N" "16 \<le> unat (n - k)"
    "0 < cls (unat (n - k))" "cls (unat (n - k)) < num_lists"
    using cls_pos cls_less geomD(1) [OF d(1,4)] d(6,7,9) by (auto simp: heap_start_def)
  obtain fl where fl: "GetFreeListByBlockSize n = Some fl" "unat fl = 4 * cls ?N"
    using GetFreeListByBlockSize_cls [OF c(4)] by blast
  obtain fm where fm: "GetFreeListByBlockSize (n - k) = Some fm" "unat fm = 4 * cls (unat (n - k))"
    using GetFreeListByBlockSize_cls [OF c(5)] by blast
  note hc = head_cell [OF c(1,2)] head_cell [OF c(6,7)]
  define q where "q = rd32 (nvm_data s) (?X + 8)"
  define h where "h = rd32 (nvm_data (shrunk s x n k)) (4 * cls (unat (n - k)))"
  have wq: "Write32 s' (q + 4) v = Some (put s' (unat q + 4) v)" if "q \<noteq> 0" for s' v
    using Write_list_head [OF d(1) that] unlink_head_correct(3) [OF d(1,3) c(1,2) d(5) c(3) q_def that]
    by blast
  have wh: "Write32 s' (h + 4) v = Some (put s' (unat h + 4) v)" if "h \<noteq> 0" for s' v
    using Write_list_head [OF d(1) that] split_pushed(1) [OF sp h_def that] by blast
  have nk: "n > k"
    using d(6,7) by (simp add: word_less_nat_alt)
  have wq': "(if q \<noteq> 0 then Write32 s' (q + 4) v else Some s')
      = Some (if q \<noteq> 0 then put s' (unat q + 4) v else s')" for s' v
    using wq by simp
  have wh': "(if h \<noteq> 0 then Write32 s' (h + 4) v else Some s')
      = Some (if h \<noteq> 0 then put s' (unat h + 4) v else s')" for s' v
    using wh by simp
  note h' = wh' [unfolded h_def shrunk_def unlink_head_def Let_def, folded q_def]
  show ?thesis
    unfolding SplitBlock_def split_state_def shrunk_def unlink_head_def push_head_def tail_block_def Let_def
    apply (simp add: Read32_off Write32_off ux um xc mc fl fm hc ensure_def nk q_def [symmetric] wq' ReadThePrevFreeTag_def
     split del: if_split cong del: if_weak_cong)
    apply (simp add: h' Read32_off Write32_off xc um mc yc ResetTheFreeTag_def ye ux split del: if_split cong del: if_weak_cong)
    done
qed


section \<open>AllocBlock\<close>

definition first_class :: "mem \<Rightarrow> nat \<Rightarrow> nat option" where
  "first_class m c = find (\<lambda>d. ptr m (4 * d) \<noteq> 0) [c..<num_lists]"

lemma first_class_Some:
  assumes "first_class m c = Some d"
  shows "c \<le> d" "d < num_lists" "ptr m (4 * d) \<noteq> 0"
  using assms unfolding first_class_def find_Some_iff by auto

lemma scan_lists_correct:
  "0 < c \<Longrightarrow> c \<le> num_lists \<Longrightarrow> scan_lists s (of_nat (4 * c)) =
     Some (case first_class (nvm_data s) c of None \<Rightarrow> (of_nat 292, 0)
           | Some d \<Rightarrow> (of_nat (4 * d), rd32 (nvm_data s) (4 * d)))"
proof (induction "num_lists - c" arbitrary: c)
  case 0
  then have "c = 73"
    by (simp add: num_lists_def)
  then show ?case
    by (simp add: scan_lists.simps kNumFreeLists_def first_class_def num_lists_def)
next
  case (Suc k)
  then have c: "c < num_lists"
    by simp
  have u: "unat (of_nat (4 * c) :: u32) = 4 * c"
    using c by (intro unat_of_nat_u32) (simp add: num_lists_def)
  have lt: "of_nat (4 * c) < kNumFreeLists * 4"
    using c by (simp add: word_less_nat_alt u kNumFreeLists_def num_lists_def del: of_nat_mult)
  have rd: "Read32 s (of_nat (4 * c)) = Some (rd32 (nvm_data s) (4 * c))"
    using head_cell [OF Suc.prems(1) c] by (simp add: Read32_off u del: of_nat_mult)
  have nx: "of_nat (4 * c) + 4 = (of_nat (4 * Suc c) :: u32)"
    by simp
  have fc: "first_class (nvm_data s) c =
      (if rd32 (nvm_data s) (4 * c) = 0 then first_class (nvm_data s) (Suc c) else Some c)"
    using c by (simp add: first_class_def upt_conv_Cons ptr_def unat_eq_zero)
  show ?case
    using Suc.hyps(1) [of "Suc c"] Suc.hyps(2) c
    by (subst scan_lists.simps) (simp add: lt rd nx fc del: of_nat_mult)
qed

text \<open>An exact fit: the tag is reset, the block leaves its list, and the predecessor of its
  successor is cleared even when there is no successor, at offset 4, the head of class 1.\<close>

definition exact_state :: "Allocator \<Rightarrow> u32 \<Rightarrow> u32 \<Rightarrow> Allocator" where
  "exact_state s x n =
     (let q = rd32 (nvm_data s) (unat x + 8);
          s1 = put s (unat x + unat n) (rd32 (nvm_data s) (unat x + unat n) AND NOT kFreeMask)
      in put (put s1 (4 * cls (unat n)) q) (unat q + 4) 0)"

lemma exact_state_alt:
  assumes "q = rd32 (nvm_data s) (unat x + 8)"
    and "s1 = put s (unat x + unat n) (rd32 (nvm_data s) (unat x + unat n) AND NOT kFreeMask)"
  shows "exact_state s x n = (if q \<noteq> 0 then unlink_head s1 (cls (unat n)) q
    else put (unlink_head s1 (cls (unat n)) q) (4 * 1) 0)"
  using assms by (simp add: exact_state_def unlink_head_def Let_def)

lemma exact_correct:
  assumes inv: "heap_inv s B {}" and x: "B (unat x) = Some (unat n, True)"
    and head: "ptr (nvm_data s) (4 * cls (unat n)) = unat x"
  shows "heap_inv (exact_state s x n) (B(unat x \<mapsto> (unat n, False))) {}"
    "kept B (nvm_data s) (nvm_data (exact_state s x n))"
proof -
  note d = heap_invD [OF inv] and gx = geomD [OF heap_invD(1) [OF inv] x]
  let ?X = "unat x" and ?c = "cls (unat n)"
  define q where "q = rd32 (nvm_data s) (?X + 8)"
  define s1 where "s1 = put s (?X + unat n) (rd32 (nvm_data s) (?X + unat n) AND NOT kFreeMask)"
  define s3 where "s3 = unlink_head s1 ?c q"
  note tc = tag_cells [OF d(1) x] and xc = block_cells [OF d(1) x]
  have c: "0 < ?c" "?c < num_lists" "?X \<noteq> 0" "1 < num_lists"
    using cls_pos [OF gx(3)] cls_less gx(1) by (auto simp: heap_start_def num_lists_def)
  have same: "rd32 (nvm_data s1) a = rd32 (nvm_data s) a" if "a mod 4 = 0" "a \<noteq> ?X + unat n" for a
    using that xc by (simp add: s1_def rd32_put)
  have l1: "links (nvm_data s1) (listed B {})"
    unfolding s1_def by (rule links_put_tag [OF d(3,1) tc(2)])
  have q1: "q = rd32 (nvm_data s1) (?X + 8)" and h1: "ptr (nvm_data s1) (4 * ?c) = ?X"
    using same xc head gx(1,3) c(2) by (simp_all add: q_def ptr_def heap_start_def num_lists_def)
  note u = unlink_head_correct [OF d(1) l1 c(1,2) h1 c(3) q1]
  define B' where "B' = B(?X \<mapsto> (unat n, False))"
  have t1: "tags (nvm_data s1) B'"
    unfolding B'_def
  proof (rule tags_flag [OF d(1,2) x])
    show "\<not> pf (nvm_data s1) (?X + unat n)" "sz (nvm_data s1) (?X + unat n) = sz (nvm_data s) (?X + unat n)"
      using xc by (simp_all add: s1_def pf_def sz_def rd32_put set_tag_word)
  qed (simp add: same tag_cell_mod4(1) [OF d(1)])
  have g': "geom B'"
    unfolding B'_def by (rule geom_flag [OF d(1) x])
  have L: "listed B' {} = listed B {?X}"
    by (intro ext) (auto simp: listed_def B'_def)
  have lq: "link_cell B' (unat q + 4)" if q0: "q \<noteq> 0"
  proof -
    obtain j where "B' (unat q) = Some (j, True)"
      using u(3) [OF q0] by (auto simp: B'_def)
    then show ?thesis
      by (rule link_cells(1))
  qed
  have t3: "tags (nvm_data s3) B'" and l3: "links (nvm_data s3) (listed B' {})"
    unfolding s3_def L using tags_unlink_head [OF g' t1 c(1,2) lq] u(1) by simp_all
  have k3: "kept B (nvm_data s) (nvm_data s3)"
    unfolding s3_def s1_def
    by (rule kept_trans [OF kept_put kept_unlink_head [OF d(1) c(1,2) u(2)]])
      (simp_all add: d(1) xc meta_boundary [OF boundary_next [OF d(1) x]])
  have o4: "heap_off (4 * 1)"
    by (simp add: heap_off_def heap_end_def)
  have l4: "links (nvm_data (put s3 (4 * 1) 0)) (listed B' {})"
    using links_clear_head [OF l3 wf_listed [OF g'] c(4)] o4 by (simp add: nvm_data_put)
  have "link_cell B' (4 * 1)" "link_cell B (4 * 1)"
    using link_cells(3) [of 1] c(4) by auto
  then have t4: "tags (nvm_data (put s3 (4 * 1) 0)) B'"
    and k4: "kept B (nvm_data s) (nvm_data (put s3 (4 * 1) 0))"
    using tags_put_link [OF g' t3] link_cellD(3) [OF d(1)] kept_step [OF k3 d(1) _ o4] by blast+
  note alt = exact_state_alt [OF q_def s1_def, folded s3_def]
  show "heap_inv (exact_state s x n) (B(?X \<mapsto> (unat n, False))) {}"
    unfolding alt B'_def [symmetric] heap_inv_def using g' t3 l3 t4 l4 by simp
  show "kept B (nvm_data s) (nvm_data (exact_state s x n))"
    unfolding alt using k3 k4 by simp
qed

text \<open>What a successful allocation does to the blocks: the allocated blocks are those of before
  and the new one, which lies inside a block that was free.\<close>

definition hands_out :: "blocks \<Rightarrow> nat \<Rightarrow> nat \<Rightarrow> blocks \<Rightarrow> bool" where
  "hands_out B k a B' \<longleftrightarrow>
     (\<forall>b n. B' b = Some (n, False) \<longleftrightarrow> B b = Some (n, False) \<or> b = a \<and> n = k)
     \<and> (\<exists>x n. B x = Some (n, True) \<and> x \<le> a \<and> a + k \<le> x + n)"

lemma hands_out_exact: "B x = Some (k, True) \<Longrightarrow> hands_out B k x (B(x \<mapsto> (k, False)))"
  by (auto simp: hands_out_def)

lemma hands_out_split:
  assumes "splittable s B x n k"
  shows "hands_out B (unat k) (unat x + (unat n - unat k)) (carve B (unat x) (unat n) (unat k))"
proof -
  note d = splittableD [OF assms]
  from carve_fresh [OF assms] have "carve B (unat x) (unat n) (unat k) b = Some (m, False) \<longleftrightarrow>
      B b = Some (m, False) \<or> b = unat x + (unat n - unat k) \<and> m = unat k" for b m
    using carve_Some_iff [of "unat k" "unat n" B "unat x" b m False] d(4,6,7) by auto
  then show ?thesis
    using d(4,6,7) unfolding hands_out_def by (intro conjI allI exI [of _ "unat x"] exI [of _ "unat n"]) auto
qed

lemma cls_le:
  assumes "cls k \<le> cls n" "k \<le> 1152" "k mod 16 = 0" "n mod 16 = 0" "32 \<le> k" "32 \<le> n"
  shows "k \<le> n"
proof -
  have "k = 16 * (k div 16)" "n = 16 * (n div 16)"
    using assms(3,4) by auto
  moreover have "2 \<le> k div 16" "2 \<le> n div 16"
    using assms(5,6) by auto
  ultimately show ?thesis
    using assms(1,2) by (auto simp: cls_def split: if_splits)
qed

lemma SplitBlock_remainder_16: "SplitBlock s x (k + 16) k = None"
  by (simp add: SplitBlock_def Let_def GetFreeListByBlockSize_def kMaxBlockSize_def ensure_def
      Read32_def Read_def split: option.split)

text \<open>What \<^verbatim>\<open>AllocBlock\<close> finds at the head of a class.\<close>

lemma head_of_class:
  assumes inv: "heap_inv s B {}" and c: "c < num_lists" and h: "ptr (nvm_data s) (4 * c) \<noteq> 0"
    and x: "x = rd32 (nvm_data s) (4 * c)" and n: "n = rd32 (nvm_data s) (unat x) AND NOT kFreeMask"
  shows "B (unat x) = Some (unat n, True)" "cls (unat n) = c" "x \<noteq> 0" "unat n = sz (nvm_data s) (unat x)"
    "ReadTheSizeTag s x = Some n" "\<exists>t. ReadTheFreeTag s x n = Some t \<and> t \<noteq> 0"
proof -
  note d = heap_invD [OF inv]
  have ux: "unat x = ptr (nvm_data s) (4 * c)"
    by (simp add: x ptr_def)
  obtain N where N: "B (unat x) = Some (N, True)" "cls N = c"
    using links_head [OF d(3) c h] listedD unfolding ux by blast
  show un: "unat n = sz (nvm_data s) (unat x)"
    by (simp add: n sz_def)
  show b: "B (unat x) = Some (unat n, True)" and "cls (unat n) = c"
    using tagsD(1) [OF d(2) N(1)] N un by simp_all
  show "x \<noteq> 0"
    using h ux by auto
  show "ReadTheSizeTag s x = Some n"
    using block_cells(6) [OF d(1) b] by (simp add: ReadTheSizeTag_def Read32_off n)
  show "\<exists>t. ReadTheFreeTag s x n = Some t \<and> t \<noteq> 0"
    using ReadTheFreeTag_block [OF d(1,2) b] by auto
qed

lemma head_successor:
  assumes inv: "heap_inv s B {}" and c: "0 < c" "c < num_lists" and x: "ptr (nvm_data s) (4 * c) = unat x" "x \<noteq> 0"
    and q: "q = rd32 (nvm_data s) (unat x + 8)"
  shows "unat (q + 4) = unat q + 4" "heap_off (unat q + 4)"
proof -
  note d = heap_invD [OF inv]
  have "unat (q + 4) = unat q + 4 \<and> heap_off (unat q + 4)"
  proof (cases "q = 0")
    case True
    then show ?thesis
      by (simp add: heap_off_def heap_end_def)
  next
    case False
    have "unat x \<noteq> 0"
      using x(2) by (simp add: unat_eq_zero)
    then obtain j where j: "B (unat q) = Some (j, True)"
      using unlink_head_correct(3) [OF d(1,3) c x(1) _ q False] by blast
    show ?thesis
      using unat_off4 [of q] geomD(3,5) [OF d(1) j] block_cells(7) [OF d(1) j] by simp
  qed
  then show "unat (q + 4) = unat q + 4" "heap_off (unat q + 4)"
    by simp_all
qed

lemma exact_exec:
  assumes "heap_inv s B {}" "B (unat x) = Some (unat n, True)" "fl = of_nat (4 * cls (unat n))"
    and "q = rd32 (nvm_data s) (unat x + 8)" "unat (q + 4) = unat q + 4" "heap_off (unat q + 4)"
  shows "do { nx \<leftarrow> Read32 s (x + 8); s \<leftarrow> ResetTheFreeTag s x n; s \<leftarrow> Write32 s fl nx;
      s \<leftarrow> Write32 s (nx + 4) 0; Some (x, s) } = Some (x, exact_state s x n)"
proof -
  note d = heap_invD [OF assms(1)]
  note xc = block_cells [OF d(1) assms(2)] and u = unat_end [OF d(1) assms(2)]
  have c: "0 < cls (unat n)" "cls (unat n) < num_lists"
    using cls_pos geomD(3) [OF d(1) assms(2)] cls_less by auto
  have "unat fl = 4 * cls (unat n)"
    unfolding assms(3) using c by (intro unat_of_nat_u32) (simp add: num_lists_def)
  then show ?thesis
    using assms(5,6) head_cell [OF c] unfolding exact_state_def assms(4) Let_def
    by (simp add: Read32_off Write32_off ResetTheFreeTag_def u xc)
qed

lemma AllocBlock_scan:
  assumes "32 \<le> unat k"
  shows "\<exists>fl. GetFreeListByBlockSize k = Some fl \<and> scan_lists s fl =
    Some (case first_class (nvm_data s) (cls (unat k)) of None \<Rightarrow> (of_nat 292, 0)
          | Some d \<Rightarrow> (of_nat (4 * d), rd32 (nvm_data s) (4 * d)))"
proof -
  obtain fl where fl: "GetFreeListByBlockSize k = Some fl" "unat fl = 4 * cls (unat k)"
    using GetFreeListByBlockSize_cls [of k] assms by auto
  have "fl = of_nat (4 * cls (unat k))"
    by (simp flip: fl(2))
  then show ?thesis
    using scan_lists_correct [OF cls_pos [OF assms], of s] cls_less [of "unat k"] fl(1) by auto
qed

lemma AllocBlock_body:
  assumes inv: "heap_inv s B {}" and k: "32 \<le> unat k" "unat k \<le> 1152" "unat k mod 16 = 0"
    and c: "first_class (nvm_data s) (cls (unat k)) = Some c"
    and x: "x = rd32 (nvm_data s) (4 * c)" and n: "n = rd32 (nvm_data s) (unat x) AND NOT kFreeMask"
  shows "AllocBlock s k = (if n = k then Some (x, exact_state s x n) else SplitBlock s x n k)" "unat k \<le> unat n"
proof -
  note d = heap_invD [OF inv] and fc = first_class_Some [OF c]
  note hd = head_of_class [OF inv fc(2,3) x n]
  note gx = geomD [OF d(1) hd(1)]
  show kn: "unat k \<le> unat n"
    by (rule cls_le [OF _ k(2,3) gx(4) k(1) gx(3)]) (simp add: fc(1) hd(2))
  have ux: "ptr (nvm_data s) (4 * c) = unat x"
    by (simp add: x ptr_def)
  have c0: "0 < c"
    using cls_pos [OF k(1)] fc(1) by simp
  note q = head_successor [OF inv c0 fc(2) ux hd(3) refl]
  note ex = exact_exec [OF inv hd(1) refl refl q, unfolded hd(2)]
  obtain t where t: "ReadTheFreeTag s x n = Some t" "t \<noteq> 0"
    using hd(6) by blast
  obtain fl where fl: "GetFreeListByBlockSize k = Some fl" "scan_lists s fl = Some (of_nat (4 * c), x)"
    using AllocBlock_scan [OF k(1), of s] by (auto simp: c x)
  show "AllocBlock s k = (if n = k then Some (x, exact_state s x n) else SplitBlock s x n k)"
    using kn ex unfolding AllocBlock_def
    by (auto simp add: fl hd(3,5) t ensure_def word_le_nat_alt simp del: of_nat_mult)
qed

lemma size_cases:
  assumes "unat (k :: u32) \<le> unat n" "unat n mod 16 = 0" "unat k mod 16 = 0"
  obtains "n = k" | "unat n = unat k + 16" | "unat k + 32 \<le> unat n"
proof -
  obtain i j where ij: "unat n = 16 * i" "unat k = 16 * j"
    using assms(2,3) by (metis dvd_def mod_0_imp_dvd)
  then have "i = j \<or> i = j + 1 \<or> j + 2 \<le> i"
    using assms(1) by linarith
  then have "unat n = unat k \<or> unat n = unat k + 16 \<or> unat k + 32 \<le> unat n"
    using ij by auto
  then show thesis
    using that by (auto simp: word_unat_eq_iff)
qed

lemma exact_footer:
  assumes inv: "heap_inv s B {}" and x: "B (unat x) = Some (unat n, True)"
    and head: "ptr (nvm_data s) (4 * cls (unat n)) = unat x"
  shows "ptr (nvm_data (exact_state s x n)) (unat x + unat n - 4) = unat n"
proof -
  note d = heap_invD [OF inv] and gx = geomD [OF heap_invD(1) [OF inv] x]
  let ?a = "unat x + unat n - 4"
  define q where "q = rd32 (nvm_data s) (unat x + 8)"
  have c: "0 < cls (unat n)" "cls (unat n) < num_lists" "x \<noteq> 0" "unat x \<noteq> 0"
    using cls_pos [OF gx(3)] cls_less gx(1) by (auto simp: heap_start_def)
  note q = head_successor [OF inv c(1,2) head c(3) q_def]
  note xc = block_cells [OF d(1) x] and tc = tag_cells [OF d(1) x]
  have "?a \<noteq> unat x + unat n" "?a \<noteq> 4 * cls (unat n)" "?a \<noteq> 4"
    using gx(1,3) c(2) by (auto simp: heap_start_def num_lists_def)
  moreover have "?a \<noteq> unat q + 4" if "q \<noteq> 0"
    using unlink_head_correct(3) [OF d(1,3) c(1,2) head c(4) q_def that]
      link_cell_not_tag(1) [OF d(1) _ tc(3)] by auto
  moreover have "(unat q + 4) mod 4 = 0"
    using link_cellD(2) [OF d(1) unlink_head_correct(2) [OF d(1,3) c(1,2) head c(4) q_def]]
    by (cases "q = 0") simp_all
  ultimately have "rd32 (nvm_data (exact_state s x n)) ?a = rd32 (nvm_data s) ?a"
    using q(2) xc head_cell [OF c(1,2)] unfolding exact_state_def Let_def q_def [symmetric]
    by (cases "q = 0") (simp_all add: rd32_put)
  then show ?thesis
    using tagsD(3) [OF d(2) x] by (simp add: ptr_def)
qed

lemma split_footer:
  assumes sp: "splittable s B x n k"
  shows "ptr (nvm_data (split_state s x n k)) (unat x + (unat n - unat k) + unat k - 4) = unat k"
proof -
  note d = splittableD [OF sp]
  have e: "unat x + (unat n - unat k) + unat k - 4 = unat x + unat n - 4" "unat x + unat n - 4 \<noteq> unat x + unat n"
    using d(6,7) by linarith+
  have "rd32 (nvm_data (split_state s x n k)) (unat x + unat n - 4) = k"
    using split_words [OF sp disjI1 [OF tag_cells(3) [OF d(1,4)]] refl] e(2) by simp
  then show ?thesis
    by (simp only: e ptr_def)
qed

lemma AllocBlock_correct:
  assumes inv: "heap_inv s B {}" and k: "32 \<le> unat k" "unat k \<le> 1152" "unat k mod 16 = 0"
  shows "case first_class (nvm_data s) (cls (unat k)) of
      None \<Rightarrow> AllocBlock s k = Some (0, s)
    | Some c \<Rightarrow>
        if sz (nvm_data s) (ptr (nvm_data s) (4 * c)) = unat k + 16 then AllocBlock s k = None
        else \<exists>a s' B'. AllocBlock s k = Some (of_nat a, s') \<and> heap_inv s' B' {}
          \<and> hands_out B (unat k) a B' \<and> kept B (nvm_data s) (nvm_data s')
          \<and> ptr (nvm_data s') (a + unat k - 4) = unat k"
proof (cases "first_class (nvm_data s) (cls (unat k))")
  case None
  then show ?thesis
    using AllocBlock_scan [OF k(1), of s] by (auto simp: AllocBlock_def)
next
  case (Some c)
  define x where "x = rd32 (nvm_data s) (4 * c)"
  define n where "n = rd32 (nvm_data s) (unat x) AND NOT kFreeMask"
  note fc = first_class_Some [OF Some] and body = AllocBlock_body [OF inv k Some x_def n_def]
  note hd = head_of_class [OF inv fc(2,3) x_def n_def]
  have ux: "ptr (nvm_data s) (4 * c) = unat x"
    by (simp add: x_def ptr_def)
  let ?done = "\<exists>a s' B'. AllocBlock s k = Some (of_nat a, s') \<and> heap_inv s' B' {}
          \<and> hands_out B (unat k) a B' \<and> kept B (nvm_data s) (nvm_data s')
          \<and> ptr (nvm_data s') (a + unat k - 4) = unat k"
  from body(2) geomD(4) [OF heap_invD(1) [OF inv] hd(1)] k(3) show ?thesis
  proof (rule size_cases)
    assume 1: "n = k"
    have "AllocBlock s k = Some (of_nat (unat x), exact_state s x n)"
      using 1 body by simp
    with exact_correct [OF inv hd(1), unfolded hd(2), OF ux] hands_out_exact [of B, OF hd(1)] 1
      exact_footer [OF inv hd(1), unfolded hd(2), OF ux]
    have ?done
      by blast
    with 1 hd(4) Some ux show ?thesis
      by simp
  next
    assume 2: "unat n = unat k + 16"
    then have "n = k + 16"
      using k(2) by (simp add: word_unat_eq_iff unat_word_ariths)
    then show ?thesis
      using 2 Some ux hd(4) body SplitBlock_remainder_16 by simp
  next
    assume 3: "unat k + 32 \<le> unat n"
    have sp: "splittable s B x n k"
      using inv hd(1,2) ux k 3 by (simp add: splittable_def)
    have "n \<noteq> k" "of_nat (unat x + (unat n - unat k)) = x + (n - k)"
      using 3 by (auto simp: of_nat_diff)
    then have "AllocBlock s k = Some (of_nat (unat x + (unat n - unat k)), split_state s x n k)"
      using body SplitBlock_exec [OF sp] by simp
    moreover have "heap_inv (split_state s x n k) (carve B (unat x) (unat n) (unat k)) {}"
      using splittableD(10) [OF sp] split_tags [OF sp] split_links [OF sp] by (simp add: heap_inv_def)
    ultimately have ?done
      using hands_out_split [OF sp] split_kept [OF sp] split_footer [OF sp] by blast
    with 3 hd(4) Some ux show ?thesis
      by simp
  qed
qed

section \<open>Alloc\<close>

definition block_size :: "nat \<Rightarrow> nat" where
  "block_size z = 16 * ((z + 19) div 16)"

lemma RoundupBlockSize_exec:
  assumes "unat z \<le> 1148"
  shows "\<exists>k. RoundupBlockSize (z + 4) = Some k \<and> unat k = block_size (unat z)"
proof -
  have z4: "unat (z + 4) = unat z + 4"
    using assms by (subst unat_add_u32) simp_all
  have z19: "unat (z + 19) = unat z + 19"
    using assms by (subst unat_add_u32) simp_all
  have "unat ((z + 19) div 16 * 16) = block_size (unat z)"
    using assms by (simp add: unat_word_ariths unat_div z19 block_size_def)
  moreover have "z + 4 \<le> kMaxBlockSize"
    using assms by (simp add: word_le_nat_alt z4 kMaxBlockSize_def)
  ultimately show ?thesis
    by (simp add: RoundupBlockSize_def add.commute)
qed

lemma block_size_bounds:
  "13 \<le> z \<Longrightarrow> 32 \<le> block_size z" "z \<le> 1148 \<Longrightarrow> block_size z \<le> 1152" "block_size z mod 16 = 0"
  "z + 4 \<le> block_size z"
proof -
  show "13 \<le> z \<Longrightarrow> 32 \<le> block_size z"
    using div_le_mono [of 32 "z + 19" 16] by (simp add: block_size_def)
  show "z \<le> 1148 \<Longrightarrow> block_size z \<le> 1152"
    using div_le_mono [of "z + 19" 1167 16] by (simp add: block_size_def)
  show "block_size z mod 16 = 0"
    by (simp add: block_size_def)
  show "z + 4 \<le> block_size z"
    using div_mult_mod_eq [of "z + 19" 16] mod_less_divisor [of 16 "z + 19"] unfolding block_size_def by linarith
qed

lemma Alloc_exec:
  assumes "unat z \<le> 1148" "RoundupBlockSize (z + 4) = Some k" "unat k = block_size (unat z)"
  shows "Alloc s z = do { (blk, s) \<leftarrow> AllocBlock s k; Some (if blk = 0 then 0 else blk + 4, s) }"
proof -
  have "k mod 16 = 0"
    using block_size_bounds(3) [of "unat z"] assms(3) by (simp add: word_unat_eq_iff unat_mod)
  moreover have "k \<le> kMaxBlockSize"
    using block_size_bounds(2) [OF assms(1)] assms(3) by (simp add: word_le_nat_alt kMaxBlockSize_def)
  ultimately show ?thesis
    by (simp add: Alloc_def assms(2) ensure_def)
qed

end
