(* ===== verification/Allocator_Free.thy ===== *)
theory Allocator_Free
  imports Allocator_Alloc
begin

text \<open>
  Deallocation: \<^verbatim>\<open>FreeBlock\<close> coalesces the block with its free neighbours (when the sizes
  allow it), rewrites the tags of the result and puts it in front of its class. The invariant is
  kept provided the last word of the freed block still holds its size: \<^verbatim>\<open>FreeBlock\<close> writes
  the footer only when it has coalesced.
\<close>

section \<open>Disposing of a coalesced block\<close>

definition push_front :: "Allocator \<Rightarrow> nat \<Rightarrow> u32 \<Rightarrow> u32 \<Rightarrow> Allocator" where
  "push_front s c x h =
     (let s1 = put (put (put s (4 * c) x) (unat x + 4) 0) (unat x + 8) h
      in if h \<noteq> 0 then put s1 (unat h + 4) x else s1)"

lemma wr32_commute:
  "a + 4 \<le> b \<or> b + 4 \<le> a \<Longrightarrow> wr32 (wr32 m a v) b w = wr32 (wr32 m b w) a v"
  by (rule ext) (auto simp: wr32_def write_bytes_def)

lemma push_front_data:
  assumes "heap_off (4 * c)" "heap_off (unat x + 4)" "heap_off (unat x + 8)" "4 * c + 4 \<le> unat x + 4"
    and "h \<noteq> 0 \<Longrightarrow> heap_off (unat h + 4)"
  shows "nvm_data (push_front s c x h) = nvm_data (push_head s c x h)"
proof -
  have "wr32 (wr32 (wr32 m (4 * c) x) (unat x + 4) 0) (unat x + 8) h
      = wr32 (wr32 (wr32 m (unat x + 4) 0) (unat x + 8) h) (4 * c) x" for m h
    using assms(4) wr32_commute [of "4 * c" "unat x + 4"] wr32_commute [of "4 * c" "unat x + 8"] by simp
  then show ?thesis
    using assms by (simp add: push_front_def push_head_def Let_def nvm_data_put)
qed

text \<open>A block that has swallowed its free neighbours, which are out of their lists.\<close>

definition merged :: "Allocator \<Rightarrow> blocks \<Rightarrow> nat set \<Rightarrow> u32 \<Rightarrow> u32 \<Rightarrow> bool" where
  "merged s B D x n \<longleftrightarrow> heap_inv s B D \<and> 0 < unat n \<and> boundary B (unat x + unat n)
     \<and> (\<exists>k f. B (unat x) = Some (k, f))
     \<and> (\<forall>y k. B y = Some (k, True) \<and> unat x \<le> y \<and> y < unat x + unat n \<longrightarrow> y \<in> D)
     \<and> (\<forall>y\<in>D. unat x \<le> y \<and> y < unat x + unat n)"

definition retag :: "Allocator \<Rightarrow> u32 \<Rightarrow> u32 \<Rightarrow> bool \<Rightarrow> Allocator" where
  "retag s x n grown =
     (let s3 = if grown then put (put s (unat x) ((rd32 (nvm_data s) (unat x) AND kFreeMask) OR n))
                 (unat x + unat n - 4) n
               else s
      in put s3 (unat x + unat n) (rd32 (nvm_data s3) (unat x + unat n) OR kFreeMask))"

definition free_state :: "Allocator \<Rightarrow> u32 \<Rightarrow> u32 \<Rightarrow> bool \<Rightarrow> Allocator" where
  "free_state s x n grown =
     (let s4 = retag s x n grown; c = cls (unat n)
      in push_front s4 c x (rd32 (nvm_data s4) (4 * c)))"

lemma mergedD:
  assumes "merged s B D x n"
  shows "geom B" "tags (nvm_data s) B" "links (nvm_data s) (listed B D)" "0 < unat n"
    "boundary B (unat x + unat n)" "\<exists>k f. B (unat x) = Some (k, f)"
    "geom (absorb B (unat x) (unat n))" "absorb B (unat x) (unat n) (unat x) = Some (unat n, True)"
    "listed (absorb B (unat x) (unat n)) {unat x} = listed B D"
proof -
  show a: "geom B" "tags (nvm_data s) B" "links (nvm_data s) (listed B D)" "0 < unat n"
    "boundary B (unat x + unat n)" and k: "\<exists>k f. B (unat x) = Some (k, f)"
    using assms by (auto simp: merged_def heap_inv_def)
  from k obtain j f where "B (unat x) = Some (j, f)"
    by blast
  from geom_absorb [OF a(1) this a(4,5)] show "geom (absorb B (unat x) (unat n))" .
  show "absorb B (unat x) (unat n) (unat x) = Some (unat n, True)"
    by (simp add: absorb_def)
  have in_D: "\<And>y k. B y = Some (k, True) \<Longrightarrow> unat x \<le> y \<Longrightarrow> y < unat x + unat n \<Longrightarrow> y \<in> D"
    and D_in: "\<And>y. y \<in> D \<Longrightarrow> unat x \<le> y \<and> y < unat x + unat n"
    using assms unfolding merged_def by blast+
  show "listed (absorb B (unat x) (unat n)) {unat x} = listed B D"
  proof (intro ext iffI)
    fix c y
    assume "listed B D c y"
    then obtain m where m: "B y = Some (m, True)" "y \<notin> D" "cls m = c"
      by (auto simp: listed_def)
    then have "\<not> (unat x \<le> y \<and> y < unat x + unat n)"
      using in_D by blast
    with m a(4) show "listed (absorb B (unat x) (unat n)) {unat x} c y"
      by (auto simp: listed_def absorb_Some_iff)
  next
    fix c y
    assume "listed (absorb B (unat x) (unat n)) {unat x} c y"
    then obtain m where m: "B y = Some (m, True)" "\<not> (unat x < y \<and> y < unat x + unat n)" "cls m = c" "y \<noteq> unat x"
      by (auto simp: listed_def absorb_Some_iff)
    then have "y \<notin> D"
      using D_in [of y] by auto
    with m show "listed B D c y"
      by (auto simp: listed_def)
  qed
qed

lemma retag_words:
  assumes mg: "merged s B D x n" and a: "a mod 4 = 0"
  shows "rd32 (nvm_data (retag s x n grown)) a =
    (if a = unat x + unat n then rd32 (nvm_data s) a OR kFreeMask
     else if grown \<and> a = unat x + unat n - 4 then n
     else if grown \<and> a = unat x then (rd32 (nvm_data s) a AND kFreeMask) OR n
     else rd32 (nvm_data s) a)"
proof -
  note d = mergedD [OF mg]
  note xc = block_cells [OF d(7,8)] and gx = geomD [OF d(7,8)]
  have "unat x + unat n \<noteq> unat x" "unat x + unat n \<noteq> unat x + unat n - 4" "unat x \<noteq> unat x + unat n - 4"
    using gx(3) by linarith+
  then show ?thesis
    using a xc by (simp add: retag_def Let_def rd32_put)
qed

lemma retag_links:
  assumes mg: "merged s B D x n"
  shows "links (nvm_data (retag s x n grown)) (listed (absorb B (unat x) (unat n)) {unat x})"
proof -
  note d = mergedD [OF mg]
  note tc = tag_cells [OF d(7,8)]
  note l = d(3) [folded d(9)]
  show ?thesis
    unfolding retag_def Let_def using links_put_tag [OF links_put_tag [OF l d(7) tc(1)] d(7) tc(3)] l
    by (intro links_put_tag [OF _ d(7) tc(2)]) simp
qed


text \<open>The head of the class the block is pushed on.\<close>

lemma retag_head:
  assumes mg: "merged s B D x n"
    and h: "h = rd32 (nvm_data (retag s x n grown)) (4 * cls (unat n))"
  shows "h \<noteq> 0 \<Longrightarrow> \<exists>j. absorb B (unat x) (unat n) (unat h) = Some (j, True)"
    "h \<noteq> 0 \<Longrightarrow> \<exists>j. B (unat h) = Some (j, True)"
proof -
  note d = mergedD [OF mg]
  have L: "listed (absorb B (unat x) (unat n)) {unat x} (cls (unat n)) (unat h)" if "h \<noteq> 0"
    using push_head_correct(3) [OF d(7) retag_links [OF mg] refl _ d(8) h that] by simp
  show "\<exists>j. absorb B (unat x) (unat n) (unat h) = Some (j, True)" if "h \<noteq> 0"
    using L [OF that] listedD by blast
  show "\<exists>j. B (unat h) = Some (j, True)" if "h \<noteq> 0"
    using L [OF that] listedD unfolding d(9) by blast
qed

lemma free_state_data:
  assumes mg: "merged s B D x n"
  shows "nvm_data (free_state s x n grown) =
    nvm_data (push_head (retag s x n grown) (cls (unat n)) x (rd32 (nvm_data (retag s x n grown)) (4 * cls (unat n))))"
proof -
  note d = mergedD [OF mg]
  note xc = block_cells [OF d(7,8)] and gx = geomD [OF d(7,8)]
  note hc = head_cell [OF cls_pos [OF gx(3)] cls_less]
  have "4 * cls (unat n) + 4 \<le> unat x + 4"
    using gx(1) cls_less [of "unat n"] by (simp add: heap_start_def num_lists_def)
  then show ?thesis
    unfolding free_state_def Let_def
    using retag_head(1) [OF mg refl] block_cells(7) [OF d(7)] by (intro push_front_data [OF hc xc(7,8)]) blast+
qed

lemma free_links:
  assumes mg: "merged s B D x n"
  shows "links (nvm_data (free_state s x n grown)) (listed (absorb B (unat x) (unat n)) {})"
  unfolding free_state_data [OF mg]
  by (rule push_head_correct(1) [OF mergedD(7) [OF mg] retag_links [OF mg] refl _ mergedD(8) [OF mg] refl]) simp

lemma free_words:
  assumes mg: "merged s B D x n" and a: "tag_cell B a \<or> tag_cell (absorb B (unat x) (unat n)) a"
  shows "rd32 (nvm_data (free_state s x n grown)) a = rd32 (nvm_data (retag s x n grown)) a"
proof -
  note d = mergedD [OF mg]
  obtain k f where k: "B (unat x) = Some (k, f)"
    using d(6) by blast
  have c: "0 < cls (unat n)" "cls (unat n) < num_lists"
    using cls_pos [OF geomD(3) [OF d(7,8)]] cls_less by auto
  from a show ?thesis
  proof
    assume "tag_cell B a"
    then show ?thesis
      unfolding free_state_data [OF mg] using retag_head(2) [OF mg refl] by (intro push_head_calm [OF d(1) k c]) blast+
  next
    assume "tag_cell (absorb B (unat x) (unat n)) a"
    then show ?thesis
      unfolding free_state_data [OF mg] using retag_head(1) [OF mg refl] by (intro push_head_calm [OF d(7,8) c]) blast+
  qed
qed

lemma free_tags:
  assumes mg: "merged s B D x n"
    and foot: "\<not> grown \<Longrightarrow> B (unat x) = Some (unat n, b) \<and> ptr (nvm_data s) (unat x + unat n - 4) = unat n"
  shows "tags (nvm_data (free_state s x n grown)) (absorb B (unat x) (unat n))"
proof -
  note d = mergedD [OF mg]
  let ?m = "nvm_data (free_state s x n grown)" and ?X = "unat x" and ?N = "unat n"
  note tc = tag_cells [OF d(7,8)] and gx = geomD [OF d(7,8)] and xc = block_cells [OF d(7,8)]
  obtain k f where k: "B ?X = Some (k, f)"
    using d(6) by blast
  have w: "rd32 ?m a = (if a = ?X + ?N then rd32 (nvm_data s) a OR kFreeMask
     else if grown \<and> a = ?X + ?N - 4 then n
     else if grown \<and> a = ?X then (rd32 (nvm_data s) a AND kFreeMask) OR n
     else rd32 (nvm_data s) a)" if "a mod 4 = 0" "tag_cell B a \<or> tag_cell (absorb B ?X ?N) a" for a
    by (simp only: free_words [OF mg that(2)] retag_words [OF mg that(1)])
  have ne: "?X \<noteq> ?X + ?N" "?X \<noteq> ?X + ?N - 4" "?X + ?N - 4 \<noteq> ?X + ?N"
    using gx(3) by linarith+
  have small: "?N < 2 ^ 31"
    using gx(5) by (simp add: heap_end_def)
  have wx: "rd32 ?m ?X = (if grown then (rd32 (nvm_data s) ?X AND kFreeMask) OR n else rd32 (nvm_data s) ?X)"
    using w [OF xc(1)] tc(1) ne(1,2) by presburger
  have wf: "rd32 ?m (?X + ?N - 4) = (if grown then n else rd32 (nvm_data s) (?X + ?N - 4))"
    using w [OF xc(5)] tc(3) ne by presburger
  have we: "rd32 ?m (?X + ?N) = rd32 (nvm_data s) (?X + ?N) OR kFreeMask"
    using w [OF xc(4)] tc(2) by presburger
  show ?thesis
  proof (rule tags_absorb [OF d(1,2) k d(4,5)])
    show "sz ?m ?X = ?N"
    proof (cases grown)
      case False
      then show ?thesis
        unfolding sz_def wx using foot tagsD(1) [OF d(2), of ?X ?N b] by (simp add: sz_def)
    next
      case True
      then show ?thesis
        unfolding sz_def wx by (simp add: tag_word [OF small])
    qed
    show "pf ?m ?X = pf (nvm_data s) ?X"
      by (simp add: pf_def wx tag_word [OF small])
    show "ptr ?m (?X + ?N - 4) = ?N"
    proof (cases grown)
      case False
      then show ?thesis
        unfolding ptr_def wf using foot by (simp add: ptr_def)
    next
      case True
      then show ?thesis
        unfolding ptr_def wf by simp
    qed
    show "pf ?m (?X + ?N)" "sz ?m (?X + ?N) = sz (nvm_data s) (?X + ?N)"
      by (simp_all add: pf_def sz_def we set_tag_word kFreeMask_ne_0)
    show "rd32 ?m a = rd32 (nvm_data s) a"
      if "tag_cell B a" "a \<noteq> ?X" "a \<noteq> ?X + ?N - 4" "a \<noteq> ?X + ?N" for a
      using that w [OF tag_cell_mod4(1) [OF d(1) that(1)]] by presburger
  qed
qed

text \<open>Payloads: everything written lies in blocks that are free once the block itself is.\<close>

lemma free_kept:
  assumes mg: "merged s B D x n" and B1: "geom B1" "kept B1 m (nvm_data s)"
    and cells: "meta B1 (unat x)" "meta B1 (unat x + 4)" "meta B1 (unat x + 8)"
      "meta B1 (unat x + unat n - 4)" "meta B1 (unat x + unat n)"
    and free: "\<And>y j. B y = Some (j, True) \<Longrightarrow> B1 y = Some (j, True)"
  shows "kept B1 m (nvm_data (free_state s x n grown))"
proof -
  note d = mergedD [OF mg]
  define h where "h = rd32 (nvm_data (retag s x n grown)) (4 * cls (unat n))"
  note xc = block_cells [OF d(7,8)] and gx = geomD [OF d(7,8)]
  have c: "0 < cls (unat n)" "cls (unat n) < num_lists"
    using cls_pos [OF gx(3)] cls_less by auto
  have lh: "link_cell B1 (unat h + 4)" if "h \<noteq> 0"
    using retag_head(2) [OF mg h_def that] free link_cells(1) by blast
  note lo = link_cellD(1,3) [OF B1(1) lh] and lc = link_cellD(1,3) [OF B1(1) link_cells(3) [OF c]]
  have "kept B1 m (nvm_data (retag s x n grown))"
    unfolding retag_def Let_def
    using kept_step [OF kept_step [OF B1(2,1) cells(1) xc(6)] B1(1) cells(4) xc(10)] B1(2)
    by (intro kept_step [OF _ B1(1) cells(5) xc(9)]) simp
  then have "kept B1 m (nvm_data (put (put (put (retag s x n grown) (4 * cls (unat n)) x) (unat x + 4) 0) (unat x + 8) h))"
    by (intro kept_step [OF _ B1(1)] cells xc lc)
  then show ?thesis
    unfolding free_state_def push_front_def Let_def h_def [symmetric]
    using kept_step [OF _ B1(1) lo(2,1)] by auto
qed

lemma free_exec:
  assumes mg: "merged s B D x n"
  shows "do {
     s \<leftarrow> (if grown
          then do { tag \<leftarrow> ReadThePrevFreeTag s x;
                    s \<leftarrow> Write32 s x (tag OR n);
                    Write32 s (x + n - 4) n }
          else Some s);
     s \<leftarrow> SetTheFreeTag s x n;
     free_list \<leftarrow> GetFreeListByBlockSize n;
     head \<leftarrow> Read32 s free_list;
     s \<leftarrow> Write32 s free_list x;
     s \<leftarrow> Write32 s (x + 4) 0;
     s \<leftarrow> Write32 s (x + 8) head;
     if head \<noteq> 0 then Write32 s (head + 4) x else Some s
   } = Some (free_state s x n grown)"
proof -
  note d = mergedD [OF mg]
  note xc = block_cells [OF d(7,8)] and gx = geomD [OF d(7,8)] and ux = unat_end [OF d(7,8)]
  obtain fl where fl: "GetFreeListByBlockSize n = Some fl" "unat fl = 4 * cls (unat n)"
    using GetFreeListByBlockSize_cls [of n] gx(3) by auto
  note hc = head_cell [OF cls_pos [OF gx(3)] cls_less]
  define h where "h = rd32 (nvm_data (retag s x n grown)) (4 * cls (unat n))"
  have wh: "(if h \<noteq> 0 then Write32 s' (h + 4) x else Some s')
      = Some (if h \<noteq> 0 then put s' (unat h + 4) x else s')" for s'
    using Write_list_head [OF d(1) _ retag_head(2) [OF mg h_def]] by simp
  have r: "(if grown
          then do { tag \<leftarrow> ReadThePrevFreeTag s x; s \<leftarrow> Write32 s x (tag OR n); Write32 s (x + n - 4) n }
          else Some s) = Some (if grown then put (put s (unat x) ((rd32 (nvm_data s) (unat x) AND kFreeMask) OR n))
                 (unat x + unat n - 4) n
               else s)"
    by (simp add: ReadThePrevFreeTag_def Read32_off Write32_off xc ux)
  have st: "SetTheFreeTag s' x n = Some (put s' (unat x + unat n) (rd32 (nvm_data s') (unat x + unat n) OR kFreeMask))" for s'
    by (simp add: SetTheFreeTag_def Read32_off Write32_off xc ux)
  show ?thesis
    unfolding r st bind.bind_lunit free_state_def push_front_def Let_def
    unfolding retag_def [unfolded Let_def, symmetric]
    by (simp add: fl Read32_off Write32_off hc xc ux wh flip: h_def split del: if_split cong del: if_weak_cong)
qed

section \<open>Coalescing\<close>

text \<open>
  The neighbours \<^verbatim>\<open>FreeBlock\<close> merges: a free block that ends where the freed one starts, when
  neither of the two is above \<^verbatim>\<open>kMaxBlockSize\<close>; then a free block that starts where it ends, when
  neither this one nor what the first merge left is. \<^term>\<open>merge_extent B a n x q\<close>: of the block of
  \<^term>\<open>n\<close> bytes at \<^term>\<open>a\<close>, the merged block starts at \<^term>\<open>x\<close> and takes in \<^term>\<open>q\<close> bytes after it.
\<close>

definition merges_left :: "blocks \<Rightarrow> nat \<Rightarrow> nat \<Rightarrow> nat \<Rightarrow> nat \<Rightarrow> bool" where
  "merges_left B a n p k \<longleftrightarrow> B p = Some (k, True) \<and> p + k = a \<and> n \<le> unat kMaxBlockSize \<and> k \<le> unat kMaxBlockSize"

definition merges_right :: "blocks \<Rightarrow> nat \<Rightarrow> nat \<Rightarrow> nat \<Rightarrow> bool" where
  "merges_right B e n q \<longleftrightarrow> B e = Some (q, True) \<and> n \<le> unat kMaxBlockSize \<and> q \<le> unat kMaxBlockSize"

definition merge_extent :: "blocks \<Rightarrow> nat \<Rightarrow> nat \<Rightarrow> nat \<Rightarrow> nat \<Rightarrow> bool" where
  "merge_extent B a n x q \<longleftrightarrow>
     (merges_left B a n x (a - x) \<or> x = a \<and> (\<nexists>p k. merges_left B a n p k))
     \<and> (merges_right B (a + n) (a + n - x) q \<or> q = 0 \<and> (\<nexists>k. merges_right B (a + n) (a + n - x) k))"

lemma prev_tag:
  assumes "geom B" "tags m B" "B x = Some (n, f)" "pf m x"
  obtains p k where "B p = Some (k, True)" "p + k = x" "ptr m (x - 4) = k"
proof -
  have "x \<noteq> heap_start"
    using assms(2,4) by (auto simp: tags_def)
  then obtain p k g where p: "B p = Some (k, g)" "p + k = x"
    using geomD(7) [OF assms(1,3)] by blast
  then have g
    using tagsD(2) [OF assms(2) p(1)] assms(4) by simp
  then show ?thesis
    using that p tagsD(3) [OF assms(2) p(1)] by auto
qed

lemma coalesce_prev:
  assumes inv: "heap_inv s B {}" and x: "B (unat x) = Some (unat n, False)"
    and ps: "ps = rd32 (nvm_data s) (unat x - 4)"
  shows "\<exists>t s1 x1 n1 D. ReadThePrevFreeTag s x = Some t \<and>
    (if t \<noteq> 0 \<and> n \<le> kMaxBlockSize \<and> ps \<le> kMaxBlockSize
     then do { s \<leftarrow> RemoveBlock s (x - ps) ps; Some (s, x - ps, n + ps) } else Some (s, x, n)) = Some (s1, x1, n1)
    \<and> heap_inv s1 B D \<and> kept B (nvm_data s) (nvm_data s1)
    \<and> (s1 = s \<and> x1 = x \<and> n1 = n \<and> D = {} \<and> (\<nexists>p k. merges_left B (unat x) (unat n) p k)
       \<or> merges_left B (unat x) (unat n) (unat x1) (unat ps) \<and> unat n1 = unat ps + unat n \<and> D = {unat x1})"
proof -
  note d = heap_invD [OF inv]
  have t: "ReadThePrevFreeTag s x = Some (rd32 (nvm_data s) (unat x) AND kFreeMask)"
    using block_cells(6) [OF d(1) x] by (simp add: ReadThePrevFreeTag_def Read32_off)
  show ?thesis
  proof (cases "pf (nvm_data s) (unat x) \<and> n \<le> kMaxBlockSize \<and> ps \<le> kMaxBlockSize")
    case True
    obtain p k where p: "B p = Some (k, True)" "p + k = unat x" "ptr (nvm_data s) (unat x - 4) = k"
      using prev_tag [OF d(1,2) x] True by blast
    have k: "unat ps = k"
      using p(3) by (simp add: ps ptr_def)
    have "ps \<le> x"
      using p(2) k by (simp add: word_le_nat_alt)
    then have x1: "unat (x - ps) = p"
      using p(2) k by (simp add: unat_sub_u32)
    have n1: "unat (n + ps) = k + unat n"
      using True k by (subst unat_add_u32) (simp_all add: word_le_nat_alt kMaxBlockSize_def)
    obtain s1 where s1: "RemoveBlock s (x - ps) ps = Some s1" "heap_inv s1 B {p}" "kept B (nvm_data s) (nvm_data s1)"
      using RemoveBlock_correct [OF inv, of "x - ps" ps] p(1) by (auto simp: x1 k)
    show ?thesis
      using t True s1 x1 n1 p k
      by (intro exI [of _ "rd32 (nvm_data s) (unat x) AND kFreeMask"] exI [of _ s1] exI [of _ "x - ps"]
          exI [of _ "n + ps"] exI [of _ "{p}"]) (simp add: pf_def merges_left_def word_le_nat_alt)
  next
    case False
    moreover have "pf (nvm_data s) (unat x) \<and> unat ps = k" if "B p = Some (k, True)" "p + k = unat x" for p k
      using tagsD(2,3) [OF d(2) that(1)] that(2) by (simp add: ps ptr_def)
    ultimately have "\<nexists>p k. merges_left B (unat x) (unat n) p k"
      unfolding merges_left_def word_le_nat_alt by blast
    with False show ?thesis
      using t inv
      by (intro exI [of _ "rd32 (nvm_data s) (unat x) AND kFreeMask"] exI [of _ s] exI [of _ x]
          exI [of _ n] exI [of _ "{}"]) (auto simp: pf_def)
  qed
qed

lemma coalesce_next:
  assumes inv: "heap_inv s B D" and D: "unat y \<notin> D" and n: "unat n \<le> heap_end"
    and y: "unat y = heap_end \<and> m = 0 \<and> \<not> pf (nvm_data s) heap_end \<or> (\<exists>f. B (unat y) = Some (unat m, f))"
  shows "\<exists>t s1 n1 D1. ReadTheFreeTag s y m = Some t \<and>
    (if t \<noteq> 0 \<and> n \<le> kMaxBlockSize \<and> m \<le> kMaxBlockSize
     then do { s \<leftarrow> RemoveBlock s y m; Some (s, n + m) } else Some (s, n)) = Some (s1, n1)
    \<and> heap_inv s1 B D1 \<and> kept B (nvm_data s) (nvm_data s1)
    \<and> (s1 = s \<and> n1 = n \<and> D1 = D \<and> (\<nexists>k. merges_right B (unat y) (unat n) k)
       \<or> merges_right B (unat y) (unat n) (unat m) \<and> unat n1 = unat n + unat m \<and> D1 = insert (unat y) D)"
proof -
  note d = heap_invD [OF inv]
  have "\<exists>t. ReadTheFreeTag s y m = Some t \<and> (t \<noteq> 0 \<longrightarrow> B (unat y) = Some (unat m, True))
      \<and> (t = 0 \<longrightarrow> (\<forall>k. B (unat y) \<noteq> Some (k, True))) \<and> (\<forall>k. B (unat y) = Some (k, True) \<longrightarrow> k = unat m)"
    using y
  proof
    assume e: "unat y = heap_end \<and> m = 0 \<and> \<not> pf (nvm_data s) heap_end"
    have "B heap_end \<noteq> Some (k, True)" for k
      using geomD(3,5) [OF d(1), of heap_end k True] by auto
    with e show ?thesis
      by (simp add: ReadTheFreeTag_def Read32_off heap_off_def heap_end_def pf_def)
  next
    assume "\<exists>f. B (unat y) = Some (unat m, f)"
    then show ?thesis
      using ReadTheFreeTag_block [OF d(1,2)] by fastforce
  qed
  then obtain t where t: "ReadTheFreeTag s y m = Some t" "t \<noteq> 0 \<Longrightarrow> B (unat y) = Some (unat m, True)"
    "\<And>k. B (unat y) = Some (k, True) \<Longrightarrow> t \<noteq> 0 \<and> k = unat m"
    by blast
  show ?thesis
  proof (cases "t \<noteq> 0 \<and> n \<le> kMaxBlockSize \<and> m \<le> kMaxBlockSize")
    case True
    obtain s1 where s1: "RemoveBlock s y m = Some s1" "heap_inv s1 B (insert (unat y) D)"
      "kept B (nvm_data s) (nvm_data s1)"
      using RemoveBlock_correct [OF inv t(2) D] True by blast
    have "unat (n + m) = unat n + unat m"
      using True by (subst unat_add_u32) (simp_all add: word_le_nat_alt kMaxBlockSize_def)
    then show ?thesis
      using t(1,2) True s1 by (intro exI [of _ t] exI [of _ s1] exI [of _ "n + m"] exI [of _ "insert (unat y) D"])
        (simp add: merges_right_def word_le_nat_alt)
  next
    case False
    have nr: "\<nexists>k. merges_right B (unat y) (unat n) k"
      using False t(3) unfolding merges_right_def word_le_nat_alt by blast
    from False show ?thesis
      using t(1) inv nr by (intro exI [of _ t] exI [of _ s] exI [of _ n] exI [of _ D]) auto
  qed
qed

section \<open>FreeBlock and Free\<close>

text \<open>
  What deallocation does to the blocks: the other allocated ones stay, and the freed one and the
  neighbours merged with it become one free block; no other block changes.
\<close>

definition takes_back :: "blocks \<Rightarrow> nat \<Rightarrow> nat \<Rightarrow> blocks \<Rightarrow> bool" where
  "takes_back B a k B' \<longleftrightarrow>
     (\<forall>b n. B' b = Some (n, False) \<longleftrightarrow> B b = Some (n, False) \<and> b \<noteq> a)
     \<and> (\<exists>x q. merge_extent B a k x q \<and> B' = absorb B x (a + k - x + q))"

text \<open>The block between its coalesced neighbours, as the two steps leave it.\<close>

definition swallowed :: "blocks \<Rightarrow> u32 \<Rightarrow> u32 \<Rightarrow> u32 \<Rightarrow> u32 \<Rightarrow> nat set \<Rightarrow> bool" where
  "swallowed B x n x' n' D \<longleftrightarrow>
     (x' = x \<and> n' = n \<and> D = {})
     \<or> (\<exists>p. B (unat x') = Some (p, True) \<and> unat x' + p = unat x \<and> unat n' = p + unat n \<and> D = {unat x'})
     \<or> (\<exists>q. x' = x \<and> B (unat x + unat n) = Some (q, True) \<and> unat n' = unat n + q \<and> D = {unat x + unat n})
     \<or> (\<exists>p q. B (unat x') = Some (p, True) \<and> unat x' + p = unat x \<and> B (unat x + unat n) = Some (q, True)
          \<and> unat n' = p + unat n + q \<and> D = {unat x', unat x + unat n})"

lemma swallowed_range:
  assumes g: "geom B" and x: "B (unat x) = Some (unat n, False)" and sw: "swallowed B x n x' n' D"
  shows "boundary B (unat x' + unat n')" "unat x' \<le> unat x" "unat x + unat n \<le> unat x' + unat n'"
    "\<exists>k f. B (unat x') = Some (k, f)" "\<And>y. y \<in> D \<Longrightarrow> unat x' \<le> y \<and> y < unat x' + unat n'"
    "\<And>y k f. B y = Some (k, f) \<Longrightarrow> unat x' \<le> y \<Longrightarrow> y < unat x' + unat n' \<Longrightarrow> y = unat x \<or> f \<and> y \<in> D"
    "n' = n \<Longrightarrow> x' = x \<and> D = {}"
proof -
  note gx = geomD [OF g x] and bx = boundary_next [OF g x]
  have q: "boundary B (unat x + unat n + q) \<and> 32 \<le> q \<and>
      (\<forall>y k f. B y = Some (k, f) \<longrightarrow> unat x + unat n \<le> y \<longrightarrow> y < unat x + unat n + q \<longrightarrow> y = unat x + unat n)"
    if "B (unat x + unat n) = Some (q, True)" for q
    using boundary_next [OF g that] geomD(3) [OF g that] geom_disjoint [OF g that] by fastforce
  have p: "32 \<le> p \<and> (\<forall>y k f. B y = Some (k, f) \<longrightarrow> z \<le> y \<longrightarrow> y < unat x \<longrightarrow> y = z)"
    if "B z = Some (p, True)" "z + p = unat x" for z p
    using geomD(3) [OF g that(1)] geom_disjoint [OF g that(1)] that(2) by fastforce
  have mid: "y = unat x" if "B y = Some (k, f)" "unat x \<le> y" "y < unat x + unat n" for y k f
    using geom_disjoint [OF g x that(1)] that(2,3) by fastforce
  show "boundary B (unat x' + unat n')"
  proof -
    have "unat x' + unat n' = unat x + unat n
      \<or> (\<exists>q. B (unat x + unat n) = Some (q, True) \<and> unat x' + unat n' = unat x + unat n + q)"
      using sw unfolding swallowed_def by (elim disjE exE conjE) auto
    then show ?thesis
      using bx q by metis
  qed
  show "unat x' \<le> unat x" "unat x + unat n \<le> unat x' + unat n'" "\<exists>k f. B (unat x') = Some (k, f)"
    using sw x unfolding swallowed_def by (elim disjE exE conjE; fastforce)+
  show "\<And>y. y \<in> D \<Longrightarrow> unat x' \<le> y \<and> y < unat x' + unat n'"
    using sw p q gx(3) unfolding swallowed_def by (elim disjE exE conjE) fastforce+
  show "n' = n \<Longrightarrow> x' = x \<and> D = {}"
    using sw p q unfolding swallowed_def by (elim disjE exE conjE) fastforce+
  fix y k f
  assume y: "B y = Some (k, f)" "unat x' \<le> y" "y < unat x' + unat n'"
  consider "y < unat x" | "unat x \<le> y" "y < unat x + unat n" | "unat x + unat n \<le> y"
    by linarith
  then show "y = unat x \<or> f \<and> y \<in> D"
  proof cases
    case 1
    with sw y p show ?thesis
      unfolding swallowed_def by (elim disjE exE conjE) fastforce+
  next
    case 2
    with mid y(1) show ?thesis by blast
  next
    case 3
    with sw y q gx(3) show ?thesis
      unfolding swallowed_def by (elim disjE exE conjE) fastforce+
  qed
qed

lemma merged_swallowed:
  assumes inv: "heap_inv s B D" and x: "B (unat x) = Some (unat n, False)" and sw: "swallowed B x n x' n' D"
  shows "merged s B D x' n'"
proof -
  note g = heap_invD(1) [OF inv] and r = swallowed_range [OF heap_invD(1) [OF inv] x sw]
  have "0 < unat n'"
    using r(2,3) geomD(3) [OF g x] by linarith
  then show ?thesis
    unfolding merged_def using inv r(1,4,5) r(6) x by fastforce
qed

lemma takes_back_swallowed:
  assumes g: "geom B" and x: "B (unat x) = Some (unat n, False)" and sw: "swallowed B x n x' n' D"
    and me: "merge_extent B (unat x) (unat n) (unat x') (unat x' + unat n' - (unat x + unat n))"
  shows "takes_back B (unat x) (unat n) (absorb B (unat x') (unat n'))"
proof -
  note r = swallowed_range [OF g x sw] and gx = geomD [OF g x]
  have "absorb B (unat x') (unat n') b = Some (k, False) \<longleftrightarrow> B b = Some (k, False) \<and> b \<noteq> unat x" for b k
  proof
    assume "absorb B (unat x') (unat n') b = Some (k, False)"
    then have b: "b \<noteq> unat x'" "\<not> (unat x' < b \<and> b < unat x' + unat n')" "B b = Some (k, False)"
      by (simp_all add: absorb_Some_iff)
    moreover have "b \<noteq> unat x"
      using b(1,2) r(2,3) gx(3) by linarith
    ultimately show "B b = Some (k, False) \<and> b \<noteq> unat x"
      by blast
  next
    assume b: "B b = Some (k, False) \<and> b \<noteq> unat x"
    then have "\<not> (unat x' \<le> b \<and> b < unat x' + unat n')"
      using r(6) [of b k False] by blast
    moreover have "0 < unat n'"
      using r(2,3) gx(3) by linarith
    ultimately show "absorb B (unat x') (unat n') b = Some (k, False)"
      using b by (auto simp: absorb_Some_iff)
  qed
  moreover have "unat n' = unat x + unat n - unat x' + (unat x' + unat n' - (unat x + unat n))"
    using r(2,3) by linarith
  ultimately show ?thesis
    unfolding takes_back_def using me by metis
qed

lemma swallowed_kept:
  assumes g: "geom B" and x: "B (unat x) = Some (unat n, False)" and sw: "swallowed B x n x' n' D"
    and mg: "merged s B D x' n'" and k: "kept (B(unat x \<mapsto> (unat n, True))) m (nvm_data s)"
  shows "kept (B(unat x \<mapsto> (unat n, True))) m (nvm_data (free_state s x' n' grown))"
proof -
  let ?B = "B(unat x \<mapsto> (unat n, True))"
  have g': "geom ?B"
    by (rule geom_flag [OF g x])
  obtain j where j: "?B (unat x') = Some (j, True)"
  proof (cases "unat x' = unat x")
    case False
    then show ?thesis
      using that sw unfolding swallowed_def by (elim disjE exE conjE) auto
  qed (use that in auto)
  have ends: "unat x + unat n = unat x' + unat n'
      \<or> (\<exists>q. B (unat x + unat n) = Some (q, True) \<and> unat x + unat n + q = unat x' + unat n')"
    using sw unfolding swallowed_def by (elim disjE exE conjE) auto
  obtain z i where z: "?B z = Some (i, True)" "z + i = unat x' + unat n'"
  proof (cases "unat x + unat n = unat x' + unat n'")
    case True
    then show ?thesis
      using that [of "unat x" "unat n"] by simp
  next
    case False
    then obtain q where q: "B (unat x + unat n) = Some (q, True)" "unat x + unat n + q = unat x' + unat n'"
      using ends by blast
    then show ?thesis
      using that [of "unat x + unat n" q] geomD(3) [OF g x] by simp
  qed
  show ?thesis
  proof (rule free_kept [OF mg g' k])
    show "meta ?B (unat x')"
      using j by (intro meta_boundary) (auto simp: boundary_def)
    show "meta ?B (unat x' + 4)" "meta ?B (unat x' + 8)"
      by (rule meta_cells [OF g' j])+
    show "meta ?B (unat x' + unat n' - 4)"
      using meta_cells(3) [OF g' z(1)] unfolding z(2) .
    show "meta ?B (unat x' + unat n')"
      using boundary_next [OF g' z(1)] unfolding z(2) by (rule meta_boundary)
  qed (use x in auto)
qed

lemma FreeBlock_exec:
  fixes x n :: u32
  assumes inv: "heap_inv s B {}" and x: "B (unat x) = Some (unat n, False)"
  shows "\<exists>s' x' n' D. FreeBlock s x = Some (free_state s' x' n' (n' \<noteq> n)) \<and> heap_inv s' B D
    \<and> swallowed B x n x' n' D \<and> merge_extent B (unat x) (unat n) (unat x') (unat x' + unat n' - (unat x + unat n))
    \<and> kept B (nvm_data s) (nvm_data s') \<and> (n' = n \<longrightarrow> s' = s)"
proof -
  note d = heap_invD [OF inv] and gx = geomD [OF heap_invD(1) [OF inv] x] and ux = unat_end [OF heap_invD(1) [OF inv] x]
  note xc = block_cells [OF d(1) x]
  define ps where "ps = rd32 (nvm_data s) (unat x - 4)"
  define m where "m = rd32 (nvm_data s) (unat x + unat n) AND NOT kFreeMask"
  have nr: "ReadTheSizeTag s x = Some n"
    using tagsD(1) [OF d(2) x] xc(6) by (simp add: ReadTheSizeTag_def Read32_off sz_def word_unat_eq_iff)
  have "4 \<le> x"
    using gx(1) by (simp add: word_le_nat_alt heap_start_def)
  then have psr: "Read32 s (x - 4) = Some ps"
    using gx(1,5) by (simp add: ps_def Read32_off unat_sub_u32 heap_off_def heap_start_def)
  have mr: "ReadTheSizeTag s (x + n) = Some m"
    using xc(9) by (simp add: ReadTheSizeTag_def Read32_off ux m_def)
  obtain t1 s1 x1 n1 D1 where p1: "ReadThePrevFreeTag s x = Some t1"
    "(if t1 \<noteq> 0 \<and> n \<le> kMaxBlockSize \<and> ps \<le> kMaxBlockSize
     then do { s \<leftarrow> RemoveBlock s (x - ps) ps; Some (s, x - ps, n + ps) } else Some (s, x, n)) = Some (s1, x1, n1)"
    and inv1: "heap_inv s1 B D1" and k1: "kept B (nvm_data s) (nvm_data s1)"
    and m1: "s1 = s \<and> x1 = x \<and> n1 = n \<and> D1 = {} \<and> (\<nexists>p k. merges_left B (unat x) (unat n) p k)
       \<or> merges_left B (unat x) (unat n) (unat x1) (unat ps) \<and> unat n1 = unat ps + unat n \<and> D1 = {unat x1}"
    using coalesce_prev [OF inv x ps_def] by (elim exE conjE) (rule that)
  then have c1: "s1 = s \<and> x1 = x \<and> n1 = n \<and> D1 = {}
       \<or> B (unat x1) = Some (unat ps, True) \<and> unat x1 + unat ps = unat x \<and> unat n1 = unat ps + unat n \<and> D1 = {unat x1}"
    by (auto simp: merges_left_def)
  have e1: "unat x1 + unat n1 = unat x + unat n"
    using c1 by auto
  have y: "unat (x + n) = heap_end \<and> m = 0 \<and> \<not> pf (nvm_data s1) heap_end \<or> (\<exists>f. B (unat (x + n)) = Some (unat m, f))"
    using gx(6)
  proof
    assume "unat x + unat n = heap_end"
    moreover from this have "m = 0" "\<not> pf (nvm_data s1) heap_end"
      using d(2) tagsD(2) [OF heap_invD(2) [OF inv1] x] by (simp_all add: m_def tags_def sz_def unat_eq_zero)
    ultimately show ?thesis
      by (simp add: ux)
  next
    assume "unat x + unat n \<in> dom B"
    then obtain k f where "B (unat x + unat n) = Some (k, f)"
      by auto
    with tagsD(1) [OF d(2) this] show ?thesis
      by (simp add: ux m_def sz_def)
  qed
  have "unat (x + n) \<notin> D1" "unat n1 \<le> heap_end"
    using c1 gx(3,5) e1 by (auto simp: ux)
  from coalesce_next [OF inv1 this y] obtain t2 s2 n2 D2 where p2: "ReadTheFreeTag s1 (x + n) m = Some t2"
    "(if t2 \<noteq> 0 \<and> n1 \<le> kMaxBlockSize \<and> m \<le> kMaxBlockSize
     then do { s \<leftarrow> RemoveBlock s1 (x + n) m; Some (s, n1 + m) } else Some (s1, n1)) = Some (s2, n2)"
    and inv2: "heap_inv s2 B D2" and k2: "kept B (nvm_data s1) (nvm_data s2)"
    and m2: "s2 = s1 \<and> n2 = n1 \<and> D2 = D1 \<and> (\<nexists>k. merges_right B (unat (x + n)) (unat n1) k)
       \<or> merges_right B (unat (x + n)) (unat n1) (unat m) \<and> unat n2 = unat n1 + unat m \<and> D2 = insert (unat (x + n)) D1"
    by (elim exE conjE) (rule that)
  then have c2: "s2 = s1 \<and> n2 = n1 \<and> D2 = D1
       \<or> B (unat (x + n)) = Some (unat m, True) \<and> unat n2 = unat n1 + unat m \<and> D2 = insert (unat (x + n)) D1"
    by (auto simp: merges_right_def)
  have me: "merge_extent B (unat x) (unat n) (unat x1) (unat x1 + unat n2 - (unat x + unat n))"
  proof -
    have l: "merges_left B (unat x) (unat n) (unat x1) (unat x - unat x1)
        \<or> unat x1 = unat x \<and> (\<nexists>p k. merges_left B (unat x) (unat n) p k)"
      using m1 by (auto simp: merges_left_def)
    have "unat n1 = unat x + unat n - unat x1"
      using e1 by linarith
    moreover have "unat x1 + unat n2 - (unat x + unat n) = 0" if "n2 = n1"
      using e1 that by simp
    moreover have "unat x1 + unat n2 - (unat x + unat n) = unat m" if "unat n2 = unat n1 + unat m"
      using e1 that by linarith
    ultimately show ?thesis
      using l m2 unfolding merge_extent_def ux by metis
  qed
  have sw: "swallowed B x n x1 n2 D2"
    using c1 c2 unfolding ux swallowed_def by (elim disjE conjE) (auto simp: insert_commute)
  note mg = merged_swallowed [OF inv2 x sw] and r = swallowed_range [OF d(1) x sw]
  have "FreeBlock s x = Some (free_state s2 x1 n2 (n2 \<noteq> n))"
    using free_exec [OF mg, of "n2 \<noteq> n"] unfolding FreeBlock_def Let_def
    by (simp only: nr psr mr p1 p2 bind.bind_lunit prod.case)
  moreover have "n2 = n \<longrightarrow> s2 = s"
    using r(7) c1 c2 by auto
  ultimately show ?thesis
    using inv2 sw me kept_trans [OF k1 k2] by blast
qed

lemma FreeBlock_correct:
  fixes x n :: u32
  assumes inv: "heap_inv s B {}" and x: "B (unat x) = Some (unat n, False)"
    and foot: "ptr (nvm_data s) (unat x + unat n - 4) = unat n"
  shows "\<exists>s' B'. FreeBlock s x = Some s' \<and> heap_inv s' B' {} \<and> takes_back B (unat x) (unat n) B'
    \<and> kept (B(unat x \<mapsto> (unat n, True))) (nvm_data s) (nvm_data s')"
proof -
  note g = heap_invD(1) [OF inv]
  obtain s2 x' n' D where exec: "FreeBlock s x = Some (free_state s2 x' n' (n' \<noteq> n))"
    and inv2: "heap_inv s2 B D" and sw: "swallowed B x n x' n' D"
    and me: "merge_extent B (unat x) (unat n) (unat x') (unat x' + unat n' - (unat x + unat n))"
    and k2: "kept B (nvm_data s) (nvm_data s2)" and same: "n' = n \<longrightarrow> s2 = s"
    using FreeBlock_exec [OF inv x] by (elim exE conjE) (rule that)
  note mg = merged_swallowed [OF inv2 x sw] and r = swallowed_range [OF g x sw]
  have "tags (nvm_data (free_state s2 x' n' (n' \<noteq> n))) (absorb B (unat x') (unat n'))"
    using r(7) same foot x by (intro free_tags [OF mg, where b = False]) simp
  then have inv': "heap_inv (free_state s2 x' n' (n' \<noteq> n)) (absorb B (unat x') (unat n')) {}"
    using mergedD(7) [OF mg] free_links [OF mg] by (simp add: heap_inv_def)
  have "kept (B(unat x \<mapsto> (unat n, True))) (nvm_data s) (nvm_data s2)"
    using k2 unfolding kept_def by (auto split: if_splits)
  from swallowed_kept [OF g x sw mg this] exec inv' takes_back_swallowed [OF g x sw me] show ?thesis
    by blast
qed

end
