(* ===== verification/Allocator_Correct.thy ===== *)
theory Allocator_Correct
  imports Allocator_Free
begin

text \<open>
  The theorems about the allocator's interface: \<^verbatim>\<open>Format\<close> establishes the heap invariant,
  \<^verbatim>\<open>Alloc\<close> and \<^verbatim>\<open>Free\<close> keep it, and the three situations in which the code does not do
  what it means to: an exact fit without a successor, a 16-byte block, and a footer that the
  payload has overwritten.
\<close>

section \<open>Format\<close>

definition formatted :: "Allocator \<Rightarrow> Allocator" where
  "formatted s =
     (let s0 = (set_modifications s [])\<lparr>nvm_data := (\<lambda>i. if i < unat kSize then 0 else nvm_data s i)\<rparr>
      in put (put (put (put s0 288 292) 292 67108560) 67108848 67108560) 67108852 kFreeMask)"

lemma rd32_zero: "(\<And>i. a \<le> i \<Longrightarrow> i < a + 4 \<Longrightarrow> m i = 0) \<Longrightarrow> rd32 m a = 0"
proof -
  assume "\<And>i. a \<le> i \<Longrightarrow> i < a + 4 \<Longrightarrow> m i = 0"
  then have "rd32 m a = rd32 (\<lambda>_. 0) a"
    by (intro rd32_cong) simp
  also have "\<dots> = 0"
    by (rule bit_word_eqI) (simp add: rd32_def bit_word_of_le)
  finally show ?thesis .
qed

lemma formatted_words:
  assumes "a mod 4 = 0" "a + 4 \<le> 67108864"
  shows "rd32 (nvm_data (formatted s)) a =
    (if a = 67108852 then kFreeMask else if a = 67108848 then 67108560 else if a = 292 then 67108560
     else if a = 288 then 292 else 0)"
proof -
  have "rd32 (\<lambda>i. if i < 67108864 then 0 else nvm_data s i) a = 0"
    using assms(2) by (intro rd32_zero) simp
  then show ?thesis
    using assms
    by (simp add: formatted_def Let_def rd32_put heap_off_def heap_end_def kSize_def set_modifications_def)
qed

lemma Format_exec: "Format s = Some (formatted s)"
proof -
  let ?s0 = "(set_modifications s [])\<lparr>nvm_data := (\<lambda>i. if i < unat kSize then 0 else nvm_data s i)\<rparr>"
  have "rd32 (nvm_data (put (put (put ?s0 288 292) 292 67108560) 67108848 67108560)) 67108852 = 0"
    by (simp add: rd32_put heap_off_def heap_end_def kSize_def rd32_zero set_modifications_def)
  moreover have "nvm_data (set_modifications s []) = nvm_data s"
    by (simp add: set_modifications_def)
  ultimately show ?thesis
    unfolding Format_def formatted_def Let_def
    by (simp add: Write32_off Read32_off heap_off_def heap_end_def GetLastFreeList_def kNumFreeLists_def kSize_def
        kFreeMask_def SetTheFreeTag_def cong: if_cong)
qed

lemma formatted_inv: "heap_inv (formatted s) [292 \<mapsto> (67108560, True)] {}"
proof -
  let ?m = "nvm_data (formatted s)" and ?B = "[292 \<mapsto> (67108560 :: nat, True)]"
  have "geom ?B"
    by (auto simp: geom_def heap_start_def heap_end_def split: if_splits)
  moreover have "tags ?m ?B"
    by (simp add: tags_def sz_def pf_def ptr_def formatted_words heap_start_def heap_end_def kFreeMask_def)
  moreover have "links ?m (listed ?B {})"
    unfolding links_def
  proof (intro conjI allI impI)
    fix c
    assume "c < num_lists" "ptr ?m (4 * c) \<noteq> 0"
    moreover from this have "c = 72"
      by (auto simp: ptr_def formatted_words num_lists_def split: if_splits)
    ultimately show "listed ?B {} c (ptr ?m (4 * c))" "ptr ?m (ptr ?m (4 * c) + 4) = 0"
      by (simp_all add: ptr_def formatted_words listed_def cls_def)
  qed (auto simp: listed_def ptr_def formatted_words split: if_splits)
  ultimately show ?thesis
    by (simp add: heap_inv_def)
qed

text \<open>
  C5: Formatting a tablet succeeds, makes one free block of the whole heap, satisfies the heap
  invariant, leaves the hash table behind the heap alone and records exactly the four writes
  it makes after the \<^verbatim>\<open>memset\<close>.
\<close>

theorem Format_correct:
  "\<exists>s'. Format s = Some s' \<and> heap_inv s' [292 \<mapsto> (67108560, True)] {}
     \<and> (\<forall>i\<ge>67108864. nvm_data s' i = nvm_data s i)
     \<and> map des (modifications s') = [288, 292, 67108848, 67108852]"
proof -
  have "nvm_data (formatted s) i = nvm_data s i" if "i \<ge> 67108864" for i
    using that
    by (simp add: formatted_def Let_def nvm_data_put heap_off_def heap_end_def wr32_outside kSize_def
        set_modifications_def)
  moreover have "map des (modifications (formatted s)) = [288, 292, 67108848, 67108852]"
    by (simp add: formatted_def Let_def put_def log_write_def set_modifications_def)
  ultimately show ?thesis
    by (intro exI [of _ "formatted s"] conjI allI impI Format_exec formatted_inv)
qed

theorem Format_correct_witness:
  "\<exists>s'. Format \<lparr>nvm_base = 4096, nvm_data = (\<lambda>_. 7), cnt_writes = 0, modifications = []\<rparr> = Some s'
     \<and> heap_inv s' [292 \<mapsto> (67108560, True)] {} \<and> nvm_data s' 67108870 = 7"
proof -
  obtain s' where "Format \<lparr>nvm_base = 4096, nvm_data = (\<lambda>_. 7), cnt_writes = 0, modifications = []\<rparr> = Some s'"
      "heap_inv s' [292 \<mapsto> (67108560, True)] {}" "\<forall>i\<ge>67108864. nvm_data s' i = 7"
    using Format_correct [of "\<lparr>nvm_base = 4096, nvm_data = (\<lambda>_. 7), cnt_writes = 0, modifications = []\<rparr>"]
    by auto
  then show ?thesis
    by (intro exI [of _ s'] conjI) simp_all
qed

section \<open>Alloc\<close>

lemma Alloc_cases:
  assumes "heap_inv s B {}" "13 \<le> unat z" "unat z \<le> 1148"
  shows "case first_class (nvm_data s) (cls (block_size (unat z))) of
      None \<Rightarrow> Alloc s z = Some (0, s)
    | Some c \<Rightarrow>
        if sz (nvm_data s) (ptr (nvm_data s) (4 * c)) = block_size (unat z) + 16 then Alloc s z = None
        else \<exists>a s' B'. Alloc s z = Some (of_nat (a + 4), s') \<and> heap_inv s' B' {}
          \<and> hands_out B (block_size (unat z)) a B' \<and> kept B (nvm_data s) (nvm_data s')
          \<and> ptr (nvm_data s') (a + block_size (unat z) - 4) = block_size (unat z)"
proof -
  obtain k where k: "RoundupBlockSize (z + 4) = Some k" "unat k = block_size (unat z)"
    using RoundupBlockSize_exec [OF assms(3)] by blast
  note ex = Alloc_exec [OF assms(3) k, of s]
  note bs = block_size_bounds(1) [OF assms(2)] block_size_bounds(2) [OF assms(3)] block_size_bounds(3) [of "unat z"]
  note ab = AllocBlock_correct [OF assms(1), of k, unfolded k(2), OF bs]
  show ?thesis
  proof (cases "first_class (nvm_data s) (cls (block_size (unat z)))")
    case None
    then show ?thesis
      using ab by (simp add: ex)
  next
    case (Some c)
    have ne: "of_nat a \<noteq> (0 :: u32)" if ho: "hands_out B (block_size (unat z)) a B'" for a B'
    proof -
      obtain x n where "B x = Some (n, True)" "x \<le> a" "a + block_size (unat z) \<le> x + n"
        using ho unfolding hands_out_def by blast
      with geomD(1,5) [OF heap_invD(1) [OF assms(1)]] have "0 < a" "a < 2 ^ 32"
        by (fastforce simp: heap_start_def heap_end_def)+
      then show ?thesis
        using unat_of_nat_u32 [of a] by auto
    qed
    show ?thesis
      using ab Some ne by (fastforce simp: ex split: if_splits)
  qed
qed

text \<open>
  C3: On a well-formed heap, \<^verbatim>\<open>Alloc\<close> of 13 to 1148 bytes searches the classes from that of
  the rounded size. If they are all empty it returns 0 and changes nothing. If the first
  block found leaves a remainder of exactly 16 bytes it aborts. Otherwise it returns the
  payload of a fresh block inside one that was free, whose last word holds its size; the
  other allocated blocks stay allocated, the heap stays well-formed and no byte of an
  allocated payload or of the hash table changes.
\<close>

theorem Alloc_correct:
  assumes "heap_inv s B {}" "13 \<le> unat z" "unat z \<le> 1148"
  shows "case first_class (nvm_data s) (cls (block_size (unat z))) of
      None \<Rightarrow> Alloc s z = Some (0, s)
    | Some c \<Rightarrow>
        if sz (nvm_data s) (ptr (nvm_data s) (4 * c)) = block_size (unat z) + 16 then Alloc s z = None
        else \<exists>a s' B'. Alloc s z = Some (of_nat (a + 4), s') \<and> heap_inv s' B' {}
          \<and> hands_out B (block_size (unat z)) a B' \<and> kept B (nvm_data s) (nvm_data s')
          \<and> ptr (nvm_data s') (a + block_size (unat z) - 4) = block_size (unat z)"
  by (rule Alloc_cases [OF assms])

section \<open>Free\<close>

lemma Free_exec:
  assumes "heap_inv s B {}" "B a = Some (n, False)"
  shows "Free s (of_nat (a + 4)) = FreeBlock s (of_nat a)"
proof -
  note ga = geomD [OF heap_invD(1) [OF assms(1)] assms(2)]
  have "unat (of_nat (a + 4) :: u32) = a + 4"
    using ga(3,5) by (intro unat_of_nat_u32) (simp add: heap_end_def)
  then show ?thesis
    using ga(1,3,5)
    by (simp add: Free_def ensure_def word_less_nat_alt word_le_nat_alt kSize_def heap_start_def heap_end_def
        del: of_nat_add) simp
qed

lemma Free_ok:
  assumes "heap_inv s B {}" "B a = Some (n, False)" "ptr (nvm_data s) (a + n - 4) = n"
  shows "\<exists>s' B'. Free s (of_nat (a + 4)) = Some s' \<and> heap_inv s' B' {} \<and> takes_back B a n B'
    \<and> kept (B(a \<mapsto> (n, True))) (nvm_data s) (nvm_data s')"
proof -
  note ga = geomD [OF heap_invD(1) [OF assms(1)] assms(2)]
  have u: "unat (of_nat a :: u32) = a" "unat (of_nat n :: u32) = n"
    using ga(3,5) by (intro unat_of_nat_u32; simp add: heap_end_def)+
  show ?thesis
    using FreeBlock_correct [OF assms(1), of "of_nat a" "of_nat n"] assms(2,3)
    unfolding Free_exec [OF assms(1,2)] by (simp only: u)
qed


section \<open>Where the code goes wrong\<close>

text \<open>
  C6: No request of at most 12 bytes is ever served: its 16-byte class is the list at offset 0,
  which the accessors refuse. \<^verbatim>\<open>Alloc\<close> aborts in every state.
\<close>

theorem Alloc_tiny_aborts:
  assumes "unat z \<le> 12"
  shows "Alloc s z = None"
proof -
  have z19: "unat (z + 19) = unat z + 19"
    using assms by (subst unat_add_u32) simp_all
  have "unat ((z + 19) div 16) = 1"
    using assms by (simp add: unat_div z19 div_nat_eqI)
  then have "(z + 19) div 16 = 1"
    by (metis unsigned_1 word_unat_eq_iff)
  moreover have "z + 4 \<le> kMaxBlockSize"
    using assms by (simp add: word_le_nat_alt kMaxBlockSize_def unat_add_u32)
  ultimately have "RoundupBlockSize (z + 4) = Some 16"
    by (simp add: RoundupBlockSize_def add.commute)
  moreover have "AllocBlock s 16 = None"
    by (simp add: AllocBlock_def GetFreeListByBlockSize_def ensure_def kMaxBlockSize_def scan_lists.simps
        kNumFreeLists_def Read32_def Read_def)
  ultimately show ?thesis
    by (simp add: Alloc_def)
qed

theorem Alloc_tiny_aborts_witness: "unat (8 :: u32) \<le> 12 \<and> (\<forall>s. Alloc s 8 = None)"
  using Alloc_tiny_aborts [of 8] by simp

section \<open>A heap with four blocks\<close>

text \<open>
  Two free blocks of 32 and 48 bytes around an allocated block of 32 bytes, the rest of the heap
  allocated.
\<close>

definition sample_blocks :: blocks where
  "sample_blocks = [292 \<mapsto> (32, True), 324 \<mapsto> (32, False), 356 \<mapsto> (48, True), 404 \<mapsto> (67108448, False)]"

definition sample_heap :: Allocator where
  "sample_heap =
     put (put (put (put (put (put (put (put (put
       \<lparr>nvm_base = 0, nvm_data = (\<lambda>_. 0), cnt_writes = 0, modifications = []\<rparr>
       4 292) 8 356) 292 32) 320 32) 324 (kFreeMask OR 32)) 352 32) 356 48) 400 48) 404 (kFreeMask OR 67108448)"

lemma sample_words:
  assumes "a mod 4 = 0"
  shows "rd32 (nvm_data sample_heap) a =
    (if a = 404 then kFreeMask OR 67108448 else if a = 400 then 48 else if a = 356 then 48
     else if a = 352 then 32 else if a = 324 then kFreeMask OR 32 else if a = 320 then 32
     else if a = 292 then 32 else if a = 8 then 356 else if a = 4 then 292 else 0)"
  using assms by (simp add: sample_heap_def rd32_put heap_off_def heap_end_def rd32_zero)

lemma sample_Some_iff:
  "sample_blocks a = Some (n, f) \<longleftrightarrow>
     a = 292 \<and> n = 32 \<and> f \<or> a = 324 \<and> n = 32 \<and> \<not> f \<or> a = 356 \<and> n = 48 \<and> f \<or> a = 404 \<and> n = 67108448 \<and> \<not> f"
  by (auto simp: sample_blocks_def)

lemma sample_listed: "listed sample_blocks {} c x \<longleftrightarrow> c = 1 \<and> x = 292 \<or> c = 2 \<and> x = 356"
  by (auto simp: listed_def sample_Some_iff cls_def)

lemma sample_inv: "heap_inv sample_heap sample_blocks {}"
proof -
  have "geom sample_blocks"
  proof -
    have pred: "\<exists>p k g. sample_blocks p = Some (k, g) \<and> p + k = 324"
      "\<exists>p k g. sample_blocks p = Some (k, g) \<and> p + k = 356" "\<exists>p k g. sample_blocks p = Some (k, g) \<and> p + k = 404"
      by (rule exI [of _ 292] exI [of _ 324] exI [of _ 356], force simp: sample_Some_iff)+
    have "heap_start \<le> a \<and> a mod 16 = 4 \<and> 32 \<le> n \<and> n mod 16 = 0 \<and> a + n \<le> heap_end
        \<and> (a + n = heap_end \<or> a + n \<in> dom sample_blocks)
        \<and> (a = heap_start \<or> (\<exists>p k g. sample_blocks p = Some (k, g) \<and> p + k = a))"
      if "sample_blocks a = Some (n, f)" for a n f
      using that pred unfolding sample_Some_iff [of a]
      by (elim disjE conjE) (simp_all add: heap_start_def heap_end_def sample_blocks_def)
    moreover have "a + n \<le> a'" if "sample_blocks a = Some (n, f)" "sample_blocks a' = Some (n', f')" "a < a'"
      for a n f a' n' f'
      using that unfolding sample_Some_iff by (elim disjE conjE) simp_all
    ultimately show ?thesis
      unfolding geom_def by blast
  qed
  moreover have "tags (nvm_data sample_heap) sample_blocks"
    unfolding tags_def sample_Some_iff
    by (auto simp: sz_def pf_def ptr_def sample_words heap_start_def heap_end_def kFreeMask_def)
  moreover have "links (nvm_data sample_heap) (listed sample_blocks {})"
    unfolding links_def sample_listed
    by (auto simp: ptr_def sample_words num_lists_def split: if_splits)
  ultimately show ?thesis
    by (simp add: heap_inv_def)
qed


lemma sample_first_class: "first_class (nvm_data sample_heap) 2 = Some 2"
  by (simp add: first_class_def num_lists_def upt_conv_Cons ptr_def sample_words)

lemma sample_block_size: "block_size 44 = 48" "cls 48 = 2"
  by (simp_all add: block_size_def cls_def)

theorem Alloc_correct_witness:
  "heap_inv sample_heap sample_blocks {} \<and> (\<exists>a s' B'. Alloc sample_heap 44 = Some (of_nat (a + 4), s')
     \<and> heap_inv s' B' {} \<and> hands_out sample_blocks 48 a B' \<and> kept sample_blocks (nvm_data sample_heap) (nvm_data s')
     \<and> ptr (nvm_data s') (44 + a) = 48)"
  using Alloc_correct [OF sample_inv, of 44] sample_inv
  by (simp add: sample_block_size sample_first_class sz_def ptr_def sample_words kFreeMask_def)

text \<open>The block in the middle is merged with both neighbours: 32 + 32 + 48 bytes.\<close>

lemma sample_merge:
  assumes "takes_back sample_blocks 324 32 B'"
  shows "B' 292 = Some (112, True)"
proof -
  obtain x q where m: "merge_extent sample_blocks 324 32 x q" "B' = absorb sample_blocks x (324 + 32 - x + q)"
    using assms by (auto simp: takes_back_def)
  have l: "merges_left sample_blocks 324 32 p k \<longleftrightarrow> p = 292 \<and> k = 32" for p k
    by (auto simp: merges_left_def sample_Some_iff kMaxBlockSize_def)
  have r: "merges_right sample_blocks 356 64 k \<longleftrightarrow> k = 48" for k
    by (auto simp: merges_right_def sample_Some_iff kMaxBlockSize_def)
  have "x = 292"
    using m(1) unfolding merge_extent_def l by auto
  moreover from this have "q = 48"
    using m(1) r unfolding merge_extent_def by auto
  ultimately show ?thesis
    using m(2) by (simp add: absorb_def)
qed


section \<open>Exact fit\<close>

lemma exact_clears_class_1:
  assumes "heap_off (unat x + unat n)" "(unat x + unat n) mod 4 = 0" "heap_off (4 * cls (unat n))"
    and "ptr (nvm_data s) (unat x + 8) = 0"
  shows "ptr (nvm_data (exact_state s x n)) 4 = 0"
proof -
  have "rd32 (nvm_data s) (unat x + 8) = 0"
    using assms(4) by (simp add: ptr_def unat_eq_zero)
  then show ?thesis
    by (simp add: exact_state_def ptr_put heap_off_def heap_end_def)
qed

text \<open>
  C7: An exact fit whose block is the last of its list empties the list of the 32-byte class
  whatever it held: the code clears the predecessor field of a successor that does not
  exist, which is the word at offset 4. The blocks of that list stay free and are no longer
  found by a search.
\<close>

theorem Alloc_drops_class_1:
  assumes inv: "heap_inv s B {}" and z: "13 \<le> unat z" "unat z \<le> 1148"
    and c: "first_class (nvm_data s) (cls (block_size (unat z))) = Some c"
    and x: "x = ptr (nvm_data s) (4 * c)" "sz (nvm_data s) x = block_size (unat z)" "ptr (nvm_data s) (x + 8) = 0"
  shows "\<exists>s'. Alloc s z = Some (of_nat (x + 4), s') \<and> ptr (nvm_data s') 4 = 0"
proof -
  obtain k where k: "RoundupBlockSize (z + 4) = Some k" "unat k = block_size (unat z)"
    using RoundupBlockSize_exec [OF z(2)] by blast
  note d = heap_invD [OF inv] and fc = first_class_Some [OF c]
  note bs = block_size_bounds(1) [OF z(1)] block_size_bounds(2) [OF z(2)] block_size_bounds(3) [of "unat z"]
  define w where "w = rd32 (nvm_data s) (4 * c)"
  have X: "unat w = x"
    by (simp add: x(1) ptr_def w_def)
  have n: "k = rd32 (nvm_data s) (unat w) AND NOT kFreeMask"
    using x(2) k(2) by (simp add: sz_def word_unat_eq_iff X)
  note hd = head_of_class [OF inv fc(2,3) w_def n]
  have ab: "AllocBlock s k = Some (w, exact_state s w k)"
    using AllocBlock_body(1) [OF inv, where k = k, unfolded k(2), OF bs c w_def n] by simp
  have "Alloc s z = Some (w + 4, exact_state s w k)"
    using Alloc_exec [OF z(2) k, of s] ab hd(3) by simp
  moreover have "w + 4 = of_nat (x + 4)"
    by (simp flip: X)
  moreover have "ptr (nvm_data (exact_state s w k)) 4 = 0"
    using block_cells(4,9) [OF d(1) hd(1)] head_cell [OF cls_pos cls_less] geomD(3) [OF d(1) hd(1)] x(3)
    by (intro exact_clears_class_1) (simp_all add: X)
  ultimately show ?thesis
    by simp
qed

theorem Alloc_drops_class_1_witness:
  "ptr (nvm_data sample_heap) 4 = 292 \<and>
   (\<exists>s'. Alloc sample_heap 44 = Some (of_nat (356 + 4), s') \<and> ptr (nvm_data s') 4 = 0)"
  using Alloc_drops_class_1 [OF sample_inv, of 44 2 356]
  by (simp add: sample_block_size sample_first_class sz_def ptr_def sample_words kFreeMask_def)

section \<open>Footers\<close>

text \<open>
  C8: Freeing a block that is not merged leaves its last word as its owner left it. If the
  payload reached into that word, the freed block has a wrong footer, and no block structure
  in which it is a free block of its size satisfies the heap invariant.
\<close>

theorem Free_keeps_bad_footer:
  assumes inv: "heap_inv s B {}" and a: "B a = Some (n, False)"
    and alone: "\<forall>p k. B p = Some (k, True) \<longrightarrow> p + k \<noteq> a \<and> p \<noteq> a + n"
    and bad: "ptr (nvm_data s) (a + n - 4) \<noteq> n"
  shows "\<exists>s'. Free s (of_nat (a + 4)) = Some s' \<and> ptr (nvm_data s') (a + n - 4) \<noteq> n
    \<and> (\<forall>B' D. B' a = Some (n, True) \<longrightarrow> \<not> heap_inv s' B' D)"
proof -
  note ga = geomD [OF heap_invD(1) [OF inv] a]
  define x :: u32 where "x = of_nat a"
  define w :: u32 where "w = of_nat n"
  have u: "unat x = a" "unat w = n"
    using ga(3,5) unfolding x_def w_def by (intro unat_of_nat_u32; simp add: heap_end_def)+
  have b: "B (unat x) = Some (unat w, False)"
    using a by (simp add: u)
  obtain s2 x' n' D where ex: "FreeBlock s x = Some (free_state s2 x' n' (n' \<noteq> w))" "heap_inv s2 B D"
      "swallowed B x w x' n' D" "n' = w \<longrightarrow> s2 = s"
    using FreeBlock_exec [OF inv b] by (elim exE conjE) (rule that)
  have eq: "x' = x" "n' = w" "D = {}"
    using ex(3) alone unfolding swallowed_def u by auto
  then have mg: "merged s B {} x w" and ex': "FreeBlock s x = Some (free_state s x w False)"
    using merged_swallowed [OF ex(2) b ex(3)] ex(1,4) by simp_all
  note d = mergedD [OF mg, unfolded u]
  have "a + n - 4 \<noteq> a + n"
    using ga(3) by linarith
  then have "rd32 (nvm_data (free_state s x w False)) (a + n - 4) = rd32 (nvm_data s) (a + n - 4)"
    using free_words [OF mg, of "a + n - 4" False] retag_words [OF mg, of "a + n - 4" False]
      tag_cells(3) [OF d(7,8)] block_cells(5) [OF d(7,8)] by (simp add: u)
  then have f: "ptr (nvm_data (free_state s x w False)) (a + n - 4) \<noteq> n"
    using bad by (simp add: ptr_def)
  moreover have "\<not> heap_inv (free_state s x w False) B' D'" if "B' a = Some (n, True)" for B' D'
    using f tagsD(3) [of "nvm_data (free_state s x w False)" B' a n True] that by (auto simp: heap_inv_def)
  ultimately show ?thesis
    using Free_exec [OF inv a] ex' by (auto simp: x_def)
qed

definition full_heap :: Allocator where
  "full_heap = put \<lparr>nvm_base = 0, nvm_data = (\<lambda>_. 0), cnt_writes = 0, modifications = []\<rparr> 292 67108560"

lemma full_words: "a mod 4 = 0 \<Longrightarrow> rd32 (nvm_data full_heap) a = (if a = 292 then 67108560 else 0)"
  by (simp add: full_heap_def rd32_put heap_off_def heap_end_def rd32_zero)

lemma full_inv: "heap_inv full_heap [292 \<mapsto> (67108560, False)] {}"
proof -
  let ?m = "nvm_data full_heap" and ?B = "[292 \<mapsto> (67108560 :: nat, False)]"
  have "geom ?B"
    by (auto simp: geom_def heap_start_def heap_end_def split: if_splits)
  moreover have "tags ?m ?B"
    by (simp add: tags_def sz_def pf_def full_words heap_start_def heap_end_def kFreeMask_def)
  moreover have "links ?m (listed ?B {})"
    by (auto simp: links_def listed_def ptr_def full_words num_lists_def split: if_splits)
  ultimately show ?thesis
    by (simp add: heap_inv_def)
qed

theorem Free_keeps_bad_footer_witness:
  "\<exists>s'. Free full_heap (of_nat (292 + 4)) = Some s' \<and> ptr (nvm_data s') (292 + 67108560 - 4) \<noteq> 67108560
    \<and> (\<forall>B' D. B' 292 = Some (67108560, True) \<longrightarrow> \<not> heap_inv s' B' D)"
  by (rule Free_keeps_bad_footer [OF full_inv]) (simp_all add: ptr_def full_words)

end
