(* ===== verification/Tablet.thy ===== *)
theory Tablet
  imports Allocator_Correct
begin

text \<open>
  The tablet of \<^verbatim>\<open>src/tablet.h\<close> and \<^verbatim>\<open>src/tablet.cc\<close>: a hash table of
  \<^verbatim>\<open>kHashTableSize\<close> buckets behind the heap, each the head of a singly linked list of objects
  in allocated blocks. An object at offset \<open>p\<close> has the next object at \<open>p\<close>, the lengths of
  key and value at \<open>p + 4\<close> and \<open>p + 6\<close>, the hash at \<open>p + 8\<close> and the bytes of key and
  value from \<open>p + 16\<close>.

  The loops over a bucket follow pointers found in memory, so they are partial functions into
  \<open>option\<close>: \<^const>\<open>None\<close> is a failed assertion, an access outside the tablet, or a loop that
  does not end.
\<close>

section \<open>Requests\<close>

datatype Status = OK | ERROR | NO_MEM

datatype ReqType = PUT | ADD | GET | DEL

record Request =
  req_type :: ReqType
  key_len :: u16
  val_len :: u16
  key_hash :: u64
  req_data :: "u8 list"

definition Key :: "Request \<Rightarrow> u8 list" where
  "Key r = take (unat (key_len r)) (req_data r)"

definition Val :: "Request \<Rightarrow> u8 list" where
  "Val r = take (unat (val_len r)) (drop (unat (key_len r)) (req_data r))"

text \<open>The constructor copies key and value behind the header; the lengths are truncated to 16 bits.\<close>

definition Request_New :: "ReqType \<Rightarrow> u8 list \<Rightarrow> u8 list \<Rightarrow> u64 \<Rightarrow> Request" where
  "Request_New t k v h =
     \<lparr>req_type = t, key_len = of_nat (length k), val_len = of_nat (length v), key_hash = h, req_data = k @ v\<rparr>"

definition Request_Len :: "Request \<Rightarrow> nat" where
  "Request_Len r = 16 + unat (key_len r) + unat (val_len r)"

section \<open>Objects\<close>

definition slot_of :: "Request \<Rightarrow> u32" where
  "slot_of r = kSize + 4 * of_nat (unat (key_hash r) mod kHashTableSize)"

definition object_bytes :: "u32 \<Rightarrow> u16 \<Rightarrow> u16 \<Rightarrow> u64 \<Rightarrow> u8 list" where
  "object_bytes nx kl vl kh = le_bytes 4 nx @ le_bytes 2 kl @ le_bytes 2 vl @ le_bytes 8 kh"

definition key_matches :: "Allocator \<Rightarrow> Request \<Rightarrow> u32 \<Rightarrow> bool option" where
  "key_matches s r p = do {
     kl \<leftarrow> Read16 s (p + 4);
     if key_len r \<noteq> kl then Some False
     else do { ne \<leftarrow> Memcmp s (p + 16) (Key r); Some (\<not> ne) }
   }"

definition object_size :: "Request \<Rightarrow> u32" where
  "object_size r = 16 + ucast (key_len r) + ucast (val_len r)"

section \<open>Operations\<close>

partial_function (option) find_loop :: "Allocator \<Rightarrow> Request \<Rightarrow> u32 \<Rightarrow> u32 \<Rightarrow> (u32 \<times> u32) option" where
  "find_loop s r q p =
     (if p = 0 then Some (q, 0)
      else do {
        m \<leftarrow> key_matches s r p;
        if m then Some (q, p) else do { nx \<leftarrow> Read32 s p; find_loop s r p nx }
      })"

text \<open>The insertion at the head of a bucket, shared by \<^verbatim>\<open>Put\<close> and \<^verbatim>\<open>Add\<close>.\<close>

definition store_object :: "Allocator \<Rightarrow> Request \<Rightarrow> u32 \<Rightarrow> u32 \<Rightarrow> Allocator option" where
  "store_object s r nx q = do {
     (p, s) \<leftarrow> Alloc s (object_size r);
     ensure (p \<noteq> 0);
     s \<leftarrow> Write s p (object_bytes nx (key_len r) (val_len r) (key_hash r));
     s \<leftarrow> Memcpy_in s (p + 16) (take (unat (key_len r) + unat (val_len r)) (req_data r));
     Write32 s q p
   }"

definition Put :: "Allocator \<Rightarrow> Request \<Rightarrow> Modification list \<Rightarrow> (Status \<times> Allocator) option" where
  "Put s r ms = do {
     let s = set_modifications s ms;
     ensure (req_type r = PUT);
     let slot = slot_of r;
     head \<leftarrow> Read32 s slot;
     (q, p) \<leftarrow> find_loop s r slot head;
     if p = 0 then do { s \<leftarrow> store_object s r head slot; Some (OK, s) }
     else do {
       vl \<leftarrow> Read16 s (p + 6);
       if val_len r < vl
       then do {
         s \<leftarrow> Write s (p + 6) (le_bytes 2 (val_len r));
         s \<leftarrow> Memcpy_in s (p + 16 + ucast (key_len r)) (Val r);
         Some (OK, s) }
       else do {
         nx \<leftarrow> Read32 s p;
         s \<leftarrow> Free s p;
         s \<leftarrow> store_object s r nx q;
         Some (OK, s) } }
   }"

definition Add :: "Allocator \<Rightarrow> Request \<Rightarrow> Modification list \<Rightarrow> (Status \<times> Allocator) option" where
  "Add s r ms = do {
     let s = set_modifications s ms;
     ensure (req_type r = ADD);
     let slot = slot_of r;
     head \<leftarrow> Read32 s slot;
     (q, p) \<leftarrow> find_loop s r slot head;
     if p \<noteq> 0 then Some (ERROR, s)
     else do { s \<leftarrow> store_object s r head slot; Some (OK, s) }
   }"

text \<open>The bytes copied into the response are the second component.\<close>

definition Get :: "Allocator \<Rightarrow> Request \<Rightarrow> Modification list \<Rightarrow> (Status \<times> u8 list \<times> Allocator) option" where
  "Get s r ms = do {
     let s = set_modifications s ms;
     ensure (req_type r = GET);
     head \<leftarrow> Read32 s (slot_of r);
     (q, p) \<leftarrow> find_loop s r (slot_of r) head;
     if p = 0 then Some (ERROR, [], s)
     else do {
       vl \<leftarrow> Read16 s (p + 6);
       v \<leftarrow> Memcpy_out s (p + 16 + ucast (key_len r)) (unat vl);
       Some (OK, v, s) }
   }"

text \<open>
  The loop of \<^verbatim>\<open>Del\<close>. One round either unlinks and frees the object or comes back with the
  object to look at next, which is the same one: the loop never advances.
\<close>

definition del_step :: "Allocator \<Rightarrow> Request \<Rightarrow> u32 \<Rightarrow> u32 \<Rightarrow> (Allocator + u32) option" where
  "del_step s r q p = do {
     m \<leftarrow> key_matches s r p;
     if m
     then do {
       nx \<leftarrow> Read32 s p;
       s \<leftarrow> Write32 s q nx;
       s \<leftarrow> Free s p;
       Some (Inl s) }
     else Some (Inr p)
   }"

partial_function (option) del_loop :: "Allocator \<Rightarrow> Request \<Rightarrow> u32 \<Rightarrow> u32 \<Rightarrow> (Status \<times> Allocator) option" where
  "del_loop s r q p =
     (if p = 0 then Some (ERROR, s)
      else do {
        x \<leftarrow> del_step s r q p;
        (case x of Inl s' \<Rightarrow> Some (OK, s') | Inr p' \<Rightarrow> del_loop s r q p')
      })"

definition Del :: "Allocator \<Rightarrow> Request \<Rightarrow> Modification list \<Rightarrow> (Status \<times> Allocator) option" where
  "Del s r ms = do {
     let s = set_modifications s ms;
     ensure (req_type r = DEL);
     p \<leftarrow> Read32 s (slot_of r);
     del_loop s r (slot_of r) p
   }"

end
