(* ===== verification/Tablet_Inv.thy ===== *)
theory Tablet_Inv
  imports Tablet
begin

text \<open>
  The tablet's data structure: buckets as list segments of objects in allocated blocks, and
  what a write leaves of them. An entry \<open>(a, k, v, b)\<close> is the object at offset \<open>a\<close> with key
  \<open>k\<close> and value \<open>v\<close>; \<open>b\<close> says that the last word of its block still holds the size of the
  block, which the allocator needs to free it.
\<close>

type_synonym entry = "nat \<times> u8 list \<times> u8 list \<times> bool"

section \<open>Objects and list segments\<close>

definition obj :: "mem \<Rightarrow> entry \<Rightarrow> bool" where
  "obj m e = (case e of (a, k, v, b) \<Rightarrow>
     length k < 2 ^ 16 \<and> length v < 2 ^ 16
     \<and> rd16 m (a + 4) = of_nat (length k) \<and> rd16 m (a + 6) = of_nat (length v)
     \<and> read_bytes m (a + 16) (length k) = k \<and> read_bytes m (a + 16 + length k) (length v) = v)"

fun lseg :: "mem \<Rightarrow> nat \<Rightarrow> entry list \<Rightarrow> nat \<Rightarrow> bool" where
  "lseg m p [] p' \<longleftrightarrow> p = p'"
| "lseg m p (e # es) p' \<longleftrightarrow> p = fst e \<and> obj m e \<and> lseg m (ptr m (fst e)) es p'"

definition extent :: "entry \<Rightarrow> nat" where
  "extent e = (case e of (a, k, v, b) \<Rightarrow> 16 + length k + length v)"

lemma extent_ge: "16 \<le> extent e"
  by (cases e) (simp add: extent_def)

definition placed :: "mem \<Rightarrow> blocks \<Rightarrow> entry \<Rightarrow> bool" where
  "placed m B e \<longleftrightarrow> (\<exists>n. 4 \<le> fst e \<and> B (fst e - 4) = Some (n, False) \<and> extent e + 4 \<le> n
     \<and> (snd (snd (snd e)) \<longrightarrow> extent e + 8 \<le> n \<and> ptr m (fst e - 4 + n - 4) = n))"

lemma lseg_append: "lseg m p (xs @ ys) p' \<longleftrightarrow> (\<exists>z. lseg m p xs z \<and> lseg m z ys p')"
  by (induction xs arbitrary: p) auto

definition touched :: "entry \<Rightarrow> nat \<Rightarrow> bool" where
  "touched e i \<longleftrightarrow> fst e \<le> i \<and> i < fst e + extent e"

lemma rd16_cong: "(\<And>i. a \<le> i \<Longrightarrow> i < a + 2 \<Longrightarrow> m i = m' i) \<Longrightarrow> rd16 m a = rd16 m' a"
  unfolding rd16_def by (intro arg_cong [where f = word_of_le] read_bytes_cong)

lemma obj_frame:
  assumes "obj m e" "\<And>i. touched e i \<Longrightarrow> fst e + 4 \<le> i \<Longrightarrow> m' i = m i"
  shows "obj m' e"
proof -
  obtain a k v b where e: "e = (a, k, v, b)"
    by (cases e)
  have same: "m' i = m i" if "a + 4 \<le> i" "i < a + (16 + length k + length v)" for i
    using assms(2) [of i] that by (auto simp: e touched_def extent_def)
  have "rd16 m' (a + 4) = rd16 m (a + 4)" "rd16 m' (a + 6) = rd16 m (a + 6)"
    by (rule rd16_cong, rule same; simp)+
  moreover have "read_bytes m' (a + 16) (length k) = read_bytes m (a + 16) (length k)"
    "read_bytes m' (a + 16 + length k) (length v) = read_bytes m (a + 16 + length k) (length v)"
    by (rule read_bytes_cong, rule same; simp)+
  ultimately show ?thesis
    using assms(1) by (simp add: obj_def e)
qed

lemma ptr_frame: "(\<And>i. touched e i \<Longrightarrow> m' i = m i) \<Longrightarrow> ptr m' (fst e) = ptr m (fst e)"
  unfolding ptr_def by (cases e) (auto simp: touched_def extent_def intro!: arg_cong [where f = unat] rd32_cong)

lemma lseg_frame:
  "lseg m p es p' \<Longrightarrow> (\<And>e i. e \<in> set es \<Longrightarrow> touched e i \<Longrightarrow> m' i = m i) \<Longrightarrow> lseg m' p es p'"
proof (induction es arbitrary: p)
  case (Cons e es)
  have same: "m' i = m i" if "e' \<in> set (e # es)" "touched e' i" for e' i
    using Cons.prems(2) that .
  have p: "p = fst e" "obj m e" "lseg m (ptr m (fst e)) es p'"
    using Cons.prems(1) by simp_all
  have "obj m' e"
    using p(2) by (rule obj_frame) (erule same [rotated]; simp)
  moreover have "ptr m' (fst e) = ptr m (fst e)"
    by (rule ptr_frame) (erule same [rotated]; simp)
  moreover have "lseg m' (ptr m (fst e)) es p'"
    by (rule Cons.IH [OF p(3)]) (erule same [rotated]; simp)
  ultimately show ?case
    using p(1) by simp
qed simp

text \<open>Redirecting the last pointer of a segment.\<close>

lemma lseg_redirect:
  assumes "lseg m p (es @ [e]) p'" and "fst e \<notin> fst ` set es"
    and apart: "\<And>e' i. e' \<in> set es \<Longrightarrow> touched e' i \<Longrightarrow> i < fst e \<or> fst e + 4 \<le> i"
  shows "lseg (wr32 m (fst e) v) p (es @ [e]) (unat v)"
proof -
  from assms(1) obtain z where z: "lseg m p es z" "z = fst e" "obj m e"
    by (auto simp: lseg_append)
  have "lseg (wr32 m (fst e) v) p es z"
    using z(1) by (rule lseg_frame) (use apart in \<open>auto simp: wr32_outside\<close>)
  moreover have "obj (wr32 m (fst e) v) e"
    using z(3) by (rule obj_frame) (simp add: wr32_outside)
  ultimately show ?thesis
    using z(2) by (auto simp: lseg_append ptr_def)
qed

section \<open>Placement\<close>

lemma placed_bounds:
  assumes "geom B" "placed m B e"
  shows "296 \<le> fst e" "fst e mod 16 = 8" "fst e + extent e \<le> heap_end"
proof -
  obtain n where n: "4 \<le> fst e" "B (fst e - 4) = Some (n, False)" "extent e + 4 \<le> n"
    using assms(2) by (auto simp: placed_def)
  note g = geomD [OF assms(1) n(2)]
  show "296 \<le> fst e" "fst e + extent e \<le> heap_end"
    using g(1,5) n by (simp_all add: heap_start_def)
  have "fst e mod 16 = ((fst e - 4) mod 16 + 4) mod 16"
    using n(1) by (simp add: mod_add_left_eq)
  with g(2) show "fst e mod 16 = 8"
    by simp
qed

lemma placed_apart:
  assumes "geom B" "placed m B e" "placed m B e'" "fst e \<noteq> fst e'" "touched e i"
  shows "i + 4 \<le> fst e' \<or> fst e' + extent e' \<le> i"
proof -
  obtain n where n: "4 \<le> fst e" "B (fst e - 4) = Some (n, False)" "extent e + 4 \<le> n"
    using assms(2) by (auto simp: placed_def)
  obtain n' where n': "4 \<le> fst e'" "B (fst e' - 4) = Some (n', False)" "extent e' + 4 \<le> n'"
    using assms(3) by (auto simp: placed_def)
  consider "fst e - 4 < fst e' - 4" | "fst e' - 4 < fst e - 4"
    using assms(4) n(1) n'(1) by linarith
  then show ?thesis
  proof cases
    case 1
    from geom_disjoint [OF assms(1) n(2) n'(2) 1] n n' assms(5) show ?thesis
      unfolding touched_def by linarith
  next
    case 2
    from geom_disjoint [OF assms(1) n'(2) n(2) 2] n n' assms(5) show ?thesis
      unfolding touched_def by linarith
  qed
qed

section \<open>Heap invariant under writes to payloads and to the hash table\<close>

definition payload :: "blocks \<Rightarrow> nat \<Rightarrow> bool" where
  "payload B i \<longleftrightarrow> (\<exists>a n. B a = Some (n, False) \<and> a + 4 \<le> i \<and> i < a + n)"

lemma payloadI: "B a = Some (n, False) \<Longrightarrow> a + 4 \<le> i \<Longrightarrow> i < a + n \<Longrightarrow> payload B i"
  by (auto simp: payload_def)

lemma tag_cell_no_payload:
  assumes "geom B" "tag_cell B a" "a \<le> i" "i < a + 4"
  shows "\<not> payload B i" "i < heap_end + 4"
proof -
  show "\<not> payload B i"
  proof
    assume "payload B i"
    then obtain b n where b: "B b = Some (n, False)" "b + 4 \<le> i" "i < b + n"
      by (auto simp: payload_def)
    note gb = geomD [OF assms(1) b(1)]
    from assms(2) show False
      unfolding tag_cell_def
    proof (elim disjE exE conjE)
      assume "boundary B a"
      with boundary_outside [OF assms(1) b(1)] b assms(3,4) show False
        by fastforce
    next
      fix x k
      assume x: "B x = Some (k, True)" "a = x + k - 4"
      have "x \<noteq> b"
        using x b by auto
      with geom_disjoint [OF assms(1) x(1) b(1)] geom_disjoint [OF assms(1) b(1) x(1)] geomD(3) [OF assms(1) x(1)] x(2)
        b assms(3,4) gb(3) show False
        by linarith
    qed (use gb b assms(3,4) in linarith)
  qed
  show "i < heap_end + 4"
    using tag_cell_off(1) [OF assms(1,2)] assms(4) by (simp add: heap_off_def)
qed

lemma link_cell_no_payload:
  assumes "geom B" "a + 4 \<le> heap_start \<or> (\<exists>x n. B x = Some (n, True) \<and> (a = x + 4 \<or> a = x + 8))"
    and "a \<le> i" "i < a + 4"
  shows "\<not> payload B i" "i < heap_end + 4"
proof -
  consider (head) "a + 4 \<le> heap_start" | (cell) x n where "B x = Some (n, True)" "a = x + 4 \<or> a = x + 8"
    using assms(2) by blast
  then have "\<not> payload B i \<and> i < heap_end + 4"
  proof cases
    case head
    then show ?thesis
      using assms(3,4) geomD(1) [OF assms(1)] by (fastforce simp: payload_def heap_start_def heap_end_def)
  next
    case (cell x n)
    note x = cell(1)
    from cell have i: "x \<le> i" "i < x + n"
      using geomD(3) [OF assms(1) x] assms(3,4) by auto
    have "\<not> payload B i"
    proof
      assume "payload B i"
      then obtain b k where b: "B b = Some (k, False)" "b + 4 \<le> i" "i < b + k"
        by (auto simp: payload_def)
      then have "x \<noteq> b"
        using x by auto
      with geom_disjoint [OF assms(1) x b(1)] geom_disjoint [OF assms(1) b(1) x] i b show False
        by linarith
    qed
    then show ?thesis
      using i geomD(5) [OF assms(1) x] by simp
  qed
  then show "\<not> payload B i" "i < heap_end + 4"
    by simp_all
qed

lemma heap_inv_frame:
  assumes "heap_inv s B D" "\<And>i. \<not> payload B i \<Longrightarrow> i < heap_end + 4 \<Longrightarrow> nvm_data s' i = nvm_data s i"
  shows "heap_inv s' B D"
proof -
  note d = heap_invD [OF assms(1)]
  have "rd32 (nvm_data s') a = rd32 (nvm_data s) a" if "tag_cell B a" for a
    using tag_cell_no_payload [OF d(1) that] assms(2) by (intro rd32_cong) blast
  then have "tags (nvm_data s') B"
    by (rule tags_cong [OF d(2,1)])
  moreover have cell: "ptr (nvm_data s') a = ptr (nvm_data s) a"
    if "a + 4 \<le> heap_start \<or> (\<exists>x n. B x = Some (n, True) \<and> (a = x + 4 \<or> a = x + 8))" for a
    unfolding ptr_def using link_cell_no_payload [OF d(1) that] assms(2)
    by (intro arg_cong [where f = unat] rd32_cong) blast
  have "links (nvm_data s') (listed B D)"
  proof (rule links_frame [OF d(3) wf_listed [OF d(1)]])
    show "ptr (nvm_data s') (4 * c) = ptr (nvm_data s) (4 * c)" if "c < num_lists" for c
      using that by (intro cell) (simp add: num_lists_def heap_start_def)
    show "ptr (nvm_data s') (x + 4) = ptr (nvm_data s) (x + 4)" "ptr (nvm_data s') (x + 8) = ptr (nvm_data s) (x + 8)"
      if "listed B D c x" for c x
      using listedD [OF that] by (intro cell; blast)+
  qed
  ultimately show ?thesis
    using d(1) by (simp add: heap_inv_def)
qed

end
