(* ===== verification/Tablet_Correct.thy ===== *)
theory Tablet_Correct
  imports Tablet_Inv
begin

text \<open>
  Correctness of the tablet's operations. The invariant \<open>tablet_inv s B T\<close> says that the heap is
  well-formed with blocks \<open>B\<close>, that bucket \<open>i\<close> is the list of the objects \<open>T i\<close>, that they lie
  in different allocated blocks, and that no key occurs twice in a bucket. The contents of the
  tablet are the map \<open>lookup T\<close> from buckets and keys to values.
\<close>

section \<open>The invariant\<close>

type_synonym table = "nat \<Rightarrow> entry list"

definition slot_addr :: "nat \<Rightarrow> nat" where
  "slot_addr i = 67108864 + 4 * i"

definition bucket_of :: "Request \<Rightarrow> nat" where
  "bucket_of r = unat (key_hash r) mod kHashTableSize"

definition wf_table :: "mem \<Rightarrow> blocks \<Rightarrow> table \<Rightarrow> bool" where
  "wf_table m B T \<longleftrightarrow>
     (\<forall>i<kHashTableSize. \<forall>e\<in>set (T i). placed m B e)
     \<and> (\<forall>i<kHashTableSize. distinct (map fst (T i)))
     \<and> (\<forall>i<kHashTableSize. \<forall>j<kHashTableSize. i \<noteq> j \<longrightarrow> fst ` set (T i) \<inter> fst ` set (T j) = {})"

definition chained :: "mem \<Rightarrow> table \<Rightarrow> nat \<Rightarrow> bool" where
  "chained m T i \<longleftrightarrow> lseg m (ptr m (slot_addr i)) (T i) 0"

definition tablet_inv :: "Allocator \<Rightarrow> blocks \<Rightarrow> table \<Rightarrow> bool" where
  "tablet_inv s B T \<longleftrightarrow> heap_inv s B {} \<and> wf_table (nvm_data s) B T
     \<and> (\<forall>i<kHashTableSize. chained (nvm_data s) T i \<and> distinct (map (fst \<circ> snd) (T i)))"

definition contents :: "entry list \<Rightarrow> u8 list \<Rightarrow> u8 list option" where
  "contents es = map_of (map (\<lambda>(a, k, v, b). (k, v)) es)"

definition lookup :: "table \<Rightarrow> nat \<Rightarrow> u8 list \<Rightarrow> u8 list option" where
  "lookup T i k = contents (T i) k"

lemma contents_simps [simp]:
  "contents [] k = None"
  "contents ((a, k', v, b) # es) k = (if k = k' then Some v else contents es k)"
  "contents (es @ es') k = (case contents es k of None \<Rightarrow> contents es' k | Some v \<Rightarrow> Some v)"
  by (auto simp: contents_def map_add_def split: option.split)

lemma contents_None: "k \<notin> fst ` snd ` set es \<Longrightarrow> contents es k = None"
  by (force simp: contents_def map_of_eq_None_iff)

lemma bucket_of_less: "bucket_of r < kHashTableSize"
  by (simp add: bucket_of_def kHashTableSize_def)

lemma slot_less: "i < kHashTableSize \<Longrightarrow> slot_addr i + 4 \<le> kNVMTabletSize"
  by (simp add: slot_addr_def kHashTableSize_def kNVMTabletSize_def)

lemma slot_of_addr: "unat (slot_of r) = slot_addr (bucket_of r)"
proof -
  have b: "bucket_of r < 1000003"
    using bucket_of_less [of r] by (simp add: kHashTableSize_def)
  then have "unat (4 * of_nat (bucket_of r) :: u32) = 4 * bucket_of r"
    by (simp add: unat_word_ariths unat_of_nat_u32)
  with b show ?thesis
    unfolding slot_of_def bucket_of_def [symmetric] slot_addr_def
    by (subst unat_add_u32) (simp_all add: kSize_def)
qed

lemma wf_tableD:
  assumes "wf_table m B T" "i < kHashTableSize"
  shows "e \<in> set (T i) \<Longrightarrow> placed m B e" "distinct (map fst (T i))"
    "j < kHashTableSize \<Longrightarrow> i \<noteq> j \<Longrightarrow> fst ` set (T i) \<inter> fst ` set (T j) = {}"
  using assms unfolding wf_table_def by blast+

lemma touched_payload:
  assumes "placed m B e" "touched e i"
  shows "payload B i"
proof -
  obtain n where "4 \<le> fst e" "B (fst e - 4) = Some (n, False)" "extent e + 4 \<le> n"
    using assms(1) by (auto simp: placed_def)
  then show ?thesis
    using assms(2) unfolding touched_def by (intro payloadI [of B "fst e - 4" n]) (assumption | linarith)+
qed

text \<open>The bytes of an entry's block behind the entry.\<close>

definition slack :: "blocks \<Rightarrow> entry \<Rightarrow> nat \<Rightarrow> bool" where
  "slack B e i \<longleftrightarrow> (\<exists>n. B (fst e - 4) = Some (n, False) \<and> fst e + extent e \<le> i \<and> i < fst e - 4 + n)"

lemma slack_payload: "slack B e i \<Longrightarrow> 4 \<le> fst e \<Longrightarrow> payload B i"
  unfolding slack_def by (elim exE conjE) (intro payloadI [of B "fst e - 4"]; (assumption | linarith))

lemma placed_mono:
  assumes "placed m B e" "\<And>n. B (fst e - 4) = Some (n, False) \<Longrightarrow> B' (fst e - 4) = Some (n, False)"
    and "\<And>i. slack B e i \<Longrightarrow> m' i = m i"
  shows "placed m' B' e"
proof -
  obtain n where n: "4 \<le> fst e" "B (fst e - 4) = Some (n, False)" "extent e + 4 \<le> n"
    "snd (snd (snd e)) \<longrightarrow> extent e + 8 \<le> n \<and> ptr m (fst e - 4 + n - 4) = n"
    using assms(1) by (auto simp: placed_def)
  have "ptr m' (fst e - 4 + n - 4) = ptr m (fst e - 4 + n - 4)" if ex: "extent e + 8 \<le> n"
  proof -
    have "slack B e i" if "fst e - 4 + n - 4 \<le> i" "i < fst e - 4 + n - 4 + 4" for i
    proof -
      have "fst e + extent e \<le> i" "i < fst e - 4 + n"
        using that n(1) ex by linarith+
      then show ?thesis
        using n(2) by (auto simp: slack_def)
    qed
    then show ?thesis
      unfolding ptr_def using assms(3) by (intro arg_cong [where f = unat] rd32_cong) blast
  qed
  then show ?thesis
    unfolding placed_def using n assms(2) [OF n(2)] by auto
qed

section \<open>Lookup\<close>

definition wf_request :: "Request \<Rightarrow> bool" where
  "wf_request r \<longleftrightarrow> length (req_data r) = unat (key_len r) + unat (val_len r)"

lemma wf_requestD:
  assumes "wf_request r"
  shows "length (Key r) = unat (key_len r)" "length (Val r) = unat (val_len r)"
    "take (unat (key_len r) + unat (val_len r)) (req_data r) = Key r @ Val r" "Key r @ Val r = req_data r"
  using assms by (simp_all add: wf_request_def Key_def Val_def min_def)

fun locate :: "u8 list \<Rightarrow> nat \<Rightarrow> entry list \<Rightarrow> nat \<times> nat" where
  "locate k q [] = (q, 0)"
| "locate k q (e # es) = (if fst (snd e) = k then (q, fst e) else locate k (fst e) es)"

lemma key_matches_obj:
  assumes o: "obj (nvm_data s) (unat p, k, v, b)" and wf: "wf_request r"
    and bd: "0 < unat p" "unat p + 16 + length k + length v \<le> heap_end"
  shows "key_matches s r p = Some (k = Key r)"
proof -
  have k: "length k < 2 ^ 16" "rd16 (nvm_data s) (unat p + 4) = of_nat (length k)"
    "read_bytes (nvm_data s) (unat p + 16) (length k) = k"
    using o by (auto simp: obj_def)
  have u: "unat (p + 4) = unat p + 4" "unat (p + 16) = unat p + 16"
    using bd(2) by (subst unat_add_u32; simp add: heap_end_def)+
  have r: "Read16 s (p + 4) = Some (of_nat (length k))"
    using bd by (simp add: Read16_def Read_def ensure_def in_tablet_def u kNVMTabletSize_def heap_end_def
        unat_eq_zero [symmetric] rd16_def [symmetric] k(2) del: unat_eq_zero)
  show ?thesis
  proof (cases "length k = unat (key_len r)")
    case True
    then have "Memcmp s (p + 16) (Key r) = Some (k \<noteq> Key r)"
      using bd k(3) wf_requestD(1) [OF wf]
      by (simp add: Memcmp_def ensure_def in_tablet_def u kNVMTabletSize_def heap_end_def)
    with True show ?thesis
      by (simp add: key_matches_def r)
  next
    case False
    then have "key_len r \<noteq> of_nat (length k)"
      using k(1) by (auto simp: unat_of_nat take_bit_nat_eq_self)
    with False wf_requestD(1) [OF wf] show ?thesis
      by (auto simp: key_matches_def r)
  qed
qed

lemma find_loop_correct:
  assumes "geom B" "wf_request r"
  shows "lseg (nvm_data s) (unat p) es 0 \<Longrightarrow> (\<And>e. e \<in> set es \<Longrightarrow> placed (nvm_data s) B e) \<Longrightarrow>
    find_loop s r q p = Some (case locate (Key r) (unat q) es of (q', p') \<Rightarrow> (of_nat q', of_nat p'))"
proof (induction es arbitrary: p q)
  case Nil
  then show ?case
    by (simp add: find_loop.simps unat_eq_zero)
next
  case (Cons e es)
  obtain a k v b where e: "e = (a, k, v, b)"
    by (cases e)
  have pl: "placed (nvm_data s) B e"
    using Cons.prems(2) by simp
  note bd = placed_bounds [OF assms(1) pl]
  have p: "unat p = a" "obj (nvm_data s) (unat p, k, v, b)" "lseg (nvm_data s) (ptr (nvm_data s) a) es 0"
    using Cons.prems(1) by (auto simp: e)
  have p0: "p \<noteq> 0"
    using bd(1) p(1) by (auto simp: e)
  have km: "key_matches s r p = Some (k = Key r)"
    using p(1,2) bd by (intro key_matches_obj assms(2)) (simp_all add: e extent_def add.assoc)
  have rd: "Read32 s p = Some (rd32 (nvm_data s) a)"
    using bd p(1) by (simp add: Read32_off heap_off_def e extent_def)
  show ?case
  proof (cases "k = Key r")
    case True
    then show ?thesis
      using p0 km by (subst find_loop.simps) (simp add: e flip: p(1))
  next
    case False
    have "find_loop s r p (rd32 (nvm_data s) a) =
      Some (case locate (Key r) (unat p) es of (q', p') \<Rightarrow> (of_nat q', of_nat p'))"
      using p(3) Cons.prems(2) by (intro Cons.IH) (simp_all add: ptr_def)
    then show ?thesis
      using p0 km rd False by (subst find_loop.simps) (simp add: e p(1))
  qed
qed

lemma locate_cases:
  assumes "\<And>e. e \<in> set es \<Longrightarrow> fst e \<noteq> 0"
  obtains (missing) "k \<notin> fst ` snd ` set es" "snd (locate k q es) = 0"
  | (found) pre a v b post where "es = pre @ (a, k, v, b) # post" "k \<notin> fst ` snd ` set pre" "a \<noteq> 0"
      "locate k q es = (if pre = [] then q else fst (last pre), a)"
proof -
  have "\<forall>e\<in>set es. fst e \<noteq> 0"
    using assms by blast
  then have "k \<notin> fst ` snd ` set es \<and> snd (locate k q es) = 0
    \<or> (\<exists>pre a v b post. es = pre @ (a, k, v, b) # post \<and> k \<notin> fst ` snd ` set pre \<and> a \<noteq> 0
        \<and> locate k q es = (if pre = [] then q else fst (last pre), a))"
  proof (induction es arbitrary: q)
    case (Cons e es)
    obtain a k' v b where e: "e = (a, k', v, b)"
      by (cases e)
    have a: "a \<noteq> 0"
      using Cons.prems by (simp add: e)
    show ?case
    proof (cases "k' = k")
      case True
      then show ?thesis
        using a by (intro disjI2 exI [of _ "[]"]) (simp add: e)
    next
      case False
      have "\<forall>e\<in>set es. fst e \<noteq> 0"
        using Cons.prems by simp
      from Cons.IH [of a, OF this] show ?thesis
      proof (elim disjE exE conjE, goal_cases)
        case 1
        then show ?thesis
          using False by (simp add: e)
      next
        case (2 pre a' v' b' post)
        then show ?thesis
          using False by (intro disjI2 exI [of _ "e # pre"] exI [of _ a'] exI [of _ v'] exI [of _ b'] exI [of _ post])
            (auto simp: e)
      qed
    qed
  qed simp
  then show thesis
    using missing found by blast
qed

lemma lookup_missing: "k \<notin> fst ` snd ` set (T i) \<Longrightarrow> lookup T i k = None"
  by (simp add: lookup_def contents_None)

lemma lookup_found: "T i = pre @ (a, k, v, b) # post \<Longrightarrow> k \<notin> fst ` snd ` set pre \<Longrightarrow> lookup T i k = Some v"
  by (simp add: lookup_def contents_None)

lemma tablet_invD:
  assumes "tablet_inv s B T" "i < kHashTableSize"
  shows "heap_inv s B {}" "geom B" "wf_table (nvm_data s) B T" "lseg (nvm_data s) (ptr (nvm_data s) (slot_addr i)) (T i) 0"
    "distinct (map (fst \<circ> snd) (T i))" "e \<in> set (T i) \<Longrightarrow> placed (nvm_data s) B e" "e \<in> set (T i) \<Longrightarrow> fst e \<noteq> 0"
proof -
  show a: "heap_inv s B {}" and g: "geom B" and w: "wf_table (nvm_data s) B T"
    and "lseg (nvm_data s) (ptr (nvm_data s) (slot_addr i)) (T i) 0" "distinct (map (fst \<circ> snd) (T i))"
    using assms by (auto simp: tablet_inv_def heap_inv_def chained_def)
  show pl: "e \<in> set (T i) \<Longrightarrow> placed (nvm_data s) B e"
    by (rule wf_tableD(1) [OF w assms(2)])
  show "e \<in> set (T i) \<Longrightarrow> fst e \<noteq> 0"
    using placed_bounds(1) [OF g pl] by fastforce
qed

lemma Read_slot:
  "Read32 s (slot_of r) = Some (rd32 (nvm_data s) (slot_addr (bucket_of r)))"
proof -
  have "slot_of r \<noteq> 0"
    using slot_of_addr [of r] by (auto simp: slot_addr_def)
  then show ?thesis
    using slot_less [OF bucket_of_less, of r]
    by (simp add: Read32_def Read_def ensure_def in_tablet_def slot_of_addr rd32_def)
qed

lemma find_bucket:
  assumes "tablet_inv s B T" "wf_request r"
  shows "find_loop s r (slot_of r) (rd32 (nvm_data s) (slot_addr (bucket_of r)))
    = Some (case locate (Key r) (slot_addr (bucket_of r)) (T (bucket_of r)) of (q, p) \<Rightarrow> (of_nat q, of_nat p))"
  using find_loop_correct [OF tablet_invD(2) [OF assms(1) bucket_of_less] assms(2), where s = s and p =
      "rd32 (nvm_data s) (slot_addr (bucket_of r))" and es = "T (bucket_of r)" and q = "slot_of r"]
    tablet_invD(4) [OF assms(1) bucket_of_less [of r]] tablet_invD(6) [OF assms(1) bucket_of_less [of r]] by (simp add: ptr_def slot_of_addr)

lemma nvm_data_set_modifications [simp]: "nvm_data (set_modifications s ms) = nvm_data s"
  by (simp add: set_modifications_def)

lemma tablet_inv_set_modifications [simp]: "tablet_inv (set_modifications s ms) B T = tablet_inv s B T"
  by (simp add: tablet_inv_def heap_inv_def)

lemma placed_offsets:
  assumes "geom B" "placed m B e" "j \<le> extent e"
  shows "unat (of_nat (fst e) :: u32) = fst e" "unat (of_nat (fst e) + of_nat j :: u32) = fst e + j"
proof -
  note bd = placed_bounds [OF assms(1,2)]
  show u: "unat (of_nat (fst e) :: u32) = fst e"
    using bd(3) by (intro unat_of_nat_u32) (simp add: heap_end_def)
  have "unat (of_nat j :: u32) = j"
    using bd(3) assms(3) by (intro unat_of_nat_u32) (simp add: heap_end_def)
  then show "unat (of_nat (fst e) + of_nat j :: u32) = fst e + j"
    using bd(3) assms(3) by (subst unat_add_u32) (simp_all add: u heap_end_def)
qed

lemma Get_spec:
  assumes inv: "tablet_inv s B T" and wf: "wf_request r" and ty: "req_type r = GET"
  shows "Get s r ms = Some (case lookup T (bucket_of r) (Key r) of
      Some v \<Rightarrow> (OK, v, set_modifications s ms) | None \<Rightarrow> (ERROR, [], set_modifications s ms))"
proof -
  let ?i = "bucket_of r" and ?s = "set_modifications s ms"
  have inv': "tablet_inv ?s B T"
    using inv by simp
  note d = tablet_invD [OF inv bucket_of_less [of r]]
  note fb = find_bucket [OF inv' wf]
  show ?thesis
  proof (rule locate_cases [of "T ?i" "Key r" "slot_addr ?i"])
    show "\<And>e. e \<in> set (T ?i) \<Longrightarrow> fst e \<noteq> 0"
      by (rule d(7))
  next
    assume "Key r \<notin> fst ` snd ` set (T ?i)" "snd (locate (Key r) (slot_addr ?i) (T ?i)) = 0"
    then show ?thesis
      using fb by (simp add: Get_def ensure_def ty Read_slot lookup_missing split: prod.splits)
  next
    fix pre a v b post
    assume T: "T ?i = pre @ (a, Key r, v, b) # post" and k: "Key r \<notin> fst ` snd ` set pre"
      and loc: "locate (Key r) (slot_addr ?i) (T ?i) = (if pre = [] then slot_addr ?i else fst (last pre), a)"
    let ?e = "(a, Key r, v, b)"
    have e: "?e \<in> set (T ?i)"
      by (simp add: T)
    note pl = d(6) [OF e] and bd = placed_bounds [OF d(2) d(6) [OF e]]
    have o: "obj (nvm_data s) ?e"
      using d(4) unfolding T lseg_append by auto
    have kl: "of_nat (unat (key_len r)) = (ucast (key_len r) :: u32)"
      by simp
    have u: "unat (of_nat a :: u32) = a" "unat (of_nat a + 6 :: u32) = a + 6"
      "unat (of_nat a + 16 + ucast (key_len r) :: u32) = a + 16 + unat (key_len r)"
      using placed_offsets(1) [OF d(2) pl, of 0] placed_offsets(2) [OF d(2) pl, of 6]
        placed_offsets(2) [OF d(2) pl, of "16 + unat (key_len r)"] wf_requestD(1) [OF wf]
      by (simp_all add: extent_def add.assoc)
    have a0: "of_nat a \<noteq> (0 :: u32)" "of_nat a + 6 \<noteq> (0 :: u32)"
      using u(1,2) bd(1) by auto
    have "rd16 (nvm_data s) (a + 6) = of_nat (length v)" "length v < 2 ^ 16"
      "read_bytes (nvm_data s) (a + 16 + length (Key r)) (length v) = v"
      using o by (simp_all add: obj_def)
    then show ?thesis
      using fb loc a0 bd lookup_found [of T, OF T k] wf_requestD(1) [OF wf]
      by (simp add: Get_def ensure_def ty Read_slot Read16_def Read_def Memcpy_out_def in_tablet_def u extent_def
          kNVMTabletSize_def heap_end_def unat_of_nat take_bit_nat_eq_self flip: rd16_def)
  qed
qed

text \<open>
  C9: On a well-formed tablet \<^verbatim>\<open>Get\<close> ends, changes nothing, and returns the value stored
  under the key in the bucket of its hash, or an error when there is none.
\<close>

theorem Get_correct:
  assumes "tablet_inv s B T" "wf_request r" "req_type r = GET"
  shows "Get s r ms = Some (case lookup T (bucket_of r) (Key r) of
      Some v \<Rightarrow> (OK, v, set_modifications s ms) | None \<Rightarrow> (ERROR, [], set_modifications s ms))"
  using assms by (rule Get_spec)

section \<open>Rebuilding a bucket\<close>

text \<open>
  A bucket in two pieces: the entries \<open>pre\<close> are linked from the slot on, the entries \<open>suf\<close> are
  linked from \<open>p\<close> to the end; writing \<open>p\<close> to the last pointer of \<open>pre\<close> (the slot itself when
  \<open>pre\<close> is empty) joins them.
\<close>

definition pieces :: "Allocator \<Rightarrow> blocks \<Rightarrow> table \<Rightarrow> nat \<Rightarrow> entry list \<Rightarrow> nat \<Rightarrow> entry list \<Rightarrow> bool" where
  "pieces s B T i pre p suf \<longleftrightarrow> heap_inv s B {} \<and> i < kHashTableSize \<and> wf_table (nvm_data s) B (T(i := pre @ suf))
     \<and> (\<forall>j<kHashTableSize. j \<noteq> i \<longrightarrow> chained (nvm_data s) T j)
     \<and> (\<exists>z. lseg (nvm_data s) (ptr (nvm_data s) (slot_addr i)) pre z) \<and> lseg (nvm_data s) p suf 0"

definition last_cell :: "nat \<Rightarrow> entry list \<Rightarrow> nat" where
  "last_cell i pre = (if pre = [] then slot_addr i else fst (last pre))"

lemma piecesD:
  assumes "pieces s B T i pre p suf"
  shows "heap_inv s B {}" "geom B" "i < kHashTableSize" "wf_table (nvm_data s) B (T(i := pre @ suf))"
    "j < kHashTableSize \<Longrightarrow> j \<noteq> i \<Longrightarrow> chained (nvm_data s) T j"
    "\<exists>z. lseg (nvm_data s) (ptr (nvm_data s) (slot_addr i)) pre z" "lseg (nvm_data s) p suf 0"
    "e \<in> set pre \<Longrightarrow> placed (nvm_data s) B e" "e \<in> set suf \<Longrightarrow> placed (nvm_data s) B e"
    "j < kHashTableSize \<Longrightarrow> j \<noteq> i \<Longrightarrow> e \<in> set (T j) \<Longrightarrow> placed (nvm_data s) B e"
proof -
  show "heap_inv s B {}" "geom B" and i: "i < kHashTableSize" and w: "wf_table (nvm_data s) B (T(i := pre @ suf))"
    "j < kHashTableSize \<Longrightarrow> j \<noteq> i \<Longrightarrow> chained (nvm_data s) T j"
    "\<exists>z. lseg (nvm_data s) (ptr (nvm_data s) (slot_addr i)) pre z" "lseg (nvm_data s) p suf 0"
    using assms by (auto simp: pieces_def heap_inv_def)
  show "e \<in> set pre \<Longrightarrow> placed (nvm_data s) B e" "e \<in> set suf \<Longrightarrow> placed (nvm_data s) B e"
    using wf_tableD(1) [OF w(1) i, of e] by auto
  show "j < kHashTableSize \<Longrightarrow> j \<noteq> i \<Longrightarrow> e \<in> set (T j) \<Longrightarrow> placed (nvm_data s) B e"
    using wf_tableD(1) [OF w(1), of j e] by simp
qed

lemma chained_frame:
  assumes "geom B" "chained m T j" "\<And>e. e \<in> set (T j) \<Longrightarrow> placed m B e"
    and "\<And>e i. e \<in> set (T j) \<Longrightarrow> touched e i \<Longrightarrow> m' i = m i"
    and "\<And>i. slot_addr j \<le> i \<Longrightarrow> i < slot_addr j + 4 \<Longrightarrow> m' i = m i"
  shows "chained m' T j"
proof -
  have "ptr m' (slot_addr j) = ptr m (slot_addr j)"
    unfolding ptr_def by (intro arg_cong [where f = unat] rd32_cong assms(5))
  moreover have "lseg m' (ptr m (slot_addr j)) (T j) 0"
    using assms(2) unfolding chained_def by (rule lseg_frame) (rule assms(4))
  ultimately show ?thesis
    by (simp add: chained_def)
qed

lemma wf_table_frame:
  assumes "wf_table m B T"
    and "\<And>i e n. i < kHashTableSize \<Longrightarrow> e \<in> set (T i) \<Longrightarrow> B (fst e - 4) = Some (n, False) \<Longrightarrow>
      B' (fst e - 4) = Some (n, False)"
    and "\<And>i e x. i < kHashTableSize \<Longrightarrow> e \<in> set (T i) \<Longrightarrow> slack B e x \<Longrightarrow> m' x = m x"
  shows "wf_table m' B' T"
proof -
  have "placed m' B' e" if "i < kHashTableSize" "e \<in> set (T i)" for i e
    using wf_tableD(1) [OF assms(1) that] by (rule placed_mono) (rule assms(2,3) [OF that]; assumption)+
  then show ?thesis
    using assms(1) unfolding wf_table_def by blast
qed

text \<open>Different entries of a table lie in different blocks.\<close>

lemma entries_differ:
  assumes "wf_table m B T" "i < kHashTableSize" "j < kHashTableSize" "e \<in> set (T i)" "e' \<in> set (T j)" "fst e = fst e'"
  shows "i = j" "e = e'"
proof -
  show ij: "i = j"
    using wf_tableD(3) [OF assms(1-3)] assms(4-6) by (metis disjoint_iff imageI)
  show "e = e'"
    using wf_tableD(2) [OF assms(1,2)] assms(4-6) unfolding ij distinct_map by (auto dest: inj_onD)
qed

lemma slack_apart:
  assumes "geom B" "placed m B e" "placed m B e'" "slack B e i" "fst e \<noteq> fst e'"
  shows "i < fst e' \<or> fst e' + extent e' \<le> i"
proof -
  obtain n where n: "B (fst e - 4) = Some (n, False)" "fst e + extent e \<le> i" "i < fst e - 4 + n"
    using assms(4) by (auto simp: slack_def)
  obtain n' where n': "4 \<le> fst e'" "B (fst e' - 4) = Some (n', False)" "extent e' + 4 \<le> n'"
    using assms(3) by (auto simp: placed_def)
  have e4: "4 \<le> fst e"
    using assms(2) by (auto simp: placed_def)
  consider "fst e - 4 < fst e' - 4" | "fst e' - 4 < fst e - 4"
    using assms(5) e4 n'(1) by linarith
  then show ?thesis
    using geom_disjoint [OF assms(1) n(1) n'(2)] geom_disjoint [OF assms(1) n'(2) n(1)] n n' e4 by cases linarith+
qed

lemma last_cell_cases:
  assumes pc: "pieces s B T i pre p suf"
  shows "last_cell i pre + 4 \<le> kNVMTabletSize" "last_cell i pre mod 4 = 0" "0 < last_cell i pre"
    "last_cell i pre \<le> x \<Longrightarrow> x < last_cell i pre + 4 \<Longrightarrow> payload B x \<or> heap_end + 4 \<le> x"
proof -
  note d = piecesD [OF pc]
  have "last_cell i pre + 4 \<le> kNVMTabletSize \<and> last_cell i pre mod 4 = 0 \<and> 0 < last_cell i pre
    \<and> (last_cell i pre \<le> x \<longrightarrow> x < last_cell i pre + 4 \<longrightarrow> payload B x \<or> heap_end + 4 \<le> x)"
  proof (cases "pre = []")
    case True
    then show ?thesis
      using slot_less [OF d(3)] by (simp add: last_cell_def slot_addr_def heap_end_def)
  next
    case False
    have pl: "placed (nvm_data s) B (last pre)"
      using d(8) False by simp
    note bd = placed_bounds [OF d(2) pl]
    note ex = extent_ge [of "last pre"]
    have "fst (last pre) mod 4 = fst (last pre) mod 16 mod 4"
      by (simp add: mod_mod_cancel)
    then show ?thesis
      using bd False ex touched_payload [OF pl, of x]
      by (simp add: last_cell_def kNVMTabletSize_def heap_end_def touched_def)
  qed
  then show "last_cell i pre + 4 \<le> kNVMTabletSize" "last_cell i pre mod 4 = 0" "0 < last_cell i pre"
    "last_cell i pre \<le> x \<Longrightarrow> x < last_cell i pre + 4 \<Longrightarrow> payload B x \<or> heap_end + 4 \<le> x"
    by blast+
qed

text \<open>The write touches no entry but the one whose pointer it is, and of that only the pointer.\<close>

lemma last_cell_apart:
  assumes pc: "pieces s B T i pre p suf" and j: "j < kHashTableSize" "e \<in> set ((T(i := pre @ suf)) j)"
    and x: "last_cell i pre \<le> x" "x < last_cell i pre + 4"
  shows "\<not> slack B e x" "touched e x \<Longrightarrow> pre \<noteq> [] \<and> e = last pre \<and> j = i"
proof -
  note d = piecesD [OF pc]
  have pl: "placed (nvm_data s) B e"
    by (rule wf_tableD(1) [OF d(4) j])
  note bd = placed_bounds [OF d(2) pl]
  have e4: "4 \<le> fst e" "16 \<le> extent e"
    using pl extent_ge by (auto simp: placed_def)
  have small: "touched e x \<or> slack B e x \<Longrightarrow> x < heap_end + 4"
    using bd geomD(5) [OF d(2)] e4(1) by (fastforce simp: touched_def slack_def)
  have "\<not> slack B e x \<and> (touched e x \<longrightarrow> pre \<noteq> [] \<and> e = last pre \<and> j = i)"
  proof (cases "pre = []")
    case True
    then have "\<not> x < heap_end + 4"
      using x by (simp add: last_cell_def slot_addr_def heap_end_def)
    then show ?thesis
      using small by blast
  next
    case False
    let ?l = "last pre"
    have l: "?l \<in> set ((T(i := pre @ suf)) i)" "placed (nvm_data s) B ?l"
      using False d(8) by simp_all
    have xl: "fst ?l \<le> x" "x < fst ?l + 4"
      using x False by (simp_all add: last_cell_def)
    note l16 = extent_ge [of ?l]
    have same: "e = ?l \<and> j = i" if "fst e = fst ?l"
      using entries_differ [OF d(4) j(1) d(3) j(2) l(1) that] by simp
    have "\<not> slack B e x"
    proof (cases "fst e = fst ?l")
      case True
      then show ?thesis
        using xl e4 by (auto simp: slack_def)
    next
      case ne: False
      show ?thesis
        using slack_apart [OF d(2) pl l(2) _ ne, of x] xl l16 by linarith
    qed
    moreover have "fst e = fst ?l" if "touched e x"
      using placed_apart [OF d(2) pl l(2) _ that] xl l16 by linarith
    ultimately show ?thesis
      using same False by auto
  qed
  then show "\<not> slack B e x" "touched e x \<Longrightarrow> pre \<noteq> [] \<and> e = last pre \<and> j = i"
    by blast+
qed

lemma last_cell_slot:
  assumes pc: "pieces s B T i pre p suf" and x: "last_cell i pre \<le> x" "x < last_cell i pre + 4"
    and k: "slot_addr k \<le> x" "x < slot_addr k + 4"
  shows "k = i" "pre = []"
proof -
  note d = piecesD [OF pc]
  show p: "pre = []"
  proof (rule ccontr)
    assume "pre \<noteq> []"
    then have "placed (nvm_data s) B (last pre)" "last_cell i pre = fst (last pre)"
      using d(8) by (simp_all add: last_cell_def)
    with placed_bounds(3) [OF d(2)] extent_ge [of "last pre"] x k(1) show False
      by (fastforce simp: slot_addr_def heap_end_def)
  qed
  then show "k = i"
    using x k by (simp add: last_cell_def slot_addr_def)
qed

lemma relink:
  assumes pc: "pieces s B T i pre (unat p) suf"
    and m': "nvm_data s' = wr32 (nvm_data s) (last_cell i pre) p"
  shows "heap_inv s' B {}" "wf_table (nvm_data s') B (T(i := pre @ suf))"
    "j < kHashTableSize \<Longrightarrow> chained (nvm_data s') (T(i := pre @ suf)) j"
proof -
  note d = piecesD [OF pc] and lc = last_cell_cases [OF pc] and la = last_cell_apart [OF pc]
  let ?T = "T(i := pre @ suf)" and ?m = "nvm_data s" and ?c = "last_cell i pre"
  have out: "nvm_data s' x = ?m x" if "\<not> (?c \<le> x \<and> x < ?c + 4)" for x
    unfolding m' using that by (intro wr32_outside) linarith
  show "heap_inv s' B {}"
    using d(1)
  proof (rule heap_inv_frame)
    fix x
    assume "\<not> payload B x" "x < heap_end + 4"
    then have "\<not> (?c \<le> x \<and> x < ?c + 4)"
      using lc(4) [of x] by auto
    then show "nvm_data s' x = ?m x"
      by (rule out)
  qed
  show "wf_table (nvm_data s') B ?T"
    using d(4) by (rule wf_table_frame) (use out la(1) in blast)+
  have suf: "lseg (nvm_data s') (unat p) suf 0"
    using d(7)
  proof (rule lseg_frame)
    fix e x
    assume e: "e \<in> set suf" "touched e x"
    have "pre \<noteq> [] \<Longrightarrow> e \<noteq> last pre"
    proof
      assume "pre \<noteq> []" "e = last pre"
      then have "fst e \<in> fst ` set pre \<inter> fst ` set suf"
        using e(1) by simp
      then show False
        using wf_tableD(2) [OF d(4,3)] by simp blast
    qed
    then show "nvm_data s' x = ?m x"
      using la(2) [OF d(3), of e x] e out by auto
  qed
  show "chained (nvm_data s') ?T j" if j: "j < kHashTableSize"
  proof (cases "j = i")
    case False
    then have "chained ?m ?T j"
      using d(5) [OF j False] by (simp add: chained_def)
    then show ?thesis
      by (rule chained_frame [OF d(2)])
        (use wf_tableD(1) [OF d(4) j] out la(2) [OF j] last_cell_slot [OF pc] False in blast)+
  next
    case True
    obtain z where z: "lseg ?m (ptr ?m (slot_addr i)) pre z"
      using d(6) by blast
    show ?thesis
    proof (cases "pre = []")
      case True
      then have "ptr (nvm_data s') (slot_addr i) = unat p"
        by (simp add: m' ptr_def last_cell_def)
      then show ?thesis
        using suf True \<open>j = i\<close> by (simp add: chained_def)
    next
      case False
      let ?l = "last pre"
      have pre: "butlast pre @ [?l] = pre" and c: "?c = fst ?l"
        using False by (simp_all add: last_cell_def)
      have z': "lseg ?m (ptr ?m (slot_addr i)) (butlast pre @ [?l]) z"
        using z by (simp only: pre)
      have "distinct (map fst (butlast pre @ [?l]))"
        using wf_tableD(2) [OF d(4,3)] by (simp add: pre)
      then have nd: "fst ?l \<notin> fst ` set (butlast pre)"
        by (simp only: map_append distinct_append) auto
      have "lseg (wr32 ?m (fst ?l) p) (ptr ?m (slot_addr i)) (butlast pre @ [?l]) (unat p)"
      proof (rule lseg_redirect [OF z' nd])
        fix e x
        assume e: "e \<in> set (butlast pre)" "touched e x"
        then have "e \<noteq> ?l"
          using nd by auto
        moreover have "e \<in> set (?T i)"
          using e(1) by (auto dest: in_set_butlastD)
        ultimately show "x < fst ?l \<or> fst ?l + 4 \<le> x"
          using la(2) [OF d(3), of e x] e(2) c by fastforce
      qed
      moreover have "ptr (nvm_data s') (slot_addr i) = ptr ?m (slot_addr i)"
        unfolding ptr_def using out last_cell_slot [OF pc] False
        by (intro arg_cong [where f = unat] rd32_cong) blast
      ultimately show ?thesis
        using suf \<open>j = i\<close> by (auto simp: chained_def lseg_append m' pre c)
    qed
  qed
qed

text \<open>What keeps the pieces.\<close>

lemma pieces_frame:
  assumes pc: "pieces s B T i pre p suf" and inv: "heap_inv s' B' {}"
    and blk: "\<And>j e n. j < kHashTableSize \<Longrightarrow> e \<in> set ((T(i := pre @ suf)) j) \<Longrightarrow> B (fst e - 4) = Some (n, False) \<Longrightarrow>
      B' (fst e - 4) = Some (n, False)"
    and own: "\<And>j e x. j < kHashTableSize \<Longrightarrow> e \<in> set ((T(i := pre @ suf)) j) \<Longrightarrow> touched e x \<or> slack B e x \<Longrightarrow>
      nvm_data s' x = nvm_data s x"
    and high: "\<And>x. heap_end + 4 \<le> x \<Longrightarrow> nvm_data s' x = nvm_data s x"
  shows "pieces s' B' T i pre p suf"
proof -
  note d = piecesD [OF pc]
  have slot: "nvm_data s' x = nvm_data s x" if "slot_addr j \<le> x" for x j
    using that by (intro high) (simp add: slot_addr_def heap_end_def)
  have own_i: "nvm_data s' x = nvm_data s x" if "touched e x" "e \<in> set pre \<union> set suf" for e x
    using own [OF d(3), of e x] that by simp
  have "wf_table (nvm_data s') B' (T(i := pre @ suf))"
    using d(4) by (rule wf_table_frame) (use blk own in blast)+
  moreover have "chained (nvm_data s') T j" if j: "j < kHashTableSize" "j \<noteq> i" for j
  proof (rule chained_frame [OF d(2) d(5) [OF j] d(10) [OF j]])
    fix e x
    assume "e \<in> set (T j)" "touched e x"
    then show "nvm_data s' x = nvm_data s x"
      using own [OF j(1), of e x] j(2) by simp
  qed (assumption | rule slot)+
  moreover have "lseg (nvm_data s') (ptr (nvm_data s') (slot_addr i)) pre z"
    if z: "lseg (nvm_data s) (ptr (nvm_data s) (slot_addr i)) pre z" for z
  proof -
    have "ptr (nvm_data s') (slot_addr i) = ptr (nvm_data s) (slot_addr i)"
      unfolding ptr_def by (intro arg_cong [where f = unat] rd32_cong) (rule slot)
    moreover have "lseg (nvm_data s') (ptr (nvm_data s) (slot_addr i)) pre z"
      using z by (rule lseg_frame) (erule own_i, simp)
    ultimately show ?thesis
      by simp
  qed
  moreover have "lseg (nvm_data s') p suf 0"
    using d(7) by (rule lseg_frame) (erule own_i, simp)
  ultimately show ?thesis
    unfolding pieces_def using inv d(3,6) by blast
qed

section \<open>Storing an object\<close>

lemma Alloc_success:
  assumes inv: "heap_inv s B {}" and z: "13 \<le> unat z" "unat z \<le> 1148" and al: "Alloc s z = Some (p, s1)" "p \<noteq> 0"
  shows "\<exists>a B'. unat p = a + 4 \<and> heap_inv s1 B' {} \<and> hands_out B (block_size (unat z)) a B'
    \<and> kept B (nvm_data s) (nvm_data s1) \<and> ptr (nvm_data s1) (a + block_size (unat z) - 4) = block_size (unat z)"
proof (cases "first_class (nvm_data s) (cls (block_size (unat z)))")
  case None
  then show ?thesis
    using Alloc_cases [OF inv z] al by simp
next
  case (Some c)
  obtain a B' where a: "p = of_nat (a + 4)" "heap_inv s1 B' {}" "hands_out B (block_size (unat z)) a B'"
    "kept B (nvm_data s) (nvm_data s1)" "ptr (nvm_data s1) (a + block_size (unat z) - 4) = block_size (unat z)"
    using Alloc_cases [OF inv z] al by (auto simp: Some split: if_splits)
  obtain x n where "B x = Some (n, True)" "a + block_size (unat z) \<le> x + n"
    using a(3) unfolding hands_out_def by blast
  with geomD(5) [OF heap_invD(1) [OF inv]] block_size_bounds(1) [OF z(1)] have "a + 4 < 2 ^ 32"
    by (fastforce simp: heap_end_def)
  then have "unat p = a + 4"
    unfolding a(1) by (rule unat_of_nat_u32)
  with a(2-5) show ?thesis
    by blast
qed

lemma object_size_unat: "unat (object_size r) = 16 + unat (key_len r) + unat (val_len r)"
proof -
  have "unat (key_len r) < 65536" "unat (val_len r) < 65536"
    by (rule unat_u16_less)+
  then show ?thesis
    by (simp add: object_size_def unat_word_ariths unat_ucast_u16)
qed

text \<open>The bytes of a new object.\<close>

definition stored :: "mem \<Rightarrow> nat \<Rightarrow> u32 \<Rightarrow> Request \<Rightarrow> mem" where
  "stored m p nx r = write_bytes (write_bytes m p (object_bytes nx (key_len r) (val_len r) (key_hash r)))
     (p + 16) (Key r @ Val r)"

lemma length_object_bytes [simp]: "length (object_bytes nx kl vl kh) = 16"
  by (simp add: object_bytes_def)

lemma read_write_part:
  assumes "j + n \<le> length bs"
  shows "read_bytes (write_bytes m a bs) (a + j) n = take n (drop j bs)"
  using assms by (intro nth_equalityI) (simp_all add: write_bytes_def)

lemma stored_outside: "wf_request r \<Longrightarrow> i < p \<or> p + 16 + unat (key_len r) + unat (val_len r) \<le> i \<Longrightarrow> stored m p nx r i = m i"
  using wf_requestD(1,2) [of r] by (auto simp: stored_def write_bytes_def)

lemma stored_header:
  assumes "j + n \<le> 16"
  shows "read_bytes (stored m p nx r) (p + j) n = take n (drop j (object_bytes nx (key_len r) (val_len r) (key_hash r)))"
proof -
  have "read_bytes (stored m p nx r) (p + j) n =
      read_bytes (write_bytes m p (object_bytes nx (key_len r) (val_len r) (key_hash r))) (p + j) n"
    unfolding stored_def using assms by (intro read_write_disjoint) simp
  with assms show ?thesis
    by (simp add: read_write_part)
qed

lemma stored_obj:
  assumes wf: "wf_request r"
  shows "obj (stored m p nx r) (p, Key r, Val r, b)" "ptr (stored m p nx r) p = unat nx"
proof -
  note h = stored_header [of _ _ m p nx r]
  have "rd16 (stored m p nx r) (p + 4) = key_len r" "rd16 (stored m p nx r) (p + 6) = val_len r"
    using h [of 4 2] h [of 6 2] by (simp_all add: rd16_def object_bytes_def codec_u16.dec_enc)
  moreover have "read_bytes (stored m p nx r) (p + 16) (length (Key r)) = Key r"
    "read_bytes (stored m p nx r) (p + 16 + length (Key r)) (length (Val r)) = Val r"
    using read_write_part [of 0 "length (Key r)" "Key r @ Val r" _ "p + 16"]
      read_write_part [of "length (Key r)" "length (Val r)" "Key r @ Val r" _ "p + 16"]
    by (simp_all add: stored_def)
  moreover have "unat (key_len r) < 65536" "unat (val_len r) < 65536"
    by (rule unat_u16_less)+
  ultimately show "obj (stored m p nx r) (p, Key r, Val r, b)"
    by (simp add: obj_def wf_requestD(1,2) [OF wf])
  show "ptr (stored m p nx r) p = unat nx"
    using h [of 0 4] by (simp add: ptr_def rd32_def object_bytes_def codec_u32.dec_enc)
qed

lemma wf_table_insert:
  assumes w: "wf_table m B (T(i := pre @ post))" and e: "placed m B e" and i: "i < kHashTableSize"
    and fresh: "\<And>j. j < kHashTableSize \<Longrightarrow> fst e \<notin> fst ` set ((T(i := pre @ post)) j)"
  shows "wf_table m B (T(i := pre @ e # post))"
proof -
  have "placed m B x" if "j < kHashTableSize" "x \<in> set ((T(i := pre @ e # post)) j)" for j x
    using wf_tableD(1) [OF w that(1), of x] that(2) e by (cases "j = i") auto
  moreover have "distinct (map fst ((T(i := pre @ e # post)) j))" if "j < kHashTableSize" for j
    using wf_tableD(2) [OF w that] fresh [OF that] by (cases "j = i") auto
  moreover have "fst ` set ((T(i := pre @ e # post)) j) \<inter> fst ` set ((T(i := pre @ e # post)) k) = {}"
    if "j < kHashTableSize" "k < kHashTableSize" "j \<noteq> k" for j k
    using wf_tableD(3) [OF w that] fresh [OF that(1)] fresh [OF that(2)] that(3) by (cases "j = i"; cases "k = i") auto
  ultimately show ?thesis
    unfolding wf_table_def by blast
qed

lemma hands_out_fresh:
  assumes g: "geom B" and ho: "hands_out B k a B'" and k: "0 < k" and b: "B b = Some (n, False)"
  shows "B' b = Some (n, False)" "b \<noteq> a"
proof -
  show "B' b = Some (n, False)"
    using ho b unfolding hands_out_def by blast
  obtain x m where x: "B x = Some (m, True)" "x \<le> a" "a + k \<le> x + m"
    using ho unfolding hands_out_def by blast
  show "b \<noteq> a"
  proof
    assume "b = a"
    then have "x \<noteq> b"
      using x(1) b by auto
    with geom_disjoint [OF g x(1) b] x k \<open>b = a\<close> show False
      by linarith
  qed
qed

lemma store_pieces:
  assumes pc: "pieces s B T i pre (unat nx) post" and wf: "wf_request r"
    and z: "z = 16 + unat (key_len r) + unat (val_len r)"
    and inv1: "heap_inv s1 B' {}" and ho: "hands_out B k a B'" and kp: "kept B (nvm_data s) (nvm_data s1)"
    and foot: "ptr (nvm_data s1) (a + k - 4) = k" and k: "z + 4 \<le> k" and p: "p = a + 4"
    and s3: "nvm_data s3 = stored (nvm_data s1) p nx r"
  shows "pieces s3 B' T i pre p ((p, Key r, Val r, z + 8 \<le> k) # post)"
proof -
  note d = piecesD [OF pc] and g' = heap_invD(1) [OF inv1]
  let ?e = "(p, Key r, Val r, z + 8 \<le> k)" and ?m = "nvm_data s" and ?m3 = "nvm_data s3"
  have ex: "extent ?e = z"
    using wf_requestD(1,2) [OF wf] z by (simp add: extent_def)
  have k0: "0 < k"
    using k z by simp
  have ba: "B' a = Some (k, False)"
    using ho unfolding hands_out_def by blast
  have out: "?m3 x = nvm_data s1 x" if "x < p \<or> p + z \<le> x" for x
    unfolding s3 using that z by (intro stored_outside [OF wf]) linarith
  have old: "nvm_data s1 x = ?m x" if "payload B x \<or> heap_end + 4 \<le> x" for x
    using kp that unfolding kept_def payload_def by blast
  have new: "payload B' x" if "p \<le> x" "x < p + z" for x
    using that k p by (intro payloadI [of B', OF ba]) linarith+
  have not_old: "\<not> payload B x" if "a + 4 \<le> x" "x < a + k" for x
  proof
    assume "payload B x"
    then obtain b n where b: "B b = Some (n, False)" "b + 4 \<le> x" "x < b + n"
      by (auto simp: payload_def)
    note hf = hands_out_fresh [OF d(2) ho k0 b(1)]
    with geom_disjoint [OF g' hf(1) ba] geom_disjoint [OF g' ba hf(1)] that b show False
      by linarith
  qed
  have same: "?m3 x = ?m x" if "payload B x" for x
  proof -
    have "x < p \<or> p + z \<le> x"
      using not_old [of x] that k p by fastforce
    then show ?thesis
      using out old that by simp
  qed
  have high: "?m3 x = ?m x" if "heap_end + 4 \<le> x" for x
  proof -
    have "p + z \<le> x"
      using that geomD(5) [OF g' ba] k p by linarith
    then show ?thesis
      using out old that by simp
  qed
  have inv3: "heap_inv s3 B' {}"
    using inv1 by (rule heap_inv_frame) (metis out new not_le)
  have pc3: "pieces s3 B' T i pre (unat nx) post"
  proof (rule pieces_frame [OF pc inv3])
    fix j e n
    assume "j < kHashTableSize" "e \<in> set ((T(i := pre @ post)) j)" "B (fst e - 4) = Some (n, False)"
    then show "B' (fst e - 4) = Some (n, False)"
      using hands_out_fresh(1) [OF d(2) ho k0] by blast
  next
    fix j e x
    assume j: "j < kHashTableSize" "e \<in> set ((T(i := pre @ post)) j)" "touched e x \<or> slack B e x"
    have pl: "placed ?m B e"
      by (rule wf_tableD(1) [OF d(4) j(1,2)])
    then have "4 \<le> fst e"
      by (auto simp: placed_def)
    then show "?m3 x = ?m x"
      using j(3) touched_payload [OF pl] slack_payload [of B e x] same by blast
  qed (rule high)
  note d3 = piecesD [OF pc3]
  have "placed ?m3 B' ?e"
  proof -
    have "ptr ?m3 (a + k - 4) = k" if "z + 8 \<le> k"
    proof -
      have "?m3 x = nvm_data s1 x" if "a + k - 4 \<le> x" for x
        using that \<open>z + 8 \<le> k\<close> p by (intro out) linarith
      then have "rd32 ?m3 (a + k - 4) = rd32 (nvm_data s1) (a + k - 4)"
        by (intro rd32_cong)
      then show ?thesis
        using foot by (simp add: ptr_def)
    qed
    then show ?thesis
      unfolding placed_def ex using ba k p by (intro exI [of _ k]) auto
  qed
  moreover have fr: "fst ?e \<notin> fst ` set ((T(i := pre @ post)) j)" if "j < kHashTableSize" for j
  proof
    assume "fst ?e \<in> fst ` set ((T(i := pre @ post)) j)"
    then obtain e where e: "e \<in> set ((T(i := pre @ post)) j)" "fst e = p"
      by auto
    then have "placed ?m B e"
      by (intro wf_tableD(1) [OF d(4) that])
    then show False
      using hands_out_fresh(2) [OF d(2) ho k0] e(2) p by (auto simp: placed_def)
  qed
  ultimately have "wf_table ?m3 B' (T(i := pre @ ?e # post))"
    by (rule wf_table_insert [OF d3(4) _ d(3)])
  moreover have "lseg ?m3 p (?e # post) 0"
    using stored_obj [OF wf, of "nvm_data s1" p nx] d3(7) by (simp add: s3)
  ultimately show ?thesis
    using pc3 unfolding pieces_def by blast
qed

end
