(* ===== verification/Tablet_Theorems.thy ===== *)
theory Tablet_Theorems
  imports Tablet_Correct
begin

text \<open>
  The operations that change a tablet: \<^verbatim>\<open>Put\<close>, \<^verbatim>\<open>Add\<close> and \<^verbatim>\<open>Del\<close> keep the invariant and
  have the effect of the corresponding map operation on the contents, for every way through
  their bodies on which the allocator can serve them; and the loop of \<^verbatim>\<open>Del\<close> does not end when
  the first object of a bucket has another key.
\<close>

section \<open>Execution of the insertion\<close>

lemma Write_exec:
  assumes "0 < unat off" "unat off + length bs \<le> kNVMTabletSize"
  shows "\<exists>s'. Write s off bs = Some s' \<and> nvm_data s' = write_bytes (nvm_data s) (unat off) bs"
proof -
  have "off \<noteq> 0"
    using assms(1) by auto
  then show ?thesis
    using assms(2) by (simp add: Write_def ensure_def in_tablet_def log_write_def)
qed

lemma Memcpy_in_exec:
  assumes "unat off + length bs \<le> kNVMTabletSize"
  shows "\<exists>s'. Memcpy_in s off bs = Some s' \<and> nvm_data s' = write_bytes (nvm_data s) (unat off) bs"
  using assms by (simp add: Memcpy_in_def ensure_def in_tablet_def log_write_def)

text \<open>The object leaves the last word of its block alone, so that the footer stays intact.\<close>

definition roomy :: "Request \<Rightarrow> bool" where
  "roomy r \<longleftrightarrow> unat (object_size r) + 8 \<le> block_size (unat (object_size r))"

lemma store_object_correct:
  assumes pc: "pieces s B T i pre (unat nx) post" and wf: "wf_request r"
    and z: "unat (object_size r) \<le> 1148" and al: "Alloc s (object_size r) = Some (p, s1)" "p \<noteq> 0"
    and q: "unat q = last_cell i pre"
  shows "\<exists>s' B' b. store_object s r nx q = Some s' \<and> heap_inv s' B' {}
    \<and> wf_table (nvm_data s') B' (T(i := pre @ (unat p, Key r, Val r, b) # post))
    \<and> (\<forall>j<kHashTableSize. chained (nvm_data s') (T(i := pre @ (unat p, Key r, Val r, b) # post)) j)
    \<and> b = roomy r \<and> hands_out B (block_size (unat (object_size r))) (unat p - 4) B'"
proof -
  note d = piecesD [OF pc] and zz = object_size_unat [of r]
  let ?z = "unat (object_size r)" and ?k = "block_size (unat (object_size r))"
  have z13: "13 \<le> ?z"
    by (simp add: zz)
  obtain a B' where a: "unat p = a + 4" "heap_inv s1 B' {}" "hands_out B ?k a B'"
    "kept B (nvm_data s) (nvm_data s1)" "ptr (nvm_data s1) (a + ?k - 4) = ?k"
    using Alloc_success [OF d(1) z13 z al] by blast
  note k = block_size_bounds(4) [of ?z]
  have ba: "B' a = Some (?k, False)"
    using a(3) unfolding hands_out_def by blast
  have bound: "unat p + ?z \<le> heap_end"
    using geomD(5) [OF heap_invD(1) [OF a(2)] ba] k a(1) by linarith
  obtain s2 where s2: "Write s1 p (object_bytes nx (key_len r) (val_len r) (key_hash r)) = Some s2"
    "nvm_data s2 = write_bytes (nvm_data s1) (unat p) (object_bytes nx (key_len r) (val_len r) (key_hash r))"
    using Write_exec [of p "object_bytes nx (key_len r) (val_len r) (key_hash r)" s1] a(1) bound zz
    by (auto simp: kNVMTabletSize_def heap_end_def)
  have p16: "unat (p + 16) = unat p + 16"
    using bound zz by (subst unat_add_u32) (simp_all add: heap_end_def)
  obtain s3 where s3: "Memcpy_in s2 (p + 16) (Key r @ Val r) = Some s3"
    "nvm_data s3 = write_bytes (nvm_data s2) (unat p + 16) (Key r @ Val r)"
    using Memcpy_in_exec [of "p + 16" "Key r @ Val r" s2] p16 bound zz wf_requestD(1,2) [OF wf]
    by (auto simp: kNVMTabletSize_def heap_end_def)
  have "nvm_data s3 = stored (nvm_data s1) (unat p) nx r"
    by (simp add: stored_def s3(2) s2(2))
  from store_pieces [OF pc wf zz a(2-5) k a(1) this]
  have pc3: "pieces s3 B' T i pre (unat p) ((unat p, Key r, Val r, ?z + 8 \<le> ?k) # post)" .
  note lc = last_cell_cases [OF pc3]
  obtain s4 where s4: "Write32 s3 q p = Some s4" "nvm_data s4 = wr32 (nvm_data s3) (last_cell i pre) p"
    using Write_exec [of q "le_bytes 4 p" s3] lc(1,3) q by (auto simp: wr32_def)
  have "store_object s r nx q = Some s4"
    using al s2(1) s3(1) s4(1) by (simp add: store_object_def ensure_def wf_requestD(3) [OF wf])
  then show ?thesis
    using relink [OF pc3 s4(2)] a(1,3) by (auto simp: roomy_def)
qed

section \<open>Contents\<close>

text \<open>A table whose contents differ from those of another at one key.\<close>

definition updates :: "table \<Rightarrow> nat \<Rightarrow> u8 list \<Rightarrow> u8 list option \<Rightarrow> table \<Rightarrow> bool" where
  "updates T i k ov T' \<longleftrightarrow> (\<forall>j k'. lookup T' j k' = (if j = i \<and> k' = k then ov else lookup T j k'))"

lemma updates_insert:
  "T i = pre @ post \<Longrightarrow> k \<notin> fst ` snd ` set (T i) \<Longrightarrow> updates T i k (Some v) (T(i := pre @ (a, k, v, b) # post))"
  using contents_None [of k pre] by (auto simp: updates_def lookup_def image_Un split: option.split)

lemma updates_replace:
  "T i = pre @ (a, k, v, b) # post \<Longrightarrow> k \<notin> fst ` snd ` set pre \<Longrightarrow>
   updates T i k (Some v') (T(i := pre @ (a', k, v', b') # post))"
  by (auto simp: updates_def lookup_def contents_None split: option.split)

lemma updates_remove:
  "T i = pre @ (a, k, v, b) # post \<Longrightarrow> distinct (map (fst \<circ> snd) (T i)) \<Longrightarrow> updates T i k None (T(i := pre @ post))"
  by (force simp: updates_def lookup_def contents_None image_comp split: option.split)

text \<open>Rebuilding the invariant from its parts.\<close>

lemma tablet_invI:
  assumes inv: "tablet_inv s B T" and h: "heap_inv s' B' {}" and w: "wf_table (nvm_data s') B' (T(i := es))"
    and c: "\<And>j. j < kHashTableSize \<Longrightarrow> chained (nvm_data s') (T(i := es)) j" and ks: "distinct (map (fst \<circ> snd) es)"
  shows "tablet_inv s' B' (T(i := es))"
  using assms by (auto simp: tablet_inv_def)

lemma pieces_whole:
  assumes "tablet_inv s B T" "i < kHashTableSize"
  shows "pieces s B T i [] (ptr (nvm_data s) (slot_addr i)) (T i)"
  using assms by (auto simp: tablet_inv_def pieces_def chained_def)

lemma pieces_drop:
  assumes inv: "tablet_inv s B T" and i: "i < kHashTableSize" and T: "T i = pre @ e # post"
  shows "pieces s B T i pre (ptr (nvm_data s) (fst e)) post"
proof -
  note d = tablet_invD [OF inv i]
  have seg: "lseg (nvm_data s) (ptr (nvm_data s) (slot_addr i)) pre (fst e)" "lseg (nvm_data s) (ptr (nvm_data s) (fst e)) post 0"
    using d(4) unfolding T lseg_append by auto
  have "wf_table (nvm_data s) B (T(i := pre @ post))"
  proof -
    have sub: "set ((T(i := pre @ post)) j) \<subseteq> set (T j)" for j
      by (auto simp: T)
    have "distinct (map fst ((T(i := pre @ post)) j))" if "j < kHashTableSize" for j
      using wf_tableD(2) [OF d(3) that] by (cases "j = i") (auto simp: T)
    then show ?thesis
      using d(3) sub unfolding wf_table_def by (meson image_mono disjoint_iff subset_iff)
  qed
  then show ?thesis
    using d(1) i seg inv unfolding pieces_def by (auto simp: tablet_inv_def chained_def)
qed

section \<open>Put and Add: a new key\<close>

text \<open>
  The allocator can serve the object of a request: it is at most 1148 bytes long (above that
  \<^verbatim>\<open>Alloc\<close> aborts), some free block is large enough, and taking it does not leave the remainder of
  16 bytes on which \<^verbatim>\<open>Alloc\<close> aborts.
\<close>

definition served :: "Allocator \<Rightarrow> Request \<Rightarrow> bool" where
  "served s r \<longleftrightarrow> unat (object_size r) \<le> 1148 \<and> (\<exists>p s'. Alloc s (object_size r) = Some (p, s') \<and> p \<noteq> 0)"

lemma insert_correct:
  assumes inv: "tablet_inv s B T" and wf: "wf_request r" and sv: "served s r"
    and new: "Key r \<notin> fst ` snd ` set (T (bucket_of r))"
  shows "\<exists>s' B' T' a. store_object s r (rd32 (nvm_data s) (slot_addr (bucket_of r))) (slot_of r) = Some s'
    \<and> tablet_inv s' B' T' \<and> updates T (bucket_of r) (Key r) (Some (Val r)) T'
    \<and> hands_out B (block_size (unat (object_size r))) (a - 4) B'
    \<and> T' = T(bucket_of r := (a, Key r, Val r, roomy r) # T (bucket_of r))"
proof -
  let ?i = "bucket_of r"
  have i: "?i < kHashTableSize"
    by (rule bucket_of_less)
  obtain p s1 where al: "Alloc s (object_size r) = Some (p, s1)" "p \<noteq> 0" and z: "unat (object_size r) \<le> 1148"
    using sv by (auto simp: served_def)
  have pc: "pieces s B T ?i [] (unat (rd32 (nvm_data s) (slot_addr ?i))) (T ?i)"
    using pieces_whole [OF inv i] by (simp add: ptr_def)
  have q: "unat (slot_of r) = last_cell ?i []"
    by (simp add: slot_of_addr last_cell_def)
  let ?b = "roomy r"
  obtain s' B' where s': "store_object s r (rd32 (nvm_data s) (slot_addr ?i)) (slot_of r) = Some s'" "heap_inv s' B' {}"
    "wf_table (nvm_data s') B' (T(?i := [] @ (unat p, Key r, Val r, ?b) # T ?i))"
    "\<And>j. j < kHashTableSize \<Longrightarrow> chained (nvm_data s') (T(?i := [] @ (unat p, Key r, Val r, ?b) # T ?i)) j"
    and ho: "hands_out B (block_size (unat (object_size r))) (unat p - 4) B'"
    using store_object_correct [OF pc wf z al q] by blast
  have "tablet_inv s' B' (T(?i := [] @ (unat p, Key r, Val r, ?b) # T ?i))"
    using s' new tablet_invD(5) [OF inv i] by (intro tablet_invI [OF inv]) (auto simp: image_comp)
  moreover have "updates T ?i (Key r) (Some (Val r)) (T(?i := [] @ (unat p, Key r, Val r, ?b) # T ?i))"
    using new by (intro updates_insert) simp_all
  ultimately show ?thesis
    using s'(1) ho by (intro exI [of _ s'] exI [of _ B'] exI [of _ "T(?i := [] @ (unat p, Key r, Val r, ?b) # T ?i)"]
        exI [of _ "unat p"]) simp
qed

lemma find_cases:
  assumes inv: "tablet_inv s B T" and wf: "wf_request r"
  obtains (missing) q where "Key r \<notin> fst ` snd ` set (T (bucket_of r))"
      "find_loop s r (slot_of r) (rd32 (nvm_data s) (slot_addr (bucket_of r))) = Some (q, 0)"
  | (found) pre a v b post where "T (bucket_of r) = pre @ (a, Key r, v, b) # post" "Key r \<notin> fst ` snd ` set pre"
      "find_loop s r (slot_of r) (rd32 (nvm_data s) (slot_addr (bucket_of r))) =
        Some (of_nat (last_cell (bucket_of r) pre), of_nat a)" "of_nat a \<noteq> (0 :: u32)"
proof -
  let ?i = "bucket_of r"
  note d = tablet_invD [OF inv bucket_of_less [of r]] and fb = find_bucket [OF inv wf]
  show thesis
  proof (rule locate_cases [of "T ?i" "Key r" "slot_addr ?i"])
    show "\<And>e. e \<in> set (T ?i) \<Longrightarrow> fst e \<noteq> 0"
      by (rule d(7))
  next
    assume "Key r \<notin> fst ` snd ` set (T ?i)" "snd (locate (Key r) (slot_addr ?i) (T ?i)) = 0"
    then show thesis
      using missing fb by (simp split: prod.splits)
  next
    fix pre a v b post
    assume T: "T ?i = pre @ (a, Key r, v, b) # post" and k: "Key r \<notin> fst ` snd ` set pre" and a: "a \<noteq> 0"
      and loc: "locate (Key r) (slot_addr ?i) (T ?i) = (if pre = [] then slot_addr ?i else fst (last pre), a)"
    have "unat (of_nat a :: u32) = a"
      using placed_offsets(1) [OF d(2) d(6) [of "(a, Key r, v, b)"], of 0] by (simp add: T)
    with a have "of_nat a \<noteq> (0 :: u32)"
      by auto
    then show thesis
      using found [OF T k] fb loc by (simp add: last_cell_def)
  qed
qed

lemma store_object_aborts:
  assumes "\<not> served s r"
  shows "store_object s r nx q = None"
proof -
  have "Alloc s (object_size r) = None" if "1148 < unat (object_size r)"
  proof -
    have "unat (object_size r + 4) = unat (object_size r) + 4"
      using object_size_unat [of r] unat_u16_less [of "key_len r"] unat_u16_less [of "val_len r"]
      by (subst unat_add_u32) simp_all
    with that show ?thesis
      by (simp add: Alloc_def RoundupBlockSize_def word_le_nat_alt kMaxBlockSize_def)
  qed
  with assms show ?thesis
    by (cases "Alloc s (object_size r)") (auto simp: store_object_def served_def ensure_def not_le)
qed

lemma Add_spec:
  assumes inv: "tablet_inv s B T" and wf: "wf_request r" and ty: "req_type r = ADD"
  shows "if lookup T (bucket_of r) (Key r) \<noteq> None then Add s r ms = Some (ERROR, set_modifications s ms)
    else if served (set_modifications s ms) r then
      \<exists>s' B' T'. Add s r ms = Some (OK, s') \<and> tablet_inv s' B' T'
        \<and> updates T (bucket_of r) (Key r) (Some (Val r)) T'
    else Add s r ms = None"
proof -
  have inv': "tablet_inv (set_modifications s ms) B T"
    using inv by simp
  from inv' wf show ?thesis
  proof (cases rule: find_cases)
    case (missing q)
    show ?thesis
    proof (cases "served (set_modifications s ms) r")
      case True
      then show ?thesis
        using insert_correct [OF inv' wf _ missing(1)] missing
        by (fastforce simp: Add_def ensure_def ty Read_slot lookup_missing)
    next
      case False
      then show ?thesis
        using store_object_aborts [OF False] missing by (simp add: Add_def ensure_def ty Read_slot lookup_missing)
    qed
  next
    case (found pre a v b post)
    then show ?thesis
      using lookup_found [of T, OF found(1,2)] by (simp add: Add_def ensure_def ty Read_slot)
  qed
qed

text \<open>
  C10: \<^verbatim>\<open>Add\<close> of a key that is already stored returns an error and changes nothing. For a new
  key whose object is at most 1148 bytes long and for which \<^verbatim>\<open>Alloc\<close> returns a block, \<^verbatim>\<open>Add\<close>
  succeeds, keeps the tablet well-formed, and its contents are those of before with the new key
  bound to its value. In every other case (an object that is too large, a full heap, a remainder of
  16 bytes) \<^verbatim>\<open>Add\<close> of a new key aborts.
\<close>

theorem Add_correct:
  assumes "tablet_inv s B T" "wf_request r" "req_type r = ADD"
  shows "if lookup T (bucket_of r) (Key r) \<noteq> None then Add s r ms = Some (ERROR, set_modifications s ms)
    else if served (set_modifications s ms) r then
      \<exists>s' B' T'. Add s r ms = Some (OK, s') \<and> tablet_inv s' B' T'
        \<and> updates T (bucket_of r) (Key r) (Some (Val r)) T'
    else Add s r ms = None"
  using assms by (rule Add_spec)

text \<open>
  Where \<^verbatim>\<open>Put\<close> leaves the object, in the blocks and in the bucket. A new key: a fresh block, at
  the head of the bucket. A shorter value: the same block at the same place, the blocks unchanged.
  Otherwise: the block of the old object is taken back, a block is handed out of what is free then,
  and the new object stands where the old one stood between its neighbours in the bucket.
\<close>

definition put_places :: "blocks \<Rightarrow> table \<Rightarrow> Request \<Rightarrow> blocks \<Rightarrow> table \<Rightarrow> bool" where
  "put_places B T r B' T' \<longleftrightarrow>
     (let i = bucket_of r; z = block_size (unat (object_size r))
      in case lookup T i (Key r) of
        None \<Rightarrow> \<exists>a. hands_out B z (a - 4) B' \<and> T' = T(i := (a, Key r, Val r, roomy r) # T i)
      | Some v \<Rightarrow> \<exists>pre a b post. T i = pre @ (a, Key r, v, b) # post
          \<and> (if length (Val r) < length v then B' = B \<and> T' = T(i := pre @ (a, Key r, Val r, b) # post)
             else \<exists>n B1 a'. B (a - 4) = Some (n, False) \<and> takes_back B (a - 4) n B1 \<and> hands_out B1 z (a' - 4) B'
               \<and> T' = T(i := pre @ (a', Key r, Val r, roomy r) # post)))"

text \<open>
  \<^verbatim>\<open>Put\<close> of a new key, when the allocator can serve the object, succeeds, keeps the tablet
  well-formed, and its contents are those of before with the key bound to its value.
\<close>

lemma Put_new:
  assumes inv: "tablet_inv s B T" and wf: "wf_request r" and ty: "req_type r = PUT"
    and new: "lookup T (bucket_of r) (Key r) = None" and sv: "served (set_modifications s ms) r"
  shows "\<exists>s' B' T'. Put s r ms = Some (OK, s') \<and> tablet_inv s' B' T'
    \<and> updates T (bucket_of r) (Key r) (Some (Val r)) T' \<and> put_places B T r B' T'"
proof -
  have inv': "tablet_inv (set_modifications s ms) B T"
    using inv by simp
  from inv' wf show ?thesis
  proof (cases rule: find_cases)
    case (missing q)
    obtain s' B' T' a where s': "store_object (set_modifications s ms) r (rd32 (nvm_data s) (slot_addr (bucket_of r))) (slot_of r) = Some s'"
      "tablet_inv s' B' T'" "updates T (bucket_of r) (Key r) (Some (Val r)) T'"
      and pl: "hands_out B (block_size (unat (object_size r))) (a - 4) B'"
        "T' = T(bucket_of r := (a, Key r, Val r, roomy r) # T (bucket_of r))"
      using insert_correct [OF inv' wf sv missing(1)] by (simp only: nvm_data_set_modifications) blast
    have "Put s r ms = Some (OK, s')"
      using missing(2) s'(1) by (simp add: Put_def ensure_def ty Read_slot)
    moreover have "put_places B T r B' T'"
      using pl new by (auto simp: put_places_def Let_def)
    ultimately show ?thesis
      using s'(2,3) by blast
  next
    case (found pre a v b post)
    then show ?thesis
      using lookup_found [of T, OF found(1,2)] new by simp
  qed
qed

lemma others_differ:
  assumes inv: "tablet_inv s B T" and i: "i < kHashTableSize" and T: "T i = pre @ e # post"
    and f: "j < kHashTableSize" "f \<in> set ((T(i := pre @ post)) j)"
  shows "fst f \<noteq> fst e" "f \<in> set (T j)"
proof -
  note d = tablet_invD [OF inv i]
  show fj: "f \<in> set (T j)"
    using f(2) by (auto simp: T split: if_splits)
  have nd: "fst e \<notin> fst ` (set pre \<union> set post)"
    using wf_tableD(2) [OF d(3) i] by (auto simp: T)
  show "fst f \<noteq> fst e"
  proof
    assume "fst f = fst e"
    moreover have "e \<in> set (T i)"
      by (simp add: T)
    ultimately show False
      using entries_differ [OF d(3) f(1) i fj] f(2) nd by auto
  qed
qed

section \<open>Put: a shorter value\<close>

text \<open>Changing an entry in place.\<close>

lemma update_entry:
  assumes inv: "tablet_inv s B T" and i: "i < kHashTableSize" and T: "T i = pre @ e # post"
    and out: "\<And>x. \<not> touched e x \<Longrightarrow> nvm_data s' x = nvm_data s x"
    and e': "fst e' = fst e" "extent e' \<le> extent e" "snd (snd (snd e')) = snd (snd (snd e))" "fst (snd e') = fst (snd e)"
    and o: "obj (nvm_data s') e'" "ptr (nvm_data s') (fst e) = ptr (nvm_data s) (fst e)"
  shows "tablet_inv s' B (T(i := pre @ e' # post))"
proof -
  note d = tablet_invD [OF inv i]
  let ?T = "T(i := pre @ e' # post)"
  have e: "e \<in> set (T i)"
    by (simp add: T)
  have nd: "fst e \<notin> fst ` (set pre \<union> set post)"
    using wf_tableD(2) [OF d(3) i] by (auto simp: T)
  have apart: "nvm_data s' x = nvm_data s x"
    if "j < kHashTableSize" "f \<in> set (T j)" "fst f \<noteq> fst e" "touched f x \<or> slack B f x" for j f x
  proof (rule out)
    note pf = wf_tableD(1) [OF d(3) that(1,2)] and pe = d(6) [OF e]
    show "\<not> touched e x"
      using that(4) placed_apart [OF d(2) pf pe that(3), of x] slack_apart [OF d(2) pf pe _ that(3), of x]
      unfolding touched_def [of e] by linarith
  qed
  have high: "nvm_data s' x = nvm_data s x" if "heap_end + 4 \<le> x" for x
    using placed_bounds(3) [OF d(2) d(6) [OF e]] that by (intro out) (simp add: touched_def)
  have h: "heap_inv s' B {}"
    using d(1) by (rule heap_inv_frame) (use out touched_payload [OF d(6) [OF e]] in blast)
  have pc: "pieces s' B T i pre (ptr (nvm_data s) (fst e)) post"
  proof (rule pieces_frame [OF pieces_drop [OF inv i T] h])
    fix j f x
    assume f: "j < kHashTableSize" "f \<in> set ((T(i := pre @ post)) j)" "touched f x \<or> slack B f x"
    then show "nvm_data s' x = nvm_data s x"
      using apart others_differ [OF inv i T f(1,2)] by blast
  qed (assumption | rule high)+
  note p = piecesD [OF pc]
  have "placed (nvm_data s') B e'"
  proof -
    obtain n where n: "4 \<le> fst e" "B (fst e - 4) = Some (n, False)" "extent e + 4 \<le> n"
      "snd (snd (snd e)) \<longrightarrow> extent e + 8 \<le> n \<and> ptr (nvm_data s) (fst e - 4 + n - 4) = n"
      using d(6) [OF e] by (auto simp: placed_def)
    have "ptr (nvm_data s') (fst e - 4 + n - 4) = ptr (nvm_data s) (fst e - 4 + n - 4)" if "extent e + 8 \<le> n"
      unfolding ptr_def using that n(1)
      by (intro arg_cong [where f = unat] rd32_cong out) (unfold touched_def, linarith)
    then show ?thesis
      unfolding placed_def e'(1,3) using n e'(2) by (intro exI [of _ n]) auto
  qed
  moreover have "fst e' \<notin> fst ` set ((T(i := pre @ post)) j)" if "j < kHashTableSize" for j
    using nd wf_tableD(3) [OF d(3) i that] e by (cases "j = i") (auto simp: e'(1) T)
  ultimately have w: "wf_table (nvm_data s') B ?T"
    by (rule wf_table_insert [OF p(4) _ i])
  have "chained (nvm_data s') ?T j" if j: "j < kHashTableSize" for j
  proof (cases "j = i")
    case False
    then show ?thesis
      using p(5) [OF j False] by (simp add: chained_def)
  next
    case True
    have "lseg (nvm_data s) (ptr (nvm_data s) (slot_addr i)) pre (fst e)"
      using d(4) unfolding T lseg_append by auto
    then have "lseg (nvm_data s') (ptr (nvm_data s) (slot_addr i)) pre (fst e)"
    proof (rule lseg_frame)
      fix f x
      assume f: "f \<in> set pre" "touched f x"
      then have "fst f \<noteq> fst e"
        using nd by (metis UnI1 imageI)
      then show "nvm_data s' x = nvm_data s x"
        using f apart [OF i, of f x] by (simp add: T)
    qed
    moreover have "ptr (nvm_data s') (slot_addr i) = ptr (nvm_data s) (slot_addr i)"
      unfolding ptr_def
      by (intro arg_cong [where f = unat] rd32_cong high) (simp add: slot_addr_def heap_end_def)
    ultimately show ?thesis
      using True o p(7) e'(1) by (auto simp: chained_def lseg_append)
  qed
  moreover have "distinct (map (fst \<circ> snd) (pre @ e' # post))"
    using d(5) by (simp add: T e'(4))
  ultimately show ?thesis
    using h w by (intro tablet_invI [OF inv])
qed

lemma overwrite_obj:
  assumes "obj m (a, k, v, b)" "length w \<le> length v"
    and "m' = write_bytes (write_bytes m (a + 6) (le_bytes 2 (of_nat (length w) :: u16))) (a + 16 + length k) w"
  shows "obj m' (a, k, w, b)" "\<And>x. \<not> touched (a, k, v, b) x \<Longrightarrow> m' x = m x" "ptr m' a = ptr m a"
proof -
  have o: "length k < 2 ^ 16" "length v < 2 ^ 16" "rd16 m (a + 4) = of_nat (length k)"
    "read_bytes m (a + 16) (length k) = k"
    using assms(1) by (simp_all add: obj_def)
  have r: "read_bytes m' (a + j) n = read_bytes m (a + j) n" if "j + n \<le> 6 \<or> 16 \<le> j \<and> j + n \<le> 16 + length k" for j n
    using that unfolding assms(3) by (subst read_write_disjoint, simp, linarith)+ simp
  have "read_bytes m' (a + 6) 2 = le_bytes 2 (of_nat (length w) :: u16)"
    unfolding assms(3) by (subst read_write_disjoint) (simp_all add: read_write_same)
  then have "rd16 m' (a + 6) = of_nat (length w)"
    by (simp add: rd16_def codec_u16.dec_enc)
  moreover have "read_bytes m' (a + 16 + length k) (length w) = w"
    unfolding assms(3) by (simp add: read_write_same)
  ultimately show "obj m' (a, k, w, b)"
    using o assms(2) r [of 4 2] r [of 16 "length k"] by (simp add: obj_def rd16_def)
  show "ptr m' a = ptr m a"
    using r [of 0 4] by (simp add: ptr_def rd32_def)
  show "m' x = m x" if "\<not> touched (a, k, v, b) x" for x
    using that assms(2) unfolding assms(3) by (auto simp: touched_def extent_def write_bytes_def)
qed

lemma locate_append:
  "k \<notin> fst ` snd ` set pre \<Longrightarrow>
   locate k q (pre @ (a, k, v, b) # post) = (if pre = [] then q else fst (last pre), a)"
  by (induction pre arbitrary: q) auto

lemma Read16_val_len:
  assumes "geom B" "placed m B (a, k, v, b)" "obj (nvm_data s) (a, k, v, b)"
  shows "Read16 s (of_nat a + 6) = Some (of_nat (length v))"
proof -
  note bd = placed_bounds [OF assms(1,2)]
  have u: "unat (of_nat a + 6 :: u32) = a + 6"
    using placed_offsets(2) [OF assms(1,2), of 6] by (simp add: extent_def)
  then have "of_nat a + 6 \<noteq> (0 :: u32)"
    by auto
  moreover have "rd16 (nvm_data s) (a + 6) = of_nat (length v)"
    using assms(3) by (simp add: obj_def)
  ultimately show ?thesis
    using bd by (simp add: Read16_def Read_def ensure_def in_tablet_def u extent_def kNVMTabletSize_def heap_end_def
        flip: rd16_def)
qed

lemma shorter_iff:
  assumes "wf_request r" "obj m (a, k, v, b)"
  shows "val_len r < of_nat (length v) \<longleftrightarrow> length (Val r) < length v"
  using assms wf_requestD(2) [OF assms(1)]
  by (simp add: obj_def word_less_nat_alt unat_of_nat take_bit_nat_eq_self)

text \<open>
  \<^verbatim>\<open>Put\<close> of a stored key with a value shorter than the stored one overwrites it in place:
  it always succeeds, keeps the tablet well-formed with the same blocks, and binds the key to the
  new value.
\<close>

lemma Put_in_place:
  assumes inv: "tablet_inv s B T" and wf: "wf_request r" and ty: "req_type r = PUT"
    and old: "lookup T (bucket_of r) (Key r) = Some v" "length (Val r) < length v"
  shows "\<exists>s' T'. Put s r ms = Some (OK, s') \<and> tablet_inv s' B T'
    \<and> updates T (bucket_of r) (Key r) (Some (Val r)) T' \<and> put_places B T r B T'"
proof -
  let ?i = "bucket_of r" and ?s = "set_modifications s ms"
  have inv': "tablet_inv ?s B T"
    using inv by simp
  from inv' wf show ?thesis
  proof (cases rule: find_cases)
    case (missing q)
    then show ?thesis
      using old(1) lookup_missing [of "Key r" T ?i] by simp
  next
    case (found pre a v' b post)
    have v': "v' = v"
      using lookup_found [of T, OF found(1,2)] old(1) by simp
    let ?e = "(a, Key r, v, b)" and ?e' = "(a, Key r, Val r, b)"
    note d = tablet_invD [OF inv' bucket_of_less [of r]]
    have e: "?e \<in> set (T ?i)"
      by (simp add: found(1) v')
    note pl = d(6) [OF e] and bd = placed_bounds [OF d(2) d(6) [OF e]] and L = wf_requestD(1,2) [OF wf]
    have o: "obj (nvm_data ?s) ?e"
      using d(4) unfolding found(1) lseg_append v' by auto
    have u: "unat (of_nat a + 6 :: u32) = a + 6" "unat (of_nat a + 16 + ucast (key_len r) :: u32) = a + 16 + length (Key r)"
      using placed_offsets(2) [OF d(2) pl, of 6] placed_offsets(2) [OF d(2) pl, of "16 + unat (key_len r)"] L
      by (simp_all add: extent_def add.assoc)
    note vl = Read16_val_len [OF d(2) pl o]
    have vw: "val_len r = of_nat (length (Val r))"
      using L(2) by simp
    have less: "val_len r < of_nat (length v)"
      using shorter_iff [OF wf o] old(2) by simp
    obtain s1 where s1: "Write ?s (of_nat a + 6) (le_bytes 2 (val_len r)) = Some s1"
      "nvm_data s1 = write_bytes (nvm_data s) (a + 6) (le_bytes 2 (val_len r))"
      using Write_exec [of "of_nat a + 6" "le_bytes 2 (val_len r)" ?s] bd u(1)
      by (auto simp: extent_def kNVMTabletSize_def heap_end_def)
    obtain s2 where s2: "Memcpy_in s1 (of_nat a + 16 + ucast (key_len r)) (Val r) = Some s2"
      "nvm_data s2 = write_bytes (nvm_data s1) (a + 16 + length (Key r)) (Val r)"
      using Memcpy_in_exec [of "of_nat a + 16 + ucast (key_len r)" "Val r" s1] bd u(2) old(2)
      by (auto simp: extent_def kNVMTabletSize_def heap_end_def)
    have "nvm_data s2 = write_bytes (write_bytes (nvm_data ?s) (a + 6) (le_bytes 2 (of_nat (length (Val r)) :: u16)))
        (a + 16 + length (Key r)) (Val r)"
      by (simp only: s2(2) s1(2) vw nvm_data_set_modifications)
    note ob = overwrite_obj [OF o less_imp_le [OF old(2)] this]
    have "tablet_inv s2 B (T(?i := pre @ ?e' # post))"
      using ob old(2) found(1)
      by (intro update_entry [OF inv' bucket_of_less, of r pre ?e post]) (simp_all add: v' extent_def)
    moreover have "updates T ?i (Key r) (Some (Val r)) (T(?i := pre @ ?e' # post))"
      using found(1,2) by (intro updates_replace) simp_all
    moreover have "put_places B T r B (T(?i := pre @ ?e' # post))"
      using old found(1) v' by (auto simp: put_places_def Let_def)
    moreover have "Put s r ms = Some (OK, s2)"
      using found(3,4) vl less s1(1) s2(1) by (simp add: Put_def ensure_def ty Read_slot)
    ultimately show ?thesis
      by blast
  qed
qed

section \<open>Freeing an entry's block\<close>

lemma Free_entry:
  assumes inv: "heap_inv s B {}" and pl: "placed (nvm_data s) B e" "snd (snd (snd e))"
  shows "\<exists>s' B' n. Free s (of_nat (fst e)) = Some s' \<and> heap_inv s' B' {} \<and> B (fst e - 4) = Some (n, False)
    \<and> takes_back B (fst e - 4) n B' \<and> kept (B(fst e - 4 \<mapsto> (n, True))) (nvm_data s) (nvm_data s')"
proof -
  obtain n where n: "4 \<le> fst e" "B (fst e - 4) = Some (n, False)" "ptr (nvm_data s) (fst e - 4 + n - 4) = n"
    using pl by (auto simp: placed_def)
  have "fst e - 4 + 4 = fst e"
    using n(1) by simp
  then show ?thesis
    using Free_ok [OF inv n(2,3)] n(2) by fastforce
qed

lemma pieces_free:
  assumes pc: "pieces s B T i pre p post" and inv: "heap_inv s' B' {}" and e: "4 \<le> fst e" "B (fst e - 4) = Some (n, False)"
    and tb: "takes_back B (fst e - 4) n B'" and kp: "kept (B(fst e - 4 \<mapsto> (n, True))) (nvm_data s) (nvm_data s')"
    and out: "\<And>j f. j < kHashTableSize \<Longrightarrow> f \<in> set ((T(i := pre @ post)) j) \<Longrightarrow> fst f \<noteq> fst e"
  shows "pieces s' B' T i pre p post"
proof (rule pieces_frame [OF pc inv])
  note d = piecesD [OF pc]
  have ne: "fst f - 4 \<noteq> fst e - 4" if "j < kHashTableSize" "f \<in> set ((T(i := pre @ post)) j)" for j f
  proof -
    have "4 \<le> fst f"
      using wf_tableD(1) [OF d(4) that] by (auto simp: placed_def)
    then show ?thesis
      using out [OF that] e(1) by linarith
  qed
  fix j f
  assume f: "j < kHashTableSize" "f \<in> set ((T(i := pre @ post)) j)"
  note pl = wf_tableD(1) [OF d(4) f]
  show "B' (fst f - 4) = Some (k, False)" if "B (fst f - 4) = Some (k, False)" for k
    using tb ne [OF f] that unfolding takes_back_def by blast
  show "nvm_data s' x = nvm_data s x" if "touched f x \<or> slack B f x" for x
  proof -
    have "payload (B(fst e - 4 \<mapsto> (n, True))) x"
    proof -
      obtain k where k: "4 \<le> fst f" "B (fst f - 4) = Some (k, False)" "extent f + 4 \<le> k"
        using pl by (auto simp: placed_def)
      have "fst f \<le> x" "x < fst f - 4 + k"
        using that k extent_ge [of f] by (auto simp: touched_def slack_def)
      then show ?thesis
        using k ne [OF f] by (intro payloadI [of _ "fst f - 4" k]) auto
    qed
    then show ?thesis
      using kp unfolding kept_def payload_def by blast
  qed
next
  show "nvm_data s' x = nvm_data s x" if "heap_end + 4 \<le> x" for x
    using kp that unfolding kept_def by blast
qed

text \<open>
  \<^verbatim>\<open>Put\<close> of a stored key with a value at least as long frees the old object and stores a new
  one in its place in the bucket. When the footer of the old block is intact, freeing it
  succeeds, and when the allocator can then serve the object, \<^verbatim>\<open>Put\<close> succeeds, keeps the tablet
  well-formed and binds the key to the new value.
\<close>

lemma Put_replace:
  assumes inv: "tablet_inv s B T" and wf: "wf_request r" and ty: "req_type r = PUT"
    and old: "T (bucket_of r) = pre @ (a, Key r, v, True) # post" "Key r \<notin> fst ` snd ` set pre" "length v \<le> length (Val r)"
  shows "\<exists>s1. Free (set_modifications s ms) (of_nat a) = Some s1 \<and> (served s1 r \<longrightarrow>
    (\<exists>s' B' T'. Put s r ms = Some (OK, s') \<and> tablet_inv s' B' T'
      \<and> updates T (bucket_of r) (Key r) (Some (Val r)) T' \<and> put_places B T r B' T'))"
proof -
  let ?i = "bucket_of r" and ?s = "set_modifications s ms" and ?e = "(a, Key r, v, True)"
  have inv': "tablet_inv ?s B T"
    using inv by simp
  note d = tablet_invD [OF inv' bucket_of_less [of r]]
  have e: "?e \<in> set (T ?i)"
    by (simp add: old(1))
  note pl = d(6) [OF e] and bd = placed_bounds [OF d(2) d(6) [OF e]]
  have i: "?i < kHashTableSize"
    by (rule bucket_of_less)
  have ua: "unat (of_nat a :: u32) = a"
    using placed_offsets(1) [OF d(2) pl, of 0] by simp
  have a0: "of_nat a \<noteq> (0 :: u32)"
    using ua bd(1) by auto
  have fl: "find_loop ?s r (slot_of r) (rd32 (nvm_data s) (slot_addr ?i)) = Some (of_nat (last_cell ?i pre), of_nat a)"
    using find_bucket [OF inv' wf] locate_append [OF old(2)] by (simp add: old(1) last_cell_def)
  obtain s1 B1 n where f: "Free ?s (of_nat (fst ?e)) = Some s1" "heap_inv s1 B1 {}" "B (fst ?e - 4) = Some (n, False)"
    "takes_back B (fst ?e - 4) n B1" "kept (B(fst ?e - 4 \<mapsto> (n, True))) (nvm_data ?s) (nvm_data s1)"
    using Free_entry [OF d(1) pl] by auto
  have a4: "4 \<le> fst ?e"
    using bd(1) by simp
  note pc0 = pieces_drop [OF inv' i old(1)]
  have pc: "pieces s1 B1 T ?i pre (ptr (nvm_data ?s) (fst ?e)) post"
    using others_differ(1) [OF inv' i old(1)] by (rule pieces_free [OF pc0 f(2) a4 f(3-5)])
  define nx where "nx = rd32 (nvm_data s) a"
  have pc': "pieces s1 B1 T ?i pre (unat nx) post"
    using pc by (simp add: nx_def ptr_def)
  have rd: "Read32 ?s (of_nat a) = Some nx"
    using bd ua by (simp add: Read32_off heap_off_def nx_def extent_def)
  have o: "obj (nvm_data ?s) ?e"
    using d(4) unfolding old(1) lseg_append by auto
  have uq: "unat (of_nat (last_cell ?i pre) :: u32) = last_cell ?i pre"
    using last_cell_cases(1) [OF pc'] by (intro unat_of_nat_u32) (simp add: kNVMTabletSize_def)
  have "\<exists>s' B' T'. Put s r ms = Some (OK, s') \<and> tablet_inv s' B' T' \<and> updates T ?i (Key r) (Some (Val r)) T'
      \<and> put_places B T r B' T'"
    if sv: "served s1 r"
  proof -
    obtain p s2 where al: "Alloc s1 (object_size r) = Some (p, s2)" "p \<noteq> 0" and z: "unat (object_size r) \<le> 1148"
      using sv by (auto simp: served_def)
    let ?b = "roomy r"
    let ?T = "T(?i := pre @ (unat p, Key r, Val r, ?b) # post)"
    obtain s' B' where s': "store_object s1 r nx (of_nat (last_cell ?i pre)) = Some s'" "heap_inv s' B' {}"
      "wf_table (nvm_data s') B' ?T" "\<And>j. j < kHashTableSize \<Longrightarrow> chained (nvm_data s') ?T j"
      and ho: "hands_out B1 (block_size (unat (object_size r))) (unat p - 4) B'"
      using store_object_correct [OF pc' wf z al uq] by blast
    have "lookup T ?i (Key r) = Some v"
      by (rule lookup_found [of T, OF old(1,2)])
    then have "put_places B T r B' ?T"
      using old(1,3) f(3,4) ho unfolding put_places_def Let_def by fastforce
    moreover have "distinct (map (fst \<circ> snd) (pre @ (unat p, Key r, Val r, ?b) # post))"
      using d(5) by (simp add: old(1))
    then have "tablet_inv s' B' ?T"
      using s' by (intro tablet_invI [OF inv'])
    moreover have "updates T ?i (Key r) (Some (Val r)) ?T"
      using old(1,2) by (intro updates_replace) simp_all
    moreover have "Put s r ms = Some (OK, s')"
      using fl a0 Read16_val_len [OF d(2) pl o] rd f(1) s'(1) shorter_iff [OF wf o] old(3)
      by (simp add: Put_def ensure_def ty Read_slot)
    ultimately show ?thesis
      by blast
  qed
  then show ?thesis
    using f(1) by auto
qed

section \<open>All branches of Put\<close>

text \<open>
  What \<^verbatim>\<open>Put\<close> needs: that the allocator can serve the object of a new key; nothing for a value
  shorter than the stored one; otherwise that the old object has not reached the last word of its
  block (its footer is intact) and that the allocator can serve the new object once the old one
  is released.
\<close>

definition put_possible :: "Allocator \<Rightarrow> table \<Rightarrow> Request \<Rightarrow> bool" where
  "put_possible s T r \<longleftrightarrow>
     (case lookup T (bucket_of r) (Key r) of
        None \<Rightarrow> served s r
      | Some v \<Rightarrow> length (Val r) < length v
          \<or> (\<exists>pre a post s1. T (bucket_of r) = pre @ (a, Key r, v, True) # post \<and> Free s (of_nat a) = Some s1 \<and> served s1 r))"

lemma first_occurrence:
  assumes "tablet_inv s B T" "i < kHashTableSize" "T i = pre @ (a, k, v, b) # post"
  shows "k \<notin> fst ` snd ` set pre"
proof -
  have "distinct (map (fst \<circ> snd) (T i))"
    using assms(1,2) by (simp add: tablet_inv_def)
  then show ?thesis
    by (simp add: assms(3) image_image comp_def)
qed

lemma Put_spec:
  assumes "tablet_inv s B T" "wf_request r" "req_type r = PUT" "put_possible (set_modifications s ms) T r"
  shows "\<exists>s' B' T'. Put s r ms = Some (OK, s') \<and> tablet_inv s' B' T' \<and> updates T (bucket_of r) (Key r) (Some (Val r)) T'
    \<and> put_places B T r B' T'"
proof (cases "lookup T (bucket_of r) (Key r)")
  case None
  then show ?thesis
    using Put_new [OF assms(1-3)] assms(4) by (auto simp: put_possible_def)
next
  case (Some v)
  show ?thesis
  proof (cases "length (Val r) < length v")
    case True
    then show ?thesis
      using Put_in_place [OF assms(1-3) Some] by blast
  next
    case False
    then obtain pre a post s1 where T: "T (bucket_of r) = pre @ (a, Key r, v, True) # post"
        "Free (set_modifications s ms) (of_nat a) = Some s1" "served s1 r"
      using assms(4) Some by (auto simp: put_possible_def)
    obtain s2 where s2: "Free (set_modifications s ms) (of_nat a) = Some s2" "served s2 r \<longrightarrow>
        (\<exists>s' B' T'. Put s r ms = Some (OK, s') \<and> tablet_inv s' B' T' \<and> updates T (bucket_of r) (Key r) (Some (Val r)) T'
          \<and> put_places B T r B' T')"
      using Put_replace [OF assms(1-3) T(1) first_occurrence [OF assms(1) bucket_of_less T(1)]] False by (meson not_le)
    then have "s2 = s1"
      using T(2) by simp
    then show ?thesis
      using s2(2) T(3) False Some by (metis option.inject)
  qed
qed

text \<open>
  C11: Under the conditions below \<^verbatim>\<open>Put\<close> succeeds, keeps the tablet well-formed and binds the key
  to the value, all other keys to what they were bound to. A new key, when the allocator can serve
  its object, is inserted at the head of the bucket in a fresh block. A value shorter than the
  stored one is written over it, always, without a change of the blocks or of the bucket's order.
  For any other value of a stored key, when the footer of the old object's block is intact and the
  allocator can serve the new object once the old one is freed, the block of the old object is
  taken back (with the merge of its neighbours), a block is handed out of what is free then, and
  the new object takes the place of the old one between its neighbours in the bucket.
\<close>

theorem Put_correct:
  assumes "tablet_inv s B T" "wf_request r" "req_type r = PUT" "put_possible (set_modifications s ms) T r"
  shows "\<exists>s' B' T'. Put s r ms = Some (OK, s') \<and> tablet_inv s' B' T' \<and> updates T (bucket_of r) (Key r) (Some (Val r)) T'
    \<and> put_places B T r B' T'"
  using assms by (rule Put_spec)

end
