(* ===== verification/Tablet_Delete.thy ===== *)
theory Tablet_Delete
  imports Tablet_Theorems
begin

text \<open>
  \<^verbatim>\<open>Del\<close>: it removes the first object of a bucket, returns an error on an empty bucket, and
  does not return when the first object of the bucket has another key, because its loop never
  advances. The last section runs the tablet operations one after the other on a formatted
  tablet.
\<close>

section \<open>One round of the loop\<close>

lemma first_matches:
  assumes inv: "tablet_inv s B T" and wf: "wf_request r" and T: "T (bucket_of r) = e # post"
    and p: "p = rd32 (nvm_data s) (slot_addr (bucket_of r))"
  shows "key_matches s r p = Some (fst (snd e) = Key r)" "unat p = fst e" "p \<noteq> 0" "p = of_nat (fst e)"
proof -
  note d = tablet_invD [OF inv bucket_of_less [of r]]
  obtain a k v b where e: "e = (a, k, v, b)"
    by (cases e)
  have mem: "e \<in> set (T (bucket_of r))"
    by (simp add: T)
  note bd = placed_bounds [OF d(2) d(6) [OF mem]]
  show u: "unat p = fst e"
    using d(4) by (simp add: T p ptr_def)
  show "p \<noteq> 0"
    using u bd(1) by auto
  show "p = of_nat (fst e)"
    by (simp flip: u)
  have "obj (nvm_data s) e"
    using d(4) by (simp add: T)
  then show "key_matches s r p = Some (fst (snd e) = Key r)"
    using key_matches_obj [of s p k v b r] wf bd u by (simp add: e extent_def add.assoc)
qed

text \<open>A round that comes back to the same object never ends: the least fixed point is undefined there.\<close>

lemma del_loop_stuck:
  assumes "p \<noteq> 0" "del_step s r q p = Some (Inr p)"
  shows "del_loop s r q p = None"
proof (rule ccontr)
  assume "del_loop s r q p \<noteq> None"
  then obtain y where "del_loop s r q p = Some y"
    by auto
  then have "(s, r, q, p) \<noteq> (s, r, q, p)"
  proof (rule del_loop.raw_induct [where P = "\<lambda>s' r' q' p' _. (s', r', q', p') \<noteq> (s, r, q, p)", rotated])
    fix f s' r' q' p' y'
    assume ih: "\<And>s' r' q' p' y. f s' r' q' p' = Some y \<Longrightarrow> (s', r', q', p') \<noteq> (s, r, q, p)"
      and body: "(if p' = 0 then Some (ERROR, s')
        else do { x \<leftarrow> del_step s' r' q' p'; case x of Inl s \<Rightarrow> Some (OK, s) | Inr p \<Rightarrow> f s' r' q' p }) = Some y'"
    show "(s', r', q', p') \<noteq> (s, r, q, p)"
    proof
      assume "(s', r', q', p') = (s, r, q, p)"
      then have "f s r q p = Some y'"
        using body assms by simp
      then show False
        using ih by blast
    qed
  qed
  then show False
    by simp
qed

text \<open>
  C13: When the first object of the bucket has another key, one round of the loop of \<^verbatim>\<open>Del\<close>
  fails no assertion and comes back to the object it started with, and \<^verbatim>\<open>Del\<close> never
  returns, whether or not the key is stored further down the bucket.
\<close>

theorem Del_diverges:
  assumes inv: "tablet_inv s B T" and wf: "wf_request r" and ty: "req_type r = DEL" and T: "T (bucket_of r) = e # post" "fst (snd e) \<noteq> Key r"
  shows "del_step (set_modifications s ms) r (slot_of r) (of_nat (fst e)) = Some (Inr (of_nat (fst e)))
    \<and> Del s r ms = None"
proof -
  have inv': "tablet_inv (set_modifications s ms) B T"
    using inv by simp
  define p where "p = rd32 (nvm_data (set_modifications s ms)) (slot_addr (bucket_of r))"
  note fm = first_matches [OF inv' wf T(1) p_def]
  have st: "del_step (set_modifications s ms) r (slot_of r) p = Some (Inr p)"
    using fm(1) T(2) by (simp add: del_step_def)
  moreover have "Del s r ms = None"
    using del_loop_stuck [OF fm(3) st] p_def by (simp add: Del_def ensure_def Read_slot)
  ultimately show ?thesis
    by (simp add: fm(4))
qed

text \<open>The successful round: the object leaves the bucket, then its block is freed.\<close>

text \<open>The block at an offset was allocated and has been taken back.\<close>

definition released :: "blocks \<Rightarrow> nat \<Rightarrow> blocks \<Rightarrow> bool" where
  "released B a B' \<longleftrightarrow> (\<exists>n. B a = Some (n, False) \<and> takes_back B a n B')"

lemma del_first:
  assumes inv: "tablet_inv s B T" and T: "T i = (a, k, v, True) # post" and i: "i < kHashTableSize"
    and q: "unat q = slot_addr i"
  shows "\<exists>s1 s' B'. Read32 s (of_nat a) = Some (rd32 (nvm_data s) a) \<and> Write32 s q (rd32 (nvm_data s) a) = Some s1
    \<and> Free s1 (of_nat a) = Some s' \<and> tablet_inv s' B' (T(i := post)) \<and> released B (a - 4) B'"
proof -
  let ?e = "(a, k, v, True)"
  note d = tablet_invD [OF inv i]
  have e: "?e \<in> set (T i)"
    by (simp add: T)
  note pl = d(6) [OF e] and bd = placed_bounds [OF d(2) d(6) [OF e]]
  have ua: "unat (of_nat a :: u32) = a"
    using placed_offsets(1) [OF d(2) pl, of 0] by simp
  have rd: "Read32 s (of_nat a) = Some (rd32 (nvm_data s) a)"
    using bd ua by (simp add: Read32_off heap_off_def extent_def)
  have T': "T i = [] @ ?e # post"
    by (simp add: T)
  have pc: "pieces s B T i [] (unat (rd32 (nvm_data s) a)) post"
    using pieces_drop [OF inv i T'] by (simp add: ptr_def)
  obtain s1 where s1: "Write32 s q (rd32 (nvm_data s) a) = Some s1"
    "nvm_data s1 = wr32 (nvm_data s) (last_cell i []) (rd32 (nvm_data s) a)"
    using Write_exec [of q "le_bytes 4 (rd32 (nvm_data s) a)" s] slot_less [OF i] q
    by (auto simp: wr32_def last_cell_def slot_addr_def)
  note rl = relink [OF pc s1(2)]
  have inv1: "tablet_inv s1 B (T(i := post))"
    using rl d(5) by (intro tablet_invI [OF inv]) (simp_all add: T)
  have pl1: "placed (nvm_data s1) B ?e"
    using pl
  proof (rule placed_mono)
    fix x
    assume "slack B ?e x"
    then have "x < heap_end"
      using geomD(5) [OF d(2)] bd(1) by (fastforce simp: slack_def)
    then show "nvm_data s1 x = nvm_data s x"
      unfolding s1(2) by (intro wr32_outside) (simp add: last_cell_def slot_addr_def heap_end_def)
  qed
  obtain s' B' n where f: "Free s1 (of_nat (fst ?e)) = Some s'" "heap_inv s' B' {}" "B (fst ?e - 4) = Some (n, False)"
    "takes_back B (fst ?e - 4) n B'" "kept (B(fst ?e - 4 \<mapsto> (n, True))) (nvm_data s1) (nvm_data s')"
    using Free_entry [OF tablet_invD(1) [OF inv1 i] pl1] by auto
  have a4: "4 \<le> fst ?e"
    using bd(1) by simp
  have pc1: "pieces s1 B (T(i := post)) i [] (ptr (nvm_data s1) (slot_addr i)) post"
    using pieces_whole [OF inv1 i] by simp
  have pc2: "pieces s' B' (T(i := post)) i [] (ptr (nvm_data s1) (slot_addr i)) post"
    using others_differ(1) [OF inv i T'] by (intro pieces_free [OF pc1 f(2) a4 f(3-5)]) auto
  have "ptr (nvm_data s') (slot_addr i) = ptr (nvm_data s1) (slot_addr i)"
    using f(5) unfolding ptr_def kept_def
    by (intro arg_cong [where f = unat] rd32_cong) (simp add: slot_addr_def heap_end_def)
  then have "chained (nvm_data s') (T(i := post)) j" if "j < kHashTableSize" for j
    using piecesD(5) [OF pc2 that] piecesD(7) [OF pc2] by (cases "j = i") (simp_all add: chained_def)
  then have "tablet_inv s' B' (T(i := post))"
    using piecesD(1,4) [OF pc2] d(5) by (intro tablet_invI [OF inv]) (simp_all add: T)
  then show ?thesis
    using rd s1(1) f(1,3,4) unfolding released_def by auto
qed

lemma Del_spec:
  assumes inv: "tablet_inv s B T" and wf: "wf_request r" and ty: "req_type r = DEL"
  shows "(T (bucket_of r) = [] \<longrightarrow> Del s r ms = Some (ERROR, set_modifications s ms)) \<and>
    (T (bucket_of r) = (a, Key r, v, True) # post \<longrightarrow>
      (\<exists>s' B' T'. Del s r ms = Some (OK, s') \<and> tablet_inv s' B' T' \<and> updates T (bucket_of r) (Key r) None T'
        \<and> released B (a - 4) B' \<and> T' = T(bucket_of r := post)))"
proof (intro conjI impI)
  let ?i = "bucket_of r" and ?s = "set_modifications s ms"
  have inv': "tablet_inv ?s B T"
    using inv by simp
  note d = tablet_invD [OF inv' bucket_of_less [of r]]
  show "Del s r ms = Some (ERROR, ?s)" if "T ?i = []"
  proof -
    have "rd32 (nvm_data s) (slot_addr ?i) = 0"
      using d(4) that by (simp add: ptr_def unat_eq_zero)
    then show ?thesis
      by (simp add: Del_def ensure_def ty Read_slot del_loop.simps)
  qed
  assume T: "T ?i = (a, Key r, v, True) # post"
  note fm = first_matches [OF inv' wf T refl]
  obtain s1 s' B' where s': "Read32 ?s (of_nat a) = Some (rd32 (nvm_data s) a)"
    "Write32 ?s (slot_of r) (rd32 (nvm_data s) a) = Some s1" "Free s1 (of_nat a) = Some s'"
    "tablet_inv s' B' (T(?i := post))" "released B (a - 4) B'"
    using del_first [OF inv' T bucket_of_less slot_of_addr] by auto
  have p: "rd32 (nvm_data s) (slot_addr ?i) = of_nat a"
    using fm(4) by simp
  have "del_step ?s r (slot_of r) (of_nat a) = Some (Inl s')"
    using fm(1) s' p by (simp add: del_step_def)
  then have "Del s r ms = Some (OK, s')"
    using fm(3) p by (simp add: Del_def ensure_def ty Read_slot del_loop.simps)
  moreover have "updates T ?i (Key r) None (T(?i := [] @ post))"
    using T d(5) by (intro updates_remove) simp_all
  ultimately show "\<exists>s' B' T'. Del s r ms = Some (OK, s') \<and> tablet_inv s' B' T' \<and> updates T ?i (Key r) None T'
      \<and> released B (a - 4) B' \<and> T' = T(?i := post)"
    using s'(4,5) by auto
qed

text \<open>
  C12: \<^verbatim>\<open>Del\<close> on an empty bucket returns an error and changes nothing. \<^verbatim>\<open>Del\<close> of the first key
  of a bucket, under the condition that the object has not reached the last word of its block (its
  footer is intact; an object that fills its block is not covered), succeeds, keeps the tablet
  well-formed and unbinds the key: the object is out of the bucket, whose other objects keep their
  order, and its block is taken back.
\<close>

theorem Del_correct:
  assumes "tablet_inv s B T" "wf_request r" "req_type r = DEL"
  shows "(T (bucket_of r) = [] \<longrightarrow> Del s r ms = Some (ERROR, set_modifications s ms)) \<and>
    (T (bucket_of r) = (a, Key r, v, True) # post \<longrightarrow>
      (\<exists>s' B' T'. Del s r ms = Some (OK, s') \<and> tablet_inv s' B' T' \<and> updates T (bucket_of r) (Key r) None T'
        \<and> released B (a - 4) B' \<and> T' = T(bucket_of r := post)))"
  using assms by (rule Del_spec)

section \<open>A run on a formatted tablet\<close>

definition fresh_tablet :: Allocator where
  "fresh_tablet = formatted \<lparr>nvm_base = 0, nvm_data = (\<lambda>_. 0), cnt_writes = 0, modifications = []\<rparr>"

lemma fresh_inv: "tablet_inv fresh_tablet [292 \<mapsto> (67108560, True)] (\<lambda>_. [])"
proof -
  have z: "nvm_data fresh_tablet i = 0" if "67108864 \<le> i" for i
    using that
    by (simp add: fresh_tablet_def formatted_def Let_def nvm_data_put heap_off_def heap_end_def wr32_outside kSize_def
        set_modifications_def)
  have "ptr (nvm_data fresh_tablet) (slot_addr i) = 0" for i
    unfolding ptr_def by (subst rd32_zero) (simp_all add: z slot_addr_def)
  then show ?thesis
    unfolding tablet_inv_def
    by (simp add: wf_table_def chained_def fresh_tablet_def formatted_inv)
qed

lemma fresh_served:
  assumes "unat (object_size r) \<le> 1148"
  shows "served (set_modifications fresh_tablet ms) r"
proof -
  let ?s = "set_modifications fresh_tablet ms" and ?z = "unat (object_size r)"
  have inv: "heap_inv ?s [292 \<mapsto> (67108560, True)] {}"
    using formatted_inv by (simp add: fresh_tablet_def heap_inv_def)
  have z: "13 \<le> ?z"
    by (simp add: object_size_unat)
  have w: "ptr (nvm_data ?s) (4 * c) = (if c = 72 then 292 else 0)" if "c < num_lists" for c
    using that by (simp add: fresh_tablet_def ptr_def formatted_words num_lists_def)
  have c: "first_class (nvm_data ?s) (cls (block_size ?z)) = Some 72"
  proof (cases "first_class (nvm_data ?s) (cls (block_size ?z))")
    case None
    have "cls (block_size ?z) \<le> 72"
      using cls_less [of "block_size ?z"] by (simp add: num_lists_def)
    with None have "ptr (nvm_data ?s) (4 * 72) = 0"
      unfolding first_class_def find_None_iff by (simp only: set_upt atLeastLessThan_iff num_lists_def) fastforce
    then show ?thesis
      using w [of 72] by (simp add: num_lists_def)
  next
    case (Some d)
    then show ?thesis
      using first_class_Some [OF Some] w [of d] by (auto split: if_splits)
  qed
  have "sz (nvm_data ?s) (ptr (nvm_data ?s) (4 * 72)) = 67108560"
    using w [of 72] by (simp add: fresh_tablet_def sz_def formatted_words num_lists_def kFreeMask_def)
  moreover have "67108560 \<noteq> block_size ?z + 16"
    using block_size_bounds(2) [OF assms] by simp
  ultimately obtain a s' B' where a: "Alloc ?s (object_size r) = Some (of_nat (a + 4), s')"
    "hands_out [292 \<mapsto> (67108560, True)] (block_size ?z) a B'"
    using Alloc_cases [OF inv z assms] c by auto
  have "292 \<le> a" "a + block_size ?z \<le> 292 + 67108560"
    using a(2) unfolding hands_out_def by (auto split: if_splits)
  then have "unat (of_nat (a + 4) :: u32) = a + 4"
    using block_size_bounds(1) [OF z] by (intro unat_of_nat_u32) simp
  then have "of_nat (a + 4) \<noteq> (0 :: u32)"
    by (metis add_is_0 unsigned_0 zero_neq_numeral)
  then show ?thesis
    using a(1) assms by (auto simp: served_def)
qed

definition sample_put :: "ReqType \<Rightarrow> u8 list \<Rightarrow> Request" where
  "sample_put t v = Request_New t [107, 101, 121] v 7"

lemma sample_put_simps:
  "length v < 1000 \<Longrightarrow> wf_request (sample_put t v)" "req_type (sample_put t v) = t"
  "Key (sample_put t v) = [107, 101, 121]" "length v < 1000 \<Longrightarrow> Val (sample_put t v) = v" "bucket_of (sample_put t v) = 7"
  "length v < 1000 \<Longrightarrow> unat (object_size (sample_put t v)) = 19 + length v"
  by (simp_all add: sample_put_def Request_New_def wf_request_def Key_def Val_def bucket_of_def kHashTableSize_def
      object_size_unat unat_of_nat take_bit_nat_eq_self)

text \<open>A tablet with one object, as \<^verbatim>\<open>Add\<close> leaves it.\<close>

lemma one_object:
  "\<exists>s B a. tablet_inv s B ((\<lambda>_. [])(7 := [(a, [107, 101, 121], [1, 2, 3, 4, 5], True)]))"
proof -
  let ?r = "sample_put ADD [1, 2, 3, 4, 5]"
  note sp = sample_put_simps [where v = "[1, 2, 3, 4, 5]" and t = ADD, simplified]
  have i: "(7 :: nat) < kHashTableSize"
    by (simp add: kHashTableSize_def)
  have sv: "served (set_modifications fresh_tablet []) ?r"
    by (rule fresh_served) (simp add: sp)
  have inv: "tablet_inv (set_modifications fresh_tablet []) [292 \<mapsto> (67108560, True)] (\<lambda>_. [])"
    using fresh_inv by simp
  let ?s = "set_modifications fresh_tablet []"
  obtain p s1 where al: "Alloc ?s (object_size ?r) = Some (p, s1)" "p \<noteq> 0"
    using sv by (auto simp: served_def)
  have pc: "pieces ?s [292 \<mapsto> (67108560, True)] (\<lambda>_. []) 7 [] (unat (rd32 (nvm_data ?s) (slot_addr 7))) []"
    using pieces_whole [OF inv i] by (simp add: ptr_def)
  have q: "unat (slot_of ?r) = last_cell 7 []"
    using slot_of_addr [of ?r] by (simp add: sp last_cell_def)
  have z: "unat (object_size ?r) \<le> 1148"
    by (simp add: sp)
  obtain s' B' where s': "heap_inv s' B' {}"
    "wf_table (nvm_data s') B' ((\<lambda>_. [])(7 := [(unat p, [107, 101, 121], [1, 2, 3, 4, 5], True)]))"
    "\<forall>j<kHashTableSize. chained (nvm_data s') ((\<lambda>_. [])(7 := [(unat p, [107, 101, 121], [1, 2, 3, 4, 5], True)])) j"
    using store_object_correct [OF pc sp(1) z al q] by (auto simp: sp block_size_def roomy_def)
  then show ?thesis
    by (intro exI [of _ s'] exI [of _ B'] exI [of _ "unat p"] tablet_invI [OF inv]) simp_all
qed

theorem Get_correct_witness:
  "\<exists>s B T. tablet_inv s B T \<and> Get s (sample_put GET []) [] = Some (OK, [1, 2, 3, 4, 5], set_modifications s [])"
proof -
  obtain s B a where inv: "tablet_inv s B ((\<lambda>_. [])(7 := [(a, [107, 101, 121], [1, 2, 3, 4, 5], True)]))"
    using one_object by blast
  then show ?thesis
    using Get_correct [OF inv, of "sample_put GET []" "[]"] by (auto simp: sample_put_simps lookup_def)
qed

theorem Add_correct_witness:
  "\<exists>s' B' T'. Add fresh_tablet (sample_put ADD [9]) [] = Some (OK, s') \<and> tablet_inv s' B' T'
    \<and> updates (\<lambda>_. []) 7 [107, 101, 121] (Some [9]) T'"
  using Add_correct [OF fresh_inv, of "sample_put ADD [9]" "[]"] fresh_served [of "sample_put ADD [9]" "[]"]
  by (simp add: sample_put_simps lookup_def)

theorem Put_correct_witness:
  "(\<exists>s' B' T'. Put fresh_tablet (sample_put PUT [9]) [] = Some (OK, s') \<and> tablet_inv s' B' T'
      \<and> updates (\<lambda>_. []) 7 [107, 101, 121] (Some [9]) T')
   \<and> (\<exists>s B T s' T'. tablet_inv s B T \<and> Put s (sample_put PUT [9]) [] = Some (OK, s') \<and> tablet_inv s' B T'
      \<and> updates T 7 [107, 101, 121] (Some [9]) T')"
proof (rule conjI)
  note sp = sample_put_simps [where v = "[9]" and t = PUT, simplified]
  have "served (set_modifications fresh_tablet []) (sample_put PUT [9])"
    by (rule fresh_served) (simp add: sp)
  then show "\<exists>s' B' T'. Put fresh_tablet (sample_put PUT [9]) [] = Some (OK, s') \<and> tablet_inv s' B' T'
      \<and> updates (\<lambda>_. []) 7 [107, 101, 121] (Some [9]) T'"
    using Put_correct [OF fresh_inv sp(1,2), of "[]"] by (auto simp: sp put_possible_def lookup_def)
  obtain s B a where inv: "tablet_inv s B ((\<lambda>_. [])(7 := [(a, [107, 101, 121], [1, 2, 3, 4, 5], True)]))"
    using one_object by blast
  have "\<exists>s' T'. Put s (sample_put PUT [9]) [] = Some (OK, s') \<and> tablet_inv s' B T'
    \<and> updates ((\<lambda>_. [])(7 := [(a, [107, 101, 121], [1, 2, 3, 4, 5], True)])) 7 [107, 101, 121] (Some [9]) T'"
  proof -
    have "put_possible (set_modifications s []) ((\<lambda>_. [])(7 := [(a, [107, 101, 121], [1, 2, 3, 4, 5], True)])) (sample_put PUT [9])"
      by (simp add: sp put_possible_def lookup_def)
    from Put_correct [OF inv sp(1,2) this] show ?thesis
      by (auto simp: sp put_places_def lookup_def Let_def)
  qed
  with inv show "\<exists>s B T s' T'. tablet_inv s B T \<and> Put s (sample_put PUT [9]) [] = Some (OK, s') \<and> tablet_inv s' B T'
      \<and> updates T 7 [107, 101, 121] (Some [9]) T'"
    by blast
qed

text \<open>A request for another key in the same bucket.\<close>

theorem Del_diverges_witness:
  "\<exists>s B T. tablet_inv s B T \<and> lookup T 7 [0] = None \<and> Del s (Request_New DEL [0] [] 7) [] = None"
proof -
  let ?r = "Request_New DEL [0] [] 7"
  have r: "wf_request ?r" "req_type ?r = DEL" "Key ?r = [0]" "bucket_of ?r = 7"
    by (simp_all add: Request_New_def wf_request_def Key_def bucket_of_def kHashTableSize_def)
  obtain s B a where inv: "tablet_inv s B ((\<lambda>_. [])(7 := [(a, [107, 101, 121], [1, 2, 3, 4, 5], True)]))"
    using one_object by blast
  have "lookup ((\<lambda>_. [])(7 := [(a, [107, 101, 121], [1, 2, 3, 4, 5], True)])) 7 [0] = None \<and> Del s ?r [] = None"
    using Del_diverges [OF inv r(1,2), of "(a, [107, 101, 121], [1, 2, 3, 4, 5], True)" "[]" "[]"]
    by (simp add: r lookup_def)
  with inv show ?thesis
    by blast
qed

theorem Del_correct_witness:
  "\<exists>s B T s' B' T'. tablet_inv s B T \<and> Del s (sample_put DEL []) [] = Some (OK, s') \<and> tablet_inv s' B' T'
    \<and> (\<exists>a. released B a B') \<and> updates T 7 [107, 101, 121] None T'"
proof -
  obtain s B a where inv: "tablet_inv s B ((\<lambda>_. [])(7 := [(a, [107, 101, 121], [1, 2, 3, 4, 5], True)]))"
    using one_object by blast
  have "\<exists>s' B' T'. Del s (sample_put DEL []) [] = Some (OK, s') \<and> tablet_inv s' B' T'
    \<and> released B (a - 4) B' \<and> updates ((\<lambda>_. [])(7 := [(a, [107, 101, 121], [1, 2, 3, 4, 5], True)])) 7 [107, 101, 121] None T'"
    using Del_correct [OF inv, of "sample_put DEL []" "[]" a "[1, 2, 3, 4, 5]" "[]"]
    by (auto simp: sample_put_simps)
  with inv show ?thesis
    by blast
qed

end
