(* ===== verification/Programs.thy ===== *)
theory Programs
  imports NVDS_Prelude "HOL-Library.Monad_Syntax"
begin

text \<open>
  Control structures the component models share: C arrays whose elements are only accessed
  inside their bounds, and the counting loop \<^verbatim>\<open>for (i = a; i < b; ++i)\<close> with its invariant rule.
  \<^const>\<open>None\<close> stands for a failed assertion or an access outside an array.
\<close>

section \<open>Arrays\<close>

definition array_get :: "'a list \<Rightarrow> nat \<Rightarrow> 'a option" where
  "array_get xs i = (if i < length xs then Some (xs ! i) else None)"

definition array_upd :: "'a list \<Rightarrow> nat \<Rightarrow> ('a \<Rightarrow> 'a) \<Rightarrow> 'a list option" where
  "array_upd xs i f = (if i < length xs then Some (xs[i := f (xs ! i)]) else None)"

definition array_slice :: "'a list \<Rightarrow> nat \<Rightarrow> nat \<Rightarrow> 'a list option" where
  "array_slice xs a n = (if a + n \<le> length xs then Some (take n (drop a xs)) else None)"

lemma array_get_Some [simp]: "i < length xs \<Longrightarrow> array_get xs i = Some (xs ! i)"
  by (simp add: array_get_def)

lemma array_upd_Some [simp]: "i < length xs \<Longrightarrow> array_upd xs i f = Some (xs[i := f (xs ! i)])"
  by (simp add: array_upd_def)

lemma array_slice_Some [simp]: "a + n \<le> length xs \<Longrightarrow> array_slice xs a n = Some (take n (drop a xs))"
  by (simp add: array_slice_def)

lemma array_get_None: "array_get xs i = None \<longleftrightarrow> length xs \<le> i"
  by (simp add: array_get_def)

section \<open>Counting loops\<close>

function for_loop :: "nat \<Rightarrow> nat \<Rightarrow> (nat \<Rightarrow> 's \<Rightarrow> 's option) \<Rightarrow> 's \<Rightarrow> 's option" where
  "for_loop a b f s =
     (if a < b then do { s' \<leftarrow> f a s; for_loop (Suc a) b f s' } else Some s)"
  by pat_completeness auto
termination
  by (relation "measure (\<lambda>(a, b, _). b - a)") auto

declare for_loop.simps [simp del]

lemma for_loop_done [simp]: "b \<le> a \<Longrightarrow> for_loop a b f s = Some s"
  by (simp add: for_loop.simps)

lemma for_loop_step:
  "a < b \<Longrightarrow> for_loop a b f s = f a s \<bind> for_loop (Suc a) b f"
  by (subst for_loop.simps) simp

text \<open>A loop whose body succeeds and keeps an invariant ends with the invariant.\<close>

lemma for_loop_inv:
  assumes "a \<le> b" "I a s"
    and step: "\<And>i s. a \<le> i \<Longrightarrow> i < b \<Longrightarrow> I i s \<Longrightarrow> \<exists>s'. f i s = Some s' \<and> I (Suc i) s'"
  shows "\<exists>s'. for_loop a b f s = Some s' \<and> I b s'"
  using assms(1,2) step
proof (induction "b - a" arbitrary: a s)
  case 0
  then show ?case by simp
next
  case (Suc n)
  then have ab: "a < b"
    by simp
  with Suc.prems(2) Suc.prems(3) [of a s] obtain s' where s': "f a s = Some s'" "I (Suc a) s'"
    by auto
  have "\<exists>s''. for_loop (Suc a) b f s' = Some s'' \<and> I b s''"
  proof (rule Suc.hyps(1))
    show "n = b - Suc a"
      using Suc.hyps(2) by simp
    show "\<exists>t'. f i t = Some t' \<and> I (Suc i) t'" if "Suc a \<le> i" "i < b" "I i t" for i t
      using Suc.prems(3) [of i t] that by simp
  qed (use ab s' in simp_all)
  with ab s'(1) show ?case
    by (simp add: for_loop_step)
qed

text \<open>A loop over a body that never fails is a fold.\<close>

lemma for_loop_fold:
  assumes "\<And>i s. a \<le> i \<Longrightarrow> i < b \<Longrightarrow> f i s = Some (g i s)"
  shows "for_loop a b f s = Some (fold g [a..<b] s)"
  using assms
proof (induction "b - a" arbitrary: a s)
  case (Suc n)
  then have "a < b" "[a..<b] = a # [Suc a..<b]"
    by (auto simp: upt_conv_Cons)
  with Suc show ?case
    by (simp add: for_loop_step)
qed simp

text \<open>A loop that ends has run its body at every index.\<close>

lemma for_loop_reaches:
  assumes "for_loop a b f s = Some s'" "a \<le> i" "i < b"
  shows "\<exists>t t'. f i t = Some t'"
  using assms
proof (induction "b - a" arbitrary: a s)
  case (Suc n)
  then obtain t where t: "f a s = Some t" "for_loop (Suc a) b f t = Some s'"
    by (cases "f a s") (simp_all add: for_loop_step)
  show ?case
  proof (cases "i = a")
    case True
    with t(1) show ?thesis by blast
  next
    case False
    with Suc t(2) show ?thesis
      by (intro Suc.hyps(1) [of "Suc a" t]) simp_all
  qed
qed simp

end
