(* ===== verification/Messages.thy ===== *)
theory Messages
  imports Programs
begin

text \<open>
  The messages of \<^verbatim>\<open>src/message.h\<close> and their framing on a TCP connection in
  \<^verbatim>\<open>src/session.cc\<close>. A header is six packed bytes: the sender type, the message type and the
  32-bit length of the body that follows.

  The connection belongs to Boost.Asio and is a parameter: \<open>rd n c\<close> stands for a read of exactly
  \<open>n\<close> bytes (\<^const>\<open>None\<close> when the connection fails first) and \<open>wr bs c\<close> for a write of all the
  bytes. What the code relies on is the locale \<open>byte_stream\<close>: bytes arrive completely and in
  order.
\<close>

section \<open>Messages\<close>

datatype SenderType = COORDINATOR | SERVER | CLIENT

datatype MsgType = REQ_JOIN | REQ_LEAVE | RES_JOIN | RES_CLUSTER_INFO | QP_INFO_EXCH | ACK_REJECT | ACK_ERROR | ACK_OK

text \<open>
  The enumerations have an underlying type of one byte, and a header that comes from a socket
  may hold any byte; the fields hold the byte.
\<close>

fun sender_code :: "SenderType \<Rightarrow> u8" where
  "sender_code COORDINATOR = 0"
| "sender_code SERVER = 1"
| "sender_code CLIENT = 2"

fun type_code :: "MsgType \<Rightarrow> u8" where
  "type_code REQ_JOIN = 0"
| "type_code REQ_LEAVE = 1"
| "type_code RES_JOIN = 2"
| "type_code RES_CLUSTER_INFO = 3"
| "type_code QP_INFO_EXCH = 4"
| "type_code ACK_REJECT = 5"
| "type_code ACK_ERROR = 6"
| "type_code ACK_OK = 7"

record Header =
  sender_type :: u8
  msg_type :: u8
  body_len :: u32

record Message =
  header :: Header
  body :: "u8 list"

definition kHeaderSize :: nat where
  "kHeaderSize = 6"

definition make_Message :: "Header \<Rightarrow> u8 list \<Rightarrow> Message" where
  "make_Message h b = \<lparr>header = h\<lparr>body_len := of_nat (length b)\<rparr>, body = b\<rparr>"

section \<open>The bytes of a header\<close>

definition header_bytes :: "Header \<Rightarrow> u8 list" where
  "header_bytes h = [sender_type h, msg_type h] @ le_bytes 4 (body_len h)"

definition header_of :: "u8 list \<Rightarrow> Header" where
  "header_of bs = \<lparr>sender_type = bs ! 0, msg_type = bs ! 1, body_len = word_of_le (take 4 (drop 2 bs))\<rparr>"

interpretation codec_header: byte_codec header_bytes header_of kHeaderSize
  by unfold_locales (simp_all add: header_bytes_def header_of_def kHeaderSize_def codec_u32.dec_enc)

section \<open>Synchronous sessions\<close>

definition SendMessage :: "(u8 list \<Rightarrow> 'c \<Rightarrow> 'c option) \<Rightarrow> Message \<Rightarrow> 'c \<Rightarrow> 'c option" where
  "SendMessage wr msg c = do {
     c \<leftarrow> wr (header_bytes (header msg)) c;
     wr (body msg) c
   }"

definition RecvMessage :: "(nat \<Rightarrow> 'c \<Rightarrow> (u8 list \<times> 'c) option) \<Rightarrow> 'c \<Rightarrow> (Message \<times> 'c) option" where
  "RecvMessage rd c = do {
     (hb, c) \<leftarrow> rd kHeaderSize c;
     let h = header_of hb;
     (b, c) \<leftarrow> rd (unat (body_len h)) c;
     Some (\<lparr>header = h, body = b\<rparr>, c)
   }"

primrec send_all :: "(u8 list \<Rightarrow> 'c \<Rightarrow> 'c option) \<Rightarrow> Message list \<Rightarrow> 'c \<Rightarrow> 'c option" where
  "send_all wr [] c = Some c"
| "send_all wr (m # ms) c = SendMessage wr m c \<bind> send_all wr ms"

primrec recv_all :: "(nat \<Rightarrow> 'c \<Rightarrow> (u8 list \<times> 'c) option) \<Rightarrow> nat \<Rightarrow> 'c \<Rightarrow> (Message list \<times> 'c) option" where
  "recv_all rd 0 c = Some ([], c)"
| "recv_all rd (Suc n) c = do {
     (m, c) \<leftarrow> RecvMessage rd c;
     (ms, c) \<leftarrow> recv_all rd n c;
     Some (m # ms, c)
   }"

section \<open>Asynchronous sessions\<close>

text \<open>
  What a completion handler does next. \<open>Read_body m n\<close> starts an asynchronous read of \<open>n\<close> bytes
  into the body of \<open>m\<close>, which has been resized; \<open>Write_body\<close> starts the write of the body;
  \<open>Handler\<close> calls the session's own message handler; \<open>Log\<close> reports the error and drops the
  message; \<open>Assertion\<close> is the failed \<^verbatim>\<open>assert\<close>.
\<close>

datatype session_action =
  Read_body Message nat | Write_body Message | Handler Message | Log | Assertion

definition recv_header_handler :: "Message \<Rightarrow> bool \<Rightarrow> nat \<Rightarrow> session_action" where
  "recv_header_handler msg err bytes_transferred =
     (if err then Log
      else if bytes_transferred < kHeaderSize then Assertion
      else let len = kHeaderSize + unat (body_len (header msg)) - bytes_transferred
           in Read_body (msg\<lparr>body := take len (body msg) @ replicate (len - length (body msg)) 0\<rparr>)
                (unat (body_len (header msg))))"

definition recv_body_handler :: "Message \<Rightarrow> bool \<Rightarrow> session_action" where
  "recv_body_handler msg err = (if err then Log else Handler msg)"

definition send_header_handler :: "Message \<Rightarrow> bool \<Rightarrow> nat \<Rightarrow> session_action" where
  "send_header_handler msg err bytes_transferred =
     (if err then Log else if bytes_transferred < kHeaderSize then Assertion else Write_body msg)"

definition send_body_handler :: "Message \<Rightarrow> bool \<Rightarrow> session_action" where
  "send_body_handler msg err = (if err then Log else Handler msg)"

text \<open>
  The service runs the handlers as the reads and writes complete. A read of \<open>n\<close> bytes into a
  buffer shorter than \<open>n\<close> would overrun it, which is an assertion failure of the model.
\<close>

definition AsyncRecvMessage :: "(nat \<Rightarrow> 'c \<Rightarrow> (u8 list \<times> 'c) option) \<Rightarrow> Message \<Rightarrow> 'c \<Rightarrow> session_action \<times> 'c option" where
  "AsyncRecvMessage rd msg c =
     (case rd kHeaderSize c of
        None \<Rightarrow> (recv_header_handler msg True 0, None)
      | Some (hb, c) \<Rightarrow>
          (case recv_header_handler (msg\<lparr>header := header_of hb\<rparr>) False (length hb) of
             Read_body m n \<Rightarrow>
               if length (body m) < n then (Assertion, None)
               else (case rd n c of
                       None \<Rightarrow> (recv_body_handler m True, None)
                     | Some (b, c) \<Rightarrow> (recv_body_handler (m\<lparr>body := b @ drop n (body m)\<rparr>) False, Some c))
           | a \<Rightarrow> (a, Some c)))"

definition AsyncSendMessage :: "(u8 list \<Rightarrow> 'c \<Rightarrow> 'c option) \<Rightarrow> Message \<Rightarrow> 'c \<Rightarrow> session_action \<times> 'c option" where
  "AsyncSendMessage wr msg c =
     (case wr (header_bytes (header msg)) c of
        None \<Rightarrow> (send_header_handler msg True 0, None)
      | Some c \<Rightarrow>
          (case send_header_handler msg False (length (header_bytes (header msg))) of
             Write_body m \<Rightarrow>
               (case wr (body m) c of
                  None \<Rightarrow> (send_body_handler m True, None)
                | Some c \<Rightarrow> (send_body_handler m False, Some c))
           | a \<Rightarrow> (a, Some c)))"

section \<open>What the framing relies on\<close>

locale byte_stream =
  fixes rd :: "nat \<Rightarrow> 'c \<Rightarrow> (u8 list \<times> 'c) option" and wr :: "u8 list \<Rightarrow> 'c \<Rightarrow> 'c option"
    and pending :: "'c \<Rightarrow> u8 list"
  assumes write_appends: "wr bs c = Some c' \<Longrightarrow> pending c' = pending c @ bs"
    and read_exact: "rd n c = Some (bs, c') \<Longrightarrow> length bs = n \<and> pending c = bs @ pending c'"
    and read_ready: "n \<le> length (pending c) \<Longrightarrow> \<exists>bs c'. rd n c = Some (bs, c')"
begin

lemma read_prefix:
  assumes "pending c = bs @ rest" "length bs = n"
  shows "\<exists>c'. rd n c = Some (bs, c') \<and> pending c' = rest"
  using assms read_ready [of n c] read_exact [of n c] by fastforce

text \<open>A received message carries as many bytes as its header says.\<close>

lemma recv_length: "RecvMessage rd c = Some (m, c') \<Longrightarrow> length (body m) = unat (body_len (header m))"
  by (auto simp: RecvMessage_def Let_def dest!: read_exact split: bind_splits)

lemma recv_framed:
  assumes "pending c = header_bytes (header m) @ body m @ rest"
    "length (body m) = unat (body_len (header m))"
  shows "\<exists>c'. RecvMessage rd c = Some (m, c') \<and> pending c' = rest"
proof -
  obtain c1 where c1: "rd kHeaderSize c = Some (header_bytes (header m), c1)" "pending c1 = body m @ rest"
    using read_prefix [OF assms(1), of kHeaderSize] codec_header.length_enc by blast
  obtain c2 where "rd (unat (body_len (header m))) c1 = Some (body m, c2)" "pending c2 = rest"
    using read_prefix [OF c1(2) assms(2)] by blast
  with c1(1) show ?thesis
    by (simp add: RecvMessage_def codec_header.dec_enc)
qed

lemma send_pending:
  assumes "SendMessage wr m c = Some c'"
  shows "pending c' = pending c @ header_bytes (header m) @ body m"
  using assms by (auto simp: SendMessage_def dest!: write_appends split: bind_splits)

text \<open>The asynchronous receive delivers what the synchronous one returns.\<close>

lemma async_recv_eq:
  "AsyncRecvMessage rd msg c =
     (case RecvMessage rd c of Some (m, c') \<Rightarrow> (Handler m, Some c') | None \<Rightarrow> (Log, None))"
proof (cases "rd kHeaderSize c")
  case None
  then show ?thesis
    by (simp add: AsyncRecvMessage_def RecvMessage_def recv_header_handler_def)
next
  case (Some p)
  obtain hb c1 where p: "p = (hb, c1)"
    by (cases p)
  with Some have "length hb = kHeaderSize"
    using read_exact by blast
  then show ?thesis
    using read_exact [of "unat (body_len (header_of hb))" c1]
    by (fastforce simp: AsyncRecvMessage_def RecvMessage_def recv_header_handler_def recv_body_handler_def Some p Let_def
        split: option.splits bind_splits)
qed

text \<open>Messages sent one after the other are received one after the other.\<close>

lemma recv_all_sent:
  assumes "pending c = concat (map (\<lambda>m. header_bytes (header m) @ body m) ms) @ rest"
    "\<forall>m\<in>set ms. length (body m) = unat (body_len (header m))"
  shows "\<exists>c'. recv_all rd (length ms) c = Some (ms, c') \<and> pending c' = rest"
  using assms
proof (induction ms arbitrary: c)
  case (Cons m ms)
  then obtain c1 where "RecvMessage rd c = Some (m, c1)"
      "pending c1 = concat (map (\<lambda>m. header_bytes (header m) @ body m) ms) @ rest"
    using recv_framed [of c m "concat (map (\<lambda>m. header_bytes (header m) @ body m) ms) @ rest"] by auto
  with Cons.IH [of c1] Cons.prems(2) show ?case
    by auto
qed simp

lemma send_all_pending:
  "send_all wr ms c = Some c' \<Longrightarrow> pending c' = pending c @ concat (map (\<lambda>m. header_bytes (header m) @ body m) ms)"
  by (induction ms arbitrary: c) (auto split: bind_splits simp: send_pending)

end

section \<open>The framing theorems\<close>

text \<open>A connection whose two ends are one queue of bytes.\<close>

definition chan_read :: "nat \<Rightarrow> u8 list \<Rightarrow> (u8 list \<times> u8 list) option" where
  "chan_read n c = (if n \<le> length c then Some (take n c, drop n c) else None)"

definition chan_write :: "u8 list \<Rightarrow> u8 list \<Rightarrow> u8 list option" where
  "chan_write bs c = Some (c @ bs)"

interpretation chan: byte_stream chan_read chan_write id
  by unfold_locales (auto simp: chan_read_def chan_write_def split: if_splits)

text \<open>
  C18: Messages built by the constructor with bodies of less than \<open>2 ^ 32\<close> bytes and sent one after
  the other over an empty connection are received unchanged, in order, and leave the connection
  empty.
\<close>

theorem messages_roundtrip:
  assumes "byte_stream rd wr pending" "pending c = []"
    and "\<forall>(h, b)\<in>set hbs. length b < 2 ^ 32"
    and "send_all wr (map (\<lambda>(h, b). make_Message h b) hbs) c = Some c'"
  shows "\<exists>c''. recv_all rd (length hbs) c' = Some (map (\<lambda>(h, b). make_Message h b) hbs, c'') \<and> pending c'' = []"
proof -
  let ?ms = "map (\<lambda>(h, b). make_Message h b) hbs"
  have "pending c' = concat (map (\<lambda>m. header_bytes (header m) @ body m) ?ms) @ []"
    using byte_stream.send_all_pending [OF assms(1,4)] assms(2) by simp
  moreover have "\<forall>m\<in>set ?ms. length (body m) = unat (body_len (header m))"
    using assms(3) by (auto simp: make_Message_def unat_of_nat_u32)
  ultimately show ?thesis
    using byte_stream.recv_all_sent [OF assms(1), of c' ?ms "[]"] by simp
qed

theorem messages_roundtrip_witness:
  "\<exists>c''. recv_all chan_read (Suc (Suc 0))
     (header_bytes \<lparr>sender_type = 1, msg_type = 0, body_len = 2\<rparr> @ [123, 125]
      @ header_bytes \<lparr>sender_type = 2, msg_type = 0, body_len = 0\<rparr>) =
     Some ([make_Message \<lparr>sender_type = 1, msg_type = 0, body_len = 0\<rparr> [123, 125],
            make_Message \<lparr>sender_type = 2, msg_type = 0, body_len = 0\<rparr> []], c'') \<and> c'' = []"
proof -
  have "send_all chan_write (map (\<lambda>(h, b). make_Message h b)
      [(\<lparr>sender_type = 1, msg_type = 0, body_len = 0\<rparr>, [123, 125]), (\<lparr>sender_type = 2, msg_type = 0, body_len = 0\<rparr>, [])]) [] =
    Some (header_bytes \<lparr>sender_type = 1, msg_type = 0, body_len = 2\<rparr> @ [123, 125]
      @ header_bytes \<lparr>sender_type = 2, msg_type = 0, body_len = 0\<rparr>)"
    by (simp add: SendMessage_def chan_write_def make_Message_def)
  from messages_roundtrip [OF chan.byte_stream_axioms _ _ this] show ?thesis
    by simp
qed

text \<open>
  C19: On a reliable connection the chain of completion handlers of \<^verbatim>\<open>AsyncRecvMessage\<close> never
  fails its assertion or overruns the body: it hands the session's handler exactly the message
  the synchronous \<^verbatim>\<open>RecvMessage\<close> returns, and reports an error exactly when that fails.
\<close>

theorem AsyncRecvMessage_eq:
  assumes "byte_stream rd wr pending"
  shows "AsyncRecvMessage rd msg c =
     (case RecvMessage rd c of Some (m, c') \<Rightarrow> (Handler m, Some c') | None \<Rightarrow> (Log, None))"
  by (rule byte_stream.async_recv_eq [OF assms])

theorem AsyncRecvMessage_eq_witness:
  "AsyncRecvMessage chan_read \<lparr>header = \<lparr>sender_type = 9, msg_type = 9, body_len = 9\<rparr>, body = []\<rparr> [2, 0, 1, 0, 0, 0, 65, 66] =
     (Handler \<lparr>header = \<lparr>sender_type = 2, msg_type = 0, body_len = 1\<rparr>, body = [65]\<rparr>, Some [66])"
  using AsyncRecvMessage_eq [OF chan.byte_stream_axioms,
      of "\<lparr>header = \<lparr>sender_type = 9, msg_type = 9, body_len = 9\<rparr>, body = []\<rparr>" "[2, 0, 1, 0, 0, 0, 65, 66]"]
  by (simp add: RecvMessage_def chan_read_def kHeaderSize_def header_of_def)

end
