(* ===== verification/Wire.thy ===== *)
theory Wire
  imports Tablet Messages
begin

text \<open>
  Requests and responses as they travel in the registered buffers: \<^verbatim>\<open>src/request.h\<close>,
  \<^verbatim>\<open>src/response.h\<close> and the accessors of \<^verbatim>\<open>Infiniband::Buffer\<close>. A buffer is the list of its bytes.
  Writing past its end is \<^const>\<open>None\<close>, and so is a request or a response whose lengths reach
  beyond the buffer it was received in. The bytes between the fields keep what the buffer held.
\<close>

section \<open>Sizes\<close>

definition kMaxItemSize :: nat where
  "kMaxItemSize = 1024"

definition kSendBufSize :: nat where
  "kSendBufSize = 1024 + 128"

definition kRecvBufSize :: nat where
  "kRecvBufSize = 1024 * 2 + 128"

definition kIBUDPadding :: nat where
  "kIBUDPadding = 40"

text \<open>The client has its own sizes under the same names.\<close>

definition Client_kSendBufSize :: nat where
  "Client_kSendBufSize = 1024 * 2 + 128"

definition Client_kRecvBufSize :: nat where
  "Client_kRecvBufSize = 1024 + 128"

section \<open>Requests\<close>

definition ReqType_byte :: "ReqType \<Rightarrow> u8" where
  "ReqType_byte t = (case t of PUT \<Rightarrow> 0 | ADD \<Rightarrow> 1 | GET \<Rightarrow> 2 | DEL \<Rightarrow> 3)"

definition ReqType_of :: "u8 \<Rightarrow> ReqType option" where
  "ReqType_of b = (if b = 0 then Some PUT else if b = 1 then Some ADD else if b = 2 then Some GET
     else if b = 3 then Some DEL else None)"

text \<open>\<^verbatim>\<open>Request::New\<close>: the request is constructed in place at the start of the buffer.\<close>

definition Request_put :: "Request \<Rightarrow> u8 list \<Rightarrow> u8 list option" where
  "Request_put r b =
     (if 16 + length (req_data r) \<le> length b
      then Some ([ReqType_byte (req_type r), b ! 1] @ le_bytes 2 (key_len r) @ le_bytes 2 (val_len r) @ [b ! 6, b ! 7]
             @ le_bytes 8 (key_hash r) @ req_data r @ drop (16 + length (req_data r)) b)
      else None)"

text \<open>
  A request seen through \<^verbatim>\<open>Buffer::MakeRequest\<close>. The type is the byte received, which need not be
  one of the enumeration.
\<close>

record RequestView =
  rv_type :: u8
  rv_key_len :: u16
  rv_val_len :: u16
  rv_key_hash :: u64
  rv_data :: "u8 list"

definition MakeRequest :: "u8 list \<Rightarrow> RequestView option" where
  "MakeRequest buf =
     (let b = drop kIBUDPadding buf;
          kl = word_of_le (take 2 (drop 2 b)); vl = word_of_le (take 2 (drop 4 b)); n = unat kl + unat vl
      in if 16 + n \<le> length b
         then Some \<lparr>rv_type = b ! 0, rv_key_len = kl, rv_val_len = vl, rv_key_hash = word_of_le (take 8 (drop 8 b)),
                    rv_data = take n (drop 16 b)\<rparr>
         else None)"

definition as_request :: "ReqType \<Rightarrow> RequestView \<Rightarrow> Request" where
  "as_request t v = \<lparr>req_type = t, key_len = rv_key_len v, val_len = rv_val_len v, key_hash = rv_key_hash v, req_data = rv_data v\<rparr>"

section \<open>Responses\<close>

definition Status_byte :: "Status \<Rightarrow> u8" where
  "Status_byte st = (case st of OK \<Rightarrow> 0 | ERROR \<Rightarrow> 1 | NO_MEM \<Rightarrow> 2)"

record Response =
  resp_type :: u8
  resp_status :: u8
  resp_val_len :: u16
  resp_val :: "u8 list"

definition Response_New :: "u8 \<Rightarrow> Status \<Rightarrow> Response" where
  "Response_New t st = \<lparr>resp_type = t, resp_status = Status_byte st, resp_val_len = 0, resp_val = []\<rparr>"

definition Response_Len :: "Response \<Rightarrow> nat" where
  "Response_Len r = 4 + (if resp_type r = ReqType_byte GET then unat (resp_val_len r) else 0)"

definition Response_put :: "Response \<Rightarrow> u8 list \<Rightarrow> u8 list option" where
  "Response_put r b =
     (if 4 + length (resp_val r) \<le> length b
      then Some ([resp_type r, resp_status r] @ le_bytes 2 (resp_val_len r) @ resp_val r @ drop (4 + length (resp_val r)) b)
      else None)"

definition MakeResponse :: "u8 list \<Rightarrow> Response option" where
  "MakeResponse buf =
     (let b = drop kIBUDPadding buf; vl = word_of_le (take 2 (drop 2 b))
      in if 4 + unat vl \<le> length b
         then Some \<lparr>resp_type = b ! 0, resp_status = b ! 1, resp_val_len = vl, resp_val = take (unat vl) (drop 4 b)\<rparr>
         else None)"

section \<open>A worker's operation\<close>

text \<open>
  The switch of \<^verbatim>\<open>Server::Worker::Serve\<close>: no case for a type outside the enumeration, whose
  response is the initial one.
\<close>

definition serve_op :: "Allocator \<Rightarrow> RequestView \<Rightarrow> (Response \<times> Allocator) option" where
  "serve_op s v =
     (let resp = Response_New (rv_type v) OK in
      case ReqType_of (rv_type v) of
        None \<Rightarrow> Some (resp, set_modifications s [])
      | Some PUT \<Rightarrow> do { (st, s) \<leftarrow> Put s (as_request PUT v) []; Some (resp\<lparr>resp_status := Status_byte st\<rparr>, s) }
      | Some ADD \<Rightarrow> do { (st, s) \<leftarrow> Tablet.Add s (as_request ADD v) []; Some (resp\<lparr>resp_status := Status_byte st\<rparr>, s) }
      | Some DEL \<Rightarrow> do { (st, s) \<leftarrow> Del s (as_request DEL v) []; Some (resp\<lparr>resp_status := Status_byte st\<rparr>, s) }
      | Some GET \<Rightarrow> do { (st, x, s) \<leftarrow> Get s (as_request GET v) [];
                        Some (resp\<lparr>resp_status := Status_byte st, resp_val_len := of_nat (length x), resp_val := x\<rparr>, s) })"

section \<open>Delivery\<close>

text \<open>
  The network is a parameter: what the receive buffer holds after a datagram has arrived in it, or
  \<^const>\<open>None\<close> when the datagram is lost. What the code relies on: a datagram that fits is not lost and
  is found behind the 40 bytes that the hardware reserves for the routing header, whatever these 40
  bytes and the bytes behind the datagram are.
\<close>

type_synonym network = "u8 list \<Rightarrow> u8 list \<Rightarrow> u8 list option"

definition delivers :: "network \<Rightarrow> bool" where
  "delivers net \<longleftrightarrow> (\<forall>msg b. kIBUDPadding + length msg \<le> length b \<longrightarrow>
     (\<exists>hdr rest. length hdr = kIBUDPadding \<and> net msg b = Some (hdr @ msg @ rest)))"

text \<open>The way of a request to the worker and of its response back, through the four buffers involved.\<close>

definition rpc :: "network \<Rightarrow> Allocator \<Rightarrow> Request \<Rightarrow> u8 list \<Rightarrow> u8 list \<Rightarrow> u8 list \<Rightarrow> u8 list \<Rightarrow> (Response \<times> Allocator) option" where
  "rpc net s r client_send server_recv server_send client_recv = do {
     b \<leftarrow> Request_put r client_send;
     m \<leftarrow> net (take (Request_Len r) b) server_recv;
     v \<leftarrow> MakeRequest m;
     (resp, s) \<leftarrow> serve_op s v;
     b \<leftarrow> Response_put resp server_send;
     m \<leftarrow> net (take (Response_Len resp) b) client_recv;
     resp \<leftarrow> MakeResponse m;
     Some (resp, s)
   }"

definition tablet_op :: "Allocator \<Rightarrow> Request \<Rightarrow> (Status \<times> u8 list \<times> Allocator) option" where
  "tablet_op s r = (case req_type r of
     PUT \<Rightarrow> map_option (\<lambda>(st, s). (st, [], s)) (Put s r [])
   | ADD \<Rightarrow> map_option (\<lambda>(st, s). (st, [], s)) (Tablet.Add s r [])
   | DEL \<Rightarrow> map_option (\<lambda>(st, s). (st, [], s)) (Del s r [])
   | GET \<Rightarrow> Get s r [])"

section \<open>What arrives\<close>

lemma ReqType_of_byte [simp]: "ReqType_of (ReqType_byte t) = Some t"
  by (cases t) (simp_all add: ReqType_of_def ReqType_byte_def)

lemma of_nat_u16: "n \<le> kMaxItemSize \<Longrightarrow> unat (of_nat n :: u16) = n"
  by (simp add: unat_of_nat take_bit_nat_eq_self kMaxItemSize_def)

text \<open>A request of at most the maximal item size arrives as it was built.\<close>

lemma request_arrives:
  assumes n: "delivers net" and r: "r = Request_New t k v h" "length k + length v \<le> kMaxItemSize"
    and b: "length cs = Client_kSendBufSize" "length sr = kRecvBufSize"
  shows "\<exists>b m view. Request_put r cs = Some b \<and> net (take (Request_Len r) b) sr = Some m
    \<and> MakeRequest m = Some view \<and> rv_type view = ReqType_byte t \<and> as_request t view = r"
proof -
  have kl: "unat (key_len r) = length k" "unat (val_len r) = length v" "req_data r = k @ v" "req_type r = t"
    using r of_nat_u16 [of "length k"] of_nat_u16 [of "length v"] by (simp_all add: Request_New_def)
  let ?m = "[ReqType_byte t, cs ! 1] @ le_bytes 2 (key_len r) @ le_bytes 2 (val_len r) @ [cs ! 6, cs ! 7] @ le_bytes 8 (key_hash r) @ k @ v"
  have len: "length ?m = Request_Len r"
    by (simp add: Request_Len_def kl)
  have bound: "16 + (length k + length v) \<le> 1040"
    using r(2) by (simp add: kMaxItemSize_def)
  have put: "Request_put r cs = Some (?m @ drop (Request_Len r) cs)"
    using bound b(1) by (simp add: Request_put_def kl Request_Len_def Client_kSendBufSize_def add.assoc)
  have "kIBUDPadding + length ?m \<le> length sr"
    unfolding len using bound b(2) by (simp add: kIBUDPadding_def Request_Len_def kl kRecvBufSize_def)
  then obtain hdr rest where del: "length hdr = kIBUDPadding" "net ?m sr = Some (hdr @ ?m @ rest)"
    using n unfolding delivers_def by blast
  let ?view = "\<lparr>rv_type = ReqType_byte t, rv_key_len = key_len r, rv_val_len = val_len r, rv_key_hash = key_hash r, rv_data = k @ v\<rparr>"
  have "drop kIBUDPadding (hdr @ ?m @ rest) = ?m @ rest"
    using del(1) by simp
  then have mk: "MakeRequest (hdr @ ?m @ rest) = Some ?view"
    by (simp add: MakeRequest_def Let_def codec_u16.dec_enc codec_u64.dec_enc kl)
  have "take (Request_Len r) (?m @ drop (Request_Len r) cs) = ?m"
    using len by (metis append_eq_conv_conj)
  then have "net (take (Request_Len r) (?m @ drop (Request_Len r) cs)) sr = Some (hdr @ ?m @ rest)"
    using del(2) by (simp only:)
  moreover have "as_request t ?view = r"
    by (simp add: as_request_def r Request_New_def)
  moreover have "rv_type ?view = ReqType_byte t"
    by simp
  ultimately show ?thesis
    using put mk by blast
qed

lemma response_arrives:
  assumes n: "delivers net" and x: "length x \<le> kMaxItemSize" "ty \<noteq> ReqType_byte GET \<longrightarrow> x = []"
    and r: "resp = \<lparr>resp_type = ty, resp_status = st, resp_val_len = of_nat (length x), resp_val = x\<rparr>"
    and b: "length ss = kSendBufSize" "length cr = Client_kRecvBufSize"
  shows "\<exists>b m. Response_put resp ss = Some b \<and> net (take (Response_Len resp) b) cr = Some m \<and> MakeResponse m = Some resp"
proof -
  have vl: "unat (of_nat (length x) :: u16) = length x"
    using x(1) by (rule of_nat_u16)
  let ?m = "[ty, st] @ le_bytes 2 (of_nat (length x) :: u16) @ x"
  have len: "length ?m = Response_Len resp"
    using x(2) by (simp add: Response_Len_def r vl)
  have put: "Response_put resp ss = Some (?m @ drop (Response_Len resp) ss)"
    using x b(1) by (simp add: Response_put_def Response_Len_def vl r kSendBufSize_def kMaxItemSize_def)
  have "kIBUDPadding + length ?m \<le> length cr"
    unfolding len using x b(2) by (simp add: kIBUDPadding_def Response_Len_def r vl Client_kRecvBufSize_def kMaxItemSize_def)
  then obtain hdr rest where del: "length hdr = kIBUDPadding" "net ?m cr = Some (hdr @ ?m @ rest)"
    using n unfolding delivers_def by blast
  have "drop kIBUDPadding (hdr @ ?m @ rest) = ?m @ rest"
    using del(1) by simp
  then have mk: "MakeResponse (hdr @ ?m @ rest) = Some resp"
    by (simp add: MakeResponse_def Let_def codec_u16.dec_enc vl r)
  have "take (Response_Len resp) (?m @ drop (Response_Len resp) ss) = ?m"
    using len by (metis append_eq_conv_conj)
  then have "net (take (Response_Len resp) (?m @ drop (Response_Len resp) ss)) cr = Some (hdr @ ?m @ rest)"
    using del(2) by (simp only:)
  then show ?thesis
    using put mk by blast
qed

lemma serve_op_arrived:
  assumes "rv_type view = ReqType_byte t" "as_request t view = r"
  shows "serve_op s view = map_option (\<lambda>(st, x, s). (\<lparr>resp_type = ReqType_byte t, resp_status = Status_byte st,
      resp_val_len = of_nat (length x), resp_val = x\<rparr>, s)) (tablet_op s r)"
proof -
  have "req_type r = t"
    using assms(2) by (auto simp: as_request_def)
  with assms show ?thesis
    by (cases t) (auto simp: serve_op_def tablet_op_def Response_New_def Let_def map_option_case split: option.splits)
qed

lemma rpc_eq:
  assumes "delivers net" "r = Request_New t k v h" "length k + length v \<le> kMaxItemSize"
    and "length cs = Client_kSendBufSize" "length sr = kRecvBufSize" "length ss = kSendBufSize" "length cr = Client_kRecvBufSize"
    and "\<And>st x s'. Get s r [] = Some (st, x, s') \<Longrightarrow> length x \<le> kMaxItemSize"
  shows "rpc net s r cs sr ss cr = map_option (\<lambda>(st, x, s). (\<lparr>resp_type = ReqType_byte t, resp_status = Status_byte st,
      resp_val_len = of_nat (length x), resp_val = x\<rparr>, s)) (tablet_op s r)"
proof -
  obtain b m view where q: "Request_put r cs = Some b" "net (take (Request_Len r) b) sr = Some m" "MakeRequest m = Some view"
    "rv_type view = ReqType_byte t" "as_request t view = r"
    using request_arrives [OF assms(1-5)] by blast
  have rt: "req_type r = t"
    by (simp add: assms(2) Request_New_def)
  show ?thesis
  proof (cases "tablet_op s r")
    case None
    then show ?thesis
      using q by (simp add: rpc_def serve_op_arrived [OF q(4,5)])
  next
    case (Some y)
    obtain st x s' where y: "y = (st, x, s')"
      by (cases y)
    have x: "length x \<le> kMaxItemSize" "ReqType_byte t \<noteq> ReqType_byte GET \<longrightarrow> x = []"
      using Some y rt assms(8) by (cases t; auto simp: tablet_op_def)+
    let ?resp = "\<lparr>resp_type = ReqType_byte t, resp_status = Status_byte st, resp_val_len = of_nat (length x), resp_val = x\<rparr>"
    obtain b' m' where "Response_put ?resp ss = Some b'" "net (take (Response_Len ?resp) b') cr = Some m'" "MakeResponse m' = Some ?resp"
      using response_arrives [OF assms(1) x refl assms(6,7)] by blast
    then show ?thesis
      using q Some y by (simp add: rpc_def serve_op_arrived [OF q(4,5)])
  qed
qed

text \<open>
  C32: Over a network that loses no datagram that fits its buffer, whatever the buffers held, a request of at most \<^verbatim>\<open>kMaxItemSize\<close> bytes of key and value fits the
  buffers of client and server and the worker executes exactly that request; the client reads
  back exactly the status and the value of the tablet's operation, as long as the value is at most
  \<^verbatim>\<open>kMaxItemSize\<close> long.
\<close>

theorem rpc_transparent:
  assumes "delivers net" "r = Request_New t k v h" "length k + length v \<le> kMaxItemSize"
    and "length cs = Client_kSendBufSize" "length sr = kRecvBufSize" "length ss = kSendBufSize" "length cr = Client_kRecvBufSize"
    and "\<And>st x s'. Get s r [] = Some (st, x, s') \<Longrightarrow> length x \<le> kMaxItemSize"
  shows "rpc net s r cs sr ss cr = map_option (\<lambda>(st, x, s). (\<lparr>resp_type = ReqType_byte t, resp_status = Status_byte st,
      resp_val_len = of_nat (length x), resp_val = x\<rparr>, s)) (tablet_op s r)"
  using assms by (rule rpc_eq)

text \<open>A network that leaves the 40 bytes and the end of the buffer alone and drops what does not fit.\<close>

definition ud_deliver :: network where
  "ud_deliver msg b =
     (if kIBUDPadding + length msg \<le> length b
      then Some (take kIBUDPadding b @ msg @ drop (kIBUDPadding + length msg) b) else None)"

lemma ud_deliver_delivers: "delivers ud_deliver"
  unfolding delivers_def
proof (intro allI impI)
  fix msg b :: "u8 list"
  assume "kIBUDPadding + length msg \<le> length b"
  then show "\<exists>hdr rest. length hdr = kIBUDPadding \<and> ud_deliver msg b = Some (hdr @ msg @ rest)"
    by (intro exI [of _ "take kIBUDPadding b"] exI [of _ "drop (kIBUDPadding + length msg) b"]) (simp add: ud_deliver_def)
qed

text \<open>A \<^verbatim>\<open>Get\<close> on a tablet with an empty hash table.\<close>

definition zero_tablet :: Allocator where
  "zero_tablet = \<lparr>nvm_base = 0, nvm_data = (\<lambda>_. 0), cnt_writes = 0, modifications = []\<rparr>"

theorem rpc_transparent_witness:
  "rpc ud_deliver zero_tablet (Request_New GET [107] [] 0) (replicate 2176 1) (replicate 2176 2) (replicate 1152 3) (replicate 1152 4) =
     Some (\<lparr>resp_type = 2, resp_status = 1, resp_val_len = 0, resp_val = []\<rparr>, zero_tablet)"
proof -
  let ?r = "Request_New GET [107] [] 0"
  have "Read32 zero_tablet 67108864 = Some 0"
    by (simp add: Read32_def Read_def ensure_def in_tablet_def kNVMTabletSize_def zero_tablet_def read_bytes_def upt_rec)
  moreover have "set_modifications zero_tablet [] = zero_tablet"
    by (simp add: set_modifications_def zero_tablet_def)
  ultimately have g: "Get zero_tablet ?r [] = Some (ERROR, [], zero_tablet)"
    by (simp add: Get_def Request_New_def ensure_def slot_of_def kSize_def find_loop.simps)
  have op: "tablet_op zero_tablet ?r = Some (ERROR, [], zero_tablet)"
    using g by (simp add: tablet_op_def Request_New_def)
  show ?thesis
    by (subst rpc_transparent [OF ud_deliver_delivers refl])
      (simp_all add: g op kMaxItemSize_def Client_kSendBufSize_def kRecvBufSize_def kSendBufSize_def Client_kRecvBufSize_def
        ReqType_byte_def Status_byte_def)
qed

end
