(* ===== verification/Murmur.thy ===== *)
theory Murmur
  imports NVDS_Prelude
begin

text \<open>
  The hash functions of \<^verbatim>\<open>src/MurmurHash2.cc\<close> and the key hash of
  \<^verbatim>\<open>src/hash.h\<close>. A key of \<open>len\<close> bytes is the list of its bytes; a
  4-byte load is a little-endian load, as on the x86-64 machines the code is built for. The
  parameter \<^verbatim>\<open>int len\<close> is the length of that list, so the model speaks of keys shorter than
  \<open>2 ^ 31\<close> bytes (the store keeps key lengths in 16 bits). The
  \<^verbatim>\<open>switch\<close> statements fall through, so each case contains the ones below it.
\<close>

section \<open>Mixing\<close>

definition murmur_m :: u32 where
  "murmur_m = 0x5bd1e995"

definition kmix :: "u32 \<Rightarrow> u32" where
  "kmix k = (let k = k * murmur_m; k = k XOR drop_bit 24 k in k * murmur_m)"

definition mmix :: "u32 \<Rightarrow> u32 \<Rightarrow> u32" where
  "mmix h k = (h * murmur_m) XOR kmix k"

definition final_mix :: "u32 \<Rightarrow> u32" where
  "final_mix h =
     (let h = h XOR drop_bit 13 h; h = h * murmur_m in h XOR drop_bit 15 h)"

definition at_byte :: "u8 \<Rightarrow> nat \<Rightarrow> 'a::len word" where
  "at_byte b i = push_bit (8 * i) (ucast b)"

section \<open>MurmurHash2\<close>

fun MurmurHash2_loop :: "u32 \<Rightarrow> u8 list \<Rightarrow> u32 \<times> u8 list" where
  "MurmurHash2_loop h (b0 # b1 # b2 # b3 # data) =
     MurmurHash2_loop (mmix h (word_of_le [b0, b1, b2, b3])) data"
| "MurmurHash2_loop h data = (h, data)"

fun MurmurHash2_tail :: "u32 \<Rightarrow> u8 list \<Rightarrow> u32" where
  "MurmurHash2_tail h [d0, d1, d2] =
     (h XOR at_byte d2 2 XOR at_byte d1 1 XOR at_byte d0 0) * murmur_m"
| "MurmurHash2_tail h [d0, d1] = (h XOR at_byte d1 1 XOR at_byte d0 0) * murmur_m"
| "MurmurHash2_tail h [d0] = (h XOR at_byte d0 0) * murmur_m"
| "MurmurHash2_tail h data = h"

definition MurmurHash2 :: "u8 list \<Rightarrow> u32 \<Rightarrow> u32" where
  "MurmurHash2 key seed =
     (let (h, data) = MurmurHash2_loop (seed XOR of_nat (length key)) key
      in final_mix (MurmurHash2_tail h data))"

section \<open>MurmurHashNeutral2\<close>

fun MurmurHashNeutral2_loop :: "u32 \<Rightarrow> u8 list \<Rightarrow> u32 \<times> u8 list" where
  "MurmurHashNeutral2_loop h (b0 # b1 # b2 # b3 # data) =
     (let k = at_byte b0 0; k = k OR at_byte b1 1; k = k OR at_byte b2 2; k = k OR at_byte b3 3
      in MurmurHashNeutral2_loop (mmix h k) data)"
| "MurmurHashNeutral2_loop h data = (h, data)"

definition MurmurHashNeutral2 :: "u8 list \<Rightarrow> u32 \<Rightarrow> u32" where
  "MurmurHashNeutral2 key seed =
     (let (h, data) = MurmurHashNeutral2_loop (seed XOR of_nat (length key)) key
      in final_mix (MurmurHash2_tail h data))"

section \<open>MurmurHashAligned2\<close>

text \<open>The bytes a fall-through \<^verbatim>\<open>switch\<close> gathers with \<^verbatim>\<open>|=\<close>.\<close>

fun gather :: "u8 list \<Rightarrow> u32" where
  "gather (d0 # d1 # d2 # data) = at_byte d2 2 OR at_byte d1 1 OR at_byte d0 0"
| "gather [d0, d1] = at_byte d1 1 OR at_byte d0 0"
| "gather [d0] = at_byte d0 0"
| "gather [] = 0"

fun MurmurHashAligned2_loop ::
  "nat \<Rightarrow> u32 \<Rightarrow> u32 \<Rightarrow> u8 list \<Rightarrow> u32 \<times> u32 \<times> u8 list" where
  "MurmurHashAligned2_loop align h t (b0 # b1 # b2 # b3 # data) =
     (let d = word_of_le [b0, b1, b2, b3];
          t = drop_bit (8 * align) t OR push_bit (8 * (4 - align)) d
      in MurmurHashAligned2_loop align (mmix h t) d data)"
| "MurmurHashAligned2_loop align h t data = (h, t, data)"

definition MurmurHashAligned2 :: "nat \<Rightarrow> u8 list \<Rightarrow> u32 \<Rightarrow> u32" where
  "MurmurHashAligned2 addr key seed =
     (let h = seed XOR of_nat (length key); align = addr mod 4
      in if align \<noteq> 0 \<and> 4 \<le> length key
         then let t = push_bit (8 * align) (gather (take (4 - align) key));
                  (h, t, data) = MurmurHashAligned2_loop align h t (drop (4 - align) key)
              in if align \<le> length data
                 then let d = gather (take align data);
                          k = drop_bit (8 * align) t OR push_bit (8 * (4 - align)) d;
                          h = mmix h k
                      in final_mix (MurmurHash2_tail h (drop align data))
                 else let d = gather data;
                          h = h XOR (drop_bit (8 * align) t OR push_bit (8 * (4 - align)) d)
                      in final_mix (h * murmur_m)
         else let (h, data) = MurmurHash2_loop h key
              in final_mix (MurmurHash2_tail h data))"

section \<open>MurmurHash2A and its incremental version\<close>

fun MurmurHash2A_tail :: "u8 list \<Rightarrow> u32" where
  "MurmurHash2A_tail [d0, d1, d2] = at_byte d2 2 XOR at_byte d1 1 XOR at_byte d0 0"
| "MurmurHash2A_tail [d0, d1] = at_byte d1 1 XOR at_byte d0 0"
| "MurmurHash2A_tail [d0] = at_byte d0 0"
| "MurmurHash2A_tail data = 0"

definition MurmurHash2A :: "u8 list \<Rightarrow> u32 \<Rightarrow> u32" where
  "MurmurHash2A key seed =
     (let (h, data) = MurmurHash2_loop seed key;
          t = MurmurHash2A_tail data;
          h = mmix h t;
          h = mmix h (of_nat (length key))
      in final_mix h)"

record CMurmurHash2A =
  m_hash :: u32
  m_tail :: u32
  m_count :: u32
  m_size :: u32

definition Begin :: "u32 \<Rightarrow> CMurmurHash2A" where
  "Begin seed = \<lparr>m_hash = seed, m_tail = 0, m_count = 0, m_size = 0\<rparr>"

definition mix_byte :: "CMurmurHash2A \<Rightarrow> u8 \<Rightarrow> CMurmurHash2A" where
  "mix_byte c b =
     (let c = c\<lparr>m_tail := m_tail c OR at_byte b (unat (m_count c))\<rparr>;
          c = c\<lparr>m_count := m_count c + 1\<rparr>
      in if m_count c = 4
         then c\<lparr>m_hash := mmix (m_hash c) (m_tail c), m_tail := 0, m_count := 0\<rparr>
         else c)"

fun MixTail :: "CMurmurHash2A \<Rightarrow> u8 list \<Rightarrow> CMurmurHash2A \<times> u8 list" where
  "MixTail c [] = (c, [])"
| "MixTail c (b # data) =
     (if length (b # data) < 4 \<or> m_count c \<noteq> 0 then MixTail (mix_byte c b) data
      else (c, b # data))"

definition Add :: "CMurmurHash2A \<Rightarrow> u8 list \<Rightarrow> CMurmurHash2A" where
  "Add c data =
     (let c = c\<lparr>m_size := m_size c + of_nat (length data)\<rparr>;
          (c, data) = MixTail c data;
          (h, data) = MurmurHash2_loop (m_hash c) data;
          c = c\<lparr>m_hash := h\<rparr>
      in fst (MixTail c data))"

text \<open>
  The macro \<^verbatim>\<open>mmix\<close> assigns to both of its arguments, so \<^verbatim>\<open>End\<close> also leaves the mixed
  tail and size in the hasher.
\<close>

definition End :: "CMurmurHash2A \<Rightarrow> u32 \<times> CMurmurHash2A" where
  "End c =
     (let c = c\<lparr>m_hash := mmix (m_hash c) (m_tail c), m_tail := kmix (m_tail c)\<rparr>;
          c = c\<lparr>m_hash := mmix (m_hash c) (m_size c), m_size := kmix (m_size c)\<rparr>;
          c = c\<lparr>m_hash := final_mix (m_hash c)\<rparr>
      in (m_hash c, c))"

section \<open>The 64-bit versions and the key hash\<close>

definition murmur_m64 :: u64 where
  "murmur_m64 = 0xc6a4a7935bd1e995"

fun MurmurHash64A_loop :: "u64 \<Rightarrow> u8 list \<Rightarrow> u64 \<times> u8 list" where
  "MurmurHash64A_loop h (b0 # b1 # b2 # b3 # b4 # b5 # b6 # b7 # data) =
     (let k = word_of_le [b0, b1, b2, b3, b4, b5, b6, b7];
          k = k * murmur_m64; k = k XOR drop_bit 47 k; k = k * murmur_m64
      in MurmurHash64A_loop ((h XOR k) * murmur_m64) data)"
| "MurmurHash64A_loop h data = (h, data)"

definition MurmurHash64A :: "u8 list \<Rightarrow> u64 \<Rightarrow> u64" where
  "MurmurHash64A key seed =
     (let (h, data) = MurmurHash64A_loop (seed XOR (of_nat (length key) * murmur_m64)) key;
          h = (if data = [] then h
               else fold (\<lambda>i h. h XOR at_byte (data ! i) i) (rev [0..<length data]) h * murmur_m64);
          h = h XOR drop_bit 47 h; h = h * murmur_m64
      in h XOR drop_bit 47 h)"

fun MurmurHash64B_loop :: "u32 \<Rightarrow> u32 \<Rightarrow> u8 list \<Rightarrow> u32 \<times> u32 \<times> u8 list" where
  "MurmurHash64B_loop h1 h2 (b0 # b1 # b2 # b3 # b4 # b5 # b6 # b7 # data) =
     MurmurHash64B_loop (mmix h1 (word_of_le [b0, b1, b2, b3]))
       (mmix h2 (word_of_le [b4, b5, b6, b7])) data"
| "MurmurHash64B_loop h1 h2 data = (h1, h2, data)"

definition MurmurHash64B_final :: "u32 \<Rightarrow> u32 \<Rightarrow> u64" where
  "MurmurHash64B_final h1 h2 =
     (let h1 = (h1 XOR drop_bit 18 h2) * murmur_m;
          h2 = (h2 XOR drop_bit 22 h1) * murmur_m;
          h1 = (h1 XOR drop_bit 17 h2) * murmur_m;
          h2 = (h2 XOR drop_bit 19 h1) * murmur_m
      in push_bit 32 (ucast h1) OR ucast h2)"

definition MurmurHash64B :: "u8 list \<Rightarrow> u64 \<Rightarrow> u64" where
  "MurmurHash64B key seed =
     (let (h1, h2, data) = MurmurHash64B_loop (ucast seed XOR of_nat (length key))
                             (ucast (drop_bit 32 seed)) key;
          (h1, data) = (if 4 \<le> length data
                        then (mmix h1 (word_of_le (take 4 data)), drop 4 data)
                        else (h1, data));
          h2 = MurmurHash2_tail h2 data
      in MurmurHash64B_final h1 h2)"

definition Hash :: "u8 list \<Rightarrow> u64" where
  "Hash key = MurmurHash64B key 103"

section \<open>Byte lists as words\<close>

lemma at_byte_simps [simp]: "at_byte b 0 = ucast b"
  by (simp add: at_byte_def)

lemma at_byte_eq: "at_byte b i = push_bit (8 * i) (word_of_le [b])"
  by (simp add: at_byte_def)

lemma word_of_le_append:
  "(word_of_le (p @ q) :: 'a::len word) = word_of_le p OR push_bit (8 * length p) (word_of_le q)"
proof (induction p)
  case Nil
  then show ?case by simp
next
  case (Cons b p)
  then show ?case
    by (simp add: push_bit_or add.commute or.assoc flip: push_bit_push_bit)
qed

lemma drop_bit_word_of_le:
  fixes bs :: "u8 list"
  assumes "8 * length bs \<le> LENGTH('a::len)"
  shows "drop_bit (8 * n) (word_of_le bs :: 'a word) = word_of_le (drop n bs)"
proof (rule bit_word_eqI)
  fix k
  assume "k < LENGTH('a)"
  moreover have "(8 * n + k) div 8 = n + k div 8" and "(8 * n + k) mod 8 = k mod 8"
    by simp_all
  moreover have "n + k div 8 < length bs \<Longrightarrow> 8 * n + k < LENGTH('a)"
    using assms by linarith
  ultimately show "bit (drop_bit (8 * n) (word_of_le bs :: 'a word)) k =
      bit (word_of_le (drop n bs) :: 'a word) k"
    by (auto simp: bit_simps bit_word_of_le)
qed

lemma drop_push_word_of_le:
  fixes bs :: "u8 list"
  assumes "8 * (n + length bs) \<le> LENGTH('a::len)"
  shows "drop_bit (8 * n) (push_bit (8 * n) (word_of_le bs) :: 'a word) = word_of_le bs"
proof -
  have "push_bit (8 * n) (word_of_le bs) = (word_of_le (replicate n 0 @ bs) :: 'a word)"
  proof -
    have "(word_of_le (replicate n 0) :: 'a word) = 0"
      by (induction n) simp_all
    then show ?thesis
      by (simp add: word_of_le_append)
  qed
  then show ?thesis
    using assms drop_bit_word_of_le [of "replicate n 0 @ bs" n] by simp
qed

lemma bit_at_byte:
  "bit (at_byte b i :: 'a::len word) k \<longleftrightarrow>
     k < LENGTH('a) \<and> 8 * i \<le> k \<and> k < 8 * i + 8 \<and> bit b (k - 8 * i)"
  by (auto simp: at_byte_def bit_simps dest: bit_imp_le_length)

text \<open>Bytes at different positions do not overlap: \<^verbatim>\<open>^=\<close> and \<^verbatim>\<open>|=\<close> agree.\<close>

lemma xor_or_at_byte:
  assumes "\<And>k. bit (w :: 'a::len word) k \<Longrightarrow> 8 * Suc i \<le> k"
  shows "w XOR at_byte b i = w OR at_byte b i"
proof (rule bit_word_eqI)
  fix k
  show "bit (w XOR at_byte b i) k = bit (w OR at_byte b i) k"
    using assms [of k] by (auto simp: bit_simps bit_at_byte)
qed

lemma xor_bytes3: "at_byte d2 2 XOR at_byte d1 1 XOR at_byte d0 0 = (word_of_le [d0, d1, d2] :: u32)"
  and xor_bytes2: "at_byte d1 1 XOR at_byte d0 0 = (word_of_le [d0, d1] :: u32)"
  and gather3: "at_byte d2 2 OR at_byte d1 1 OR at_byte d0 0 = (word_of_le [d0, d1, d2] :: u32)"
  and gather2: "at_byte d1 1 OR at_byte d0 0 = (word_of_le [d0, d1] :: u32)"
proof -
  have pb: "push_bit 8 (push_bit 8 w) = (push_bit 16 w :: u32)" for w
    by simp
  show g3: "at_byte d2 2 OR at_byte d1 1 OR at_byte d0 0 = (word_of_le [d0, d1, d2] :: u32)"
    by (simp add: at_byte_def push_bit_or or.commute or.left_commute or.assoc)
  show g2: "at_byte d1 1 OR at_byte d0 0 = (word_of_le [d0, d1] :: u32)"
    by (simp add: at_byte_def or.commute)
  have "at_byte d1 1 XOR at_byte d0 0 = (at_byte d1 1 OR at_byte d0 0 :: u32)"
    by (rule xor_or_at_byte) (simp add: bit_at_byte)
  with g2 show "at_byte d1 1 XOR at_byte d0 0 = (word_of_le [d0, d1] :: u32)"
    by simp
  have "at_byte d2 2 XOR at_byte d1 1 = (at_byte d2 2 OR at_byte d1 1 :: u32)"
    by (rule xor_or_at_byte) (simp add: bit_at_byte)
  moreover have "(at_byte d2 2 OR at_byte d1 1) XOR at_byte d0 0 =
      ((at_byte d2 2 OR at_byte d1 1) OR at_byte d0 0 :: u32)"
    by (rule xor_or_at_byte) (auto simp: bit_at_byte bit_simps)
  ultimately show "at_byte d2 2 XOR at_byte d1 1 XOR at_byte d0 0 = (word_of_le [d0, d1, d2] :: u32)"
    using g3 by (simp add: or.assoc flip: xor.assoc)
qed

lemma gather_word_of_le: "length data \<le> 3 \<Longrightarrow> gather data = word_of_le data"
  by (cases data rule: gather.cases) (simp_all add: gather3 [simplified], simp add: gather2 [simplified])

lemma MurmurHash2_tail_eq:
  "length data < 4 \<Longrightarrow>
   MurmurHash2_tail h data = (if data = [] then h else (h XOR word_of_le data) * murmur_m)"
  by (cases "(h, data)" rule: MurmurHash2_tail.cases)
    (simp_all add: xor.assoc xor_bytes3 [simplified], simp add: xor_bytes2 [simplified])

lemma MurmurHash2A_tail_eq: "length data < 4 \<Longrightarrow> MurmurHash2A_tail data = word_of_le data"
  by (cases data rule: MurmurHash2A_tail.cases)
    (simp_all add: xor_bytes3 [simplified], simp add: xor_bytes2 [simplified])

section \<open>Word by word\<close>

text \<open>The 4-byte words of a key are mixed in one after the other.\<close>

lemma MurmurHash2_loop_append4:
  "length w = 4 \<Longrightarrow> MurmurHash2_loop h (w @ data) = MurmurHash2_loop (mmix h (word_of_le w)) data"
proof -
  assume "length w = 4"
  then obtain a b c d where "w = [a, b, c, d]"
    by (auto simp: numeral_eq_Suc length_Suc_conv)
  then show ?thesis
    by simp
qed

lemma MurmurHash2_loop_short: "length data < 4 \<Longrightarrow> MurmurHash2_loop h data = (h, data)"
  by (cases "(h, data)" rule: MurmurHash2_loop.cases) simp_all

lemma MurmurHash2_loop_rest: "length (snd (MurmurHash2_loop h data)) < 4"
  by (induction h data rule: MurmurHash2_loop.induct) simp_all

lemma MurmurHash2_loop_append:
  "4 dvd length p \<Longrightarrow>
   MurmurHash2_loop h (p @ q) = MurmurHash2_loop (fst (MurmurHash2_loop h p)) q"
proof (induction h p rule: MurmurHash2_loop.induct)
  case (1 h b0 b1 b2 b3 data)
  have "4 dvd length data + 4"
    using "1.prems" by (simp add: eval_nat_numeral)
  then have "4 dvd length data"
    by simp
  with "1.IH" show ?case
    by simp
qed (auto dest: dvd_imp_le)

text \<open>The endian-neutral version computes the same hash as the version that loads words.\<close>

lemma MurmurHashNeutral2_eq: "MurmurHashNeutral2 key seed = MurmurHash2 key seed"
proof -
  have "((at_byte b0 0 OR at_byte b1 1) OR at_byte b2 2) OR at_byte b3 3 =
      (word_of_le [b0, b1, b2, b3] :: u32)" for b0 b1 b2 b3
    by (simp add: at_byte_def push_bit_or or.assoc)
  then have "MurmurHashNeutral2_loop h data = MurmurHash2_loop h data" for h data
    by (induction h data rule: MurmurHashNeutral2_loop.induct) (simp_all add: Let_def)
  then show ?thesis
    by (simp add: MurmurHashNeutral2_def MurmurHash2_def)
qed

section \<open>The aligned version\<close>

lemma word_of_le_take4: "(word_of_le bs :: u32) = word_of_le (take 4 bs)"
proof (rule bit_word_eqI)
  fix k
  assume "k < LENGTH(32)"
  then have "k div 8 < 4"
    by simp
  then show "bit (word_of_le bs :: u32) k = bit (word_of_le (take 4 bs) :: u32) k"
    by (auto simp: bit_word_of_le)
qed

lemma aligned_word:
  assumes "drop_bit (8 * align) (t :: u32) = word_of_le p" "length p = 4 - align" "align < 4"
  shows "drop_bit (8 * align) t OR push_bit (8 * (4 - align)) (word_of_le q) =
         word_of_le (p @ take align q)"
proof -
  have "drop_bit (8 * align) t OR push_bit (8 * (4 - align)) (word_of_le q) = word_of_le (p @ q)"
    using assms by (simp add: word_of_le_append)
  also have "\<dots> = word_of_le (p @ take align q)"
    using assms by (subst word_of_le_take4) simp
  finally show ?thesis .
qed

text \<open>
  After each round the upper bytes of \<open>t\<close> are the bytes already loaded and not yet mixed.
\<close>

lemma aligned_loop:
  assumes "drop_bit (8 * align) t = word_of_le p" "length p = 4 - align" "align < 4"
  shows "\<exists>h' t' r p'. MurmurHashAligned2_loop align h t data = (h', t', r)
           \<and> drop_bit (8 * align) t' = word_of_le p' \<and> length p' = 4 - align \<and> length r < 4
           \<and> MurmurHash2_loop h (p @ data) = MurmurHash2_loop h' (p' @ r)"
  using assms
proof (induction align h t data arbitrary: p rule: MurmurHashAligned2_loop.induct)
  case (1 align h t b0 b1 b2 b3 data)
  let ?q = "[b0, b1, b2, b3]"
  let ?t = "drop_bit (8 * align) t OR push_bit (8 * (4 - align)) (word_of_le ?q)"
  have t: "?t = word_of_le (p @ take align ?q)"
    using "1.prems" by (rule aligned_word)
  have split: "p @ ?q @ data = (p @ take align ?q) @ (drop align ?q @ data)"
    using append_take_drop_id [of align ?q] by (metis append_assoc)
  have plain: "MurmurHash2_loop h (p @ ?q @ data) =
      MurmurHash2_loop (mmix h ?t) (drop align ?q @ data)"
    unfolding split t using "1.prems" by (intro MurmurHash2_loop_append4) simp
  have "drop_bit (8 * align) (word_of_le ?q :: u32) = word_of_le (drop align ?q)"
    by (rule drop_bit_word_of_le) simp
  then have "\<exists>h' t' r p'. MurmurHashAligned2_loop align (mmix h ?t) (word_of_le ?q) data = (h', t', r)
      \<and> drop_bit (8 * align) t' = word_of_le p' \<and> length p' = 4 - align \<and> length r < 4
      \<and> MurmurHash2_loop (mmix h ?t) (drop align ?q @ data) = MurmurHash2_loop h' (p' @ r)"
    using "1.prems"(3) by (intro "1.IH") simp_all
  then show ?case
    using plain by (simp add: Let_def)
qed auto

text \<open>So does the version that only makes aligned loads, for a key at any address.\<close>

lemma MurmurHashAligned2_eq: "MurmurHashAligned2 addr key seed = MurmurHash2 key seed"
proof (cases "addr mod 4 \<noteq> 0 \<and> 4 \<le> length key")
  case False
  then show ?thesis
    by (auto simp: MurmurHashAligned2_def MurmurHash2_def Let_def)
next
  case True
  define al where "al = addr mod 4"
  define h0 where "h0 = seed XOR of_nat (length key)"
  define t0 where "t0 = push_bit (8 * al) (gather (take (4 - al) key))"
  have al: "0 < al" "al < 4"
    using True by (simp_all add: al_def)
  have t0: "drop_bit (8 * al) t0 = word_of_le (take (4 - al) key)"
    using al True by (simp add: t0_def gather_word_of_le drop_push_word_of_le)
  obtain h t r p where
    loop: "MurmurHashAligned2_loop al h0 t0 (drop (4 - al) key) = (h, t, r)" and
    t: "drop_bit (8 * al) t = word_of_le p" "length p = 4 - al" and r: "length r < 4" and
    plain: "MurmurHash2_loop h0 key = MurmurHash2_loop h (p @ r)"
    using aligned_loop [OF t0 _ al(2), of h0 "drop (4 - al) key"] True by auto
  have "MurmurHashAligned2 addr key seed =
      (let (h, data) = MurmurHash2_loop h (p @ r) in final_mix (MurmurHash2_tail h data))"
  proof (cases "al \<le> length r")
    case long: True
    have k: "drop_bit (8 * al) t OR push_bit (8 * (4 - al)) (gather (take al r)) =
        word_of_le (p @ take al r)"
      using aligned_word [OF t al(2), of "take al r"] al by (simp add: gather_word_of_le)
    have "MurmurHash2_loop h ((p @ take al r) @ drop al r) =
        (mmix h (word_of_le (p @ take al r)), drop al r)"
      using t(2) long r al by (subst MurmurHash2_loop_append4) (simp_all add: MurmurHash2_loop_short)
    then show ?thesis
      using True long loop k
      by (simp add: MurmurHashAligned2_def Let_def flip: al_def h0_def t0_def)
  next
    case short: False
    have k: "drop_bit (8 * al) t OR push_bit (8 * (4 - al)) (gather r) = word_of_le (p @ r)"
      using aligned_word [OF t al(2), of r] short r al by (simp add: gather_word_of_le)
    have "p \<noteq> []"
      using t(2) al by auto
    then show ?thesis
      using True short loop k t(2) al
      by (simp add: MurmurHashAligned2_def Let_def MurmurHash2_loop_short MurmurHash2_tail_eq
          flip: al_def h0_def t0_def)
  qed
  then show ?thesis
    by (simp add: MurmurHash2_def plain flip: h0_def)
qed

text \<open>
  C15: The three 32-bit versions agree: for every key, at whatever address it lies, the version
  that only makes aligned loads and the endian-neutral version compute the hash of the version
  that loads a word at any address.
\<close>

theorem MurmurHash2_variants:
  "MurmurHashAligned2 addr key seed = MurmurHash2 key seed \<and> MurmurHashNeutral2 key seed = MurmurHash2 key seed"
  by (simp add: MurmurHashAligned2_eq MurmurHashNeutral2_eq)

section \<open>The incremental version\<close>

text \<open>
  What the state holds after the bytes \<open>bs\<close>: the hash of the whole words, the bytes
  that do not fill a word yet, their number and the length so far.
\<close>

definition rest :: "u32 \<Rightarrow> u8 list \<Rightarrow> u8 list" where
  "rest seed bs = snd (MurmurHash2_loop seed bs)"

definition absorbed :: "u32 \<Rightarrow> u8 list \<Rightarrow> CMurmurHash2A \<Rightarrow> bool" where
  "absorbed seed bs c \<longleftrightarrow>
     MurmurHash2_loop seed bs = (m_hash c, rest seed bs)
     \<and> m_tail c = word_of_le (rest seed bs) \<and> m_count c = of_nat (length (rest seed bs))"

lemma length_rest: "length (rest seed bs) < 4"
  by (simp add: rest_def MurmurHash2_loop_rest)

lemma absorbedI:
  "MurmurHash2_loop seed bs = (m_hash c, r) \<Longrightarrow> m_tail c = word_of_le r \<Longrightarrow>
   m_count c = of_nat (length r) \<Longrightarrow> absorbed seed bs c"
  by (simp add: absorbed_def rest_def)

lemma MurmurHash2_loop_snoc:
  assumes "MurmurHash2_loop h bs = (h', r)"
  shows "MurmurHash2_loop h (bs @ q) = MurmurHash2_loop h' (r @ q)"
  using assms
proof (induction h bs rule: MurmurHash2_loop.induct)
  case (1 h b0 b1 b2 b3 data)
  then show ?case by simp
qed auto

lemma absorbed_count: "absorbed seed bs c \<Longrightarrow> unat (m_count c) = length (rest seed bs)"
  using length_rest [of seed bs] by (simp add: absorbed_def unat_of_nat_u32)

lemma absorbed_byte:
  assumes "absorbed seed bs c"
  shows "absorbed seed (bs @ [b]) (mix_byte c b)"
proof -
  let ?r = "rest seed bs"
  let ?c = "c\<lparr>m_tail := m_tail c OR at_byte b (unat (m_count c)), m_count := m_count c + 1\<rparr>"
  have tl: "m_tail ?c = word_of_le (?r @ [b])"
    using assms absorbed_count [OF assms] by (simp add: absorbed_def word_of_le_append at_byte_def)
  have cnt: "m_count ?c = of_nat (length (?r @ [b]))"
    using assms by (simp add: absorbed_def add.commute)
  have step: "MurmurHash2_loop seed (bs @ [b]) = MurmurHash2_loop (m_hash c) (?r @ [b])"
    using assms by (intro MurmurHash2_loop_snoc) (simp add: absorbed_def)
  show ?thesis
  proof (cases "length ?r = 3")
    case True
    then have "m_count ?c = 4"
      by (simp only: cnt) simp
    then have "mix_byte c b = ?c\<lparr>m_hash := mmix (m_hash ?c) (m_tail ?c), m_tail := 0, m_count := 0\<rparr>"
      by (simp add: mix_byte_def)
    moreover have "MurmurHash2_loop (m_hash c) (?r @ [b]) = (mmix (m_hash c) (word_of_le (?r @ [b])), [])"
      using True MurmurHash2_loop_append4 [of "?r @ [b]" "m_hash c" "[]"] by simp
    ultimately show ?thesis
      using tl by (intro absorbedI [where r = "[]"]) (simp_all add: step)
  next
    case False
    with length_rest [of seed bs] have short: "length (?r @ [b]) < 4"
      by simp
    then have "unat (m_count ?c) < 4"
      unfolding cnt by (simp add: unat_of_nat_u32 del: of_nat_Suc)
    then have "m_count ?c \<noteq> 4"
      by auto
    then have "mix_byte c b = ?c"
      by (simp add: mix_byte_def)
    moreover have "MurmurHash2_loop (m_hash c) (?r @ [b]) = (m_hash c, ?r @ [b])"
      using short by (rule MurmurHash2_loop_short)
    ultimately show ?thesis
      using tl cnt by (intro absorbedI [where r = "?r @ [b]"]) (simp_all add: step)
  qed
qed

lemma m_size_mix_byte [simp]: "m_size (mix_byte c b) = m_size c"
  by (simp add: mix_byte_def Let_def)

lemma MixTail_absorbed:
  assumes "absorbed seed bs c"
  shows "\<exists>c' p q. MixTail c data = (c', q) \<and> data = p @ q \<and> absorbed seed (bs @ p) c'
           \<and> m_size c' = m_size c \<and> (q = [] \<or> rest seed (bs @ p) = [] \<and> 4 \<le> length q)"
  using assms
proof (induction c data arbitrary: bs rule: MixTail.induct)
  case (1 c)
  then show ?case by auto
next
  case (2 c b data)
  show ?case
  proof (cases "length (b # data) < 4 \<or> m_count c \<noteq> 0")
    case True
    from "2.IH" [OF True absorbed_byte [OF "2.prems"]]
    obtain c' p q where "MixTail (mix_byte c b) data = (c', q)" "data = p @ q"
      "absorbed seed ((bs @ [b]) @ p) c'" "m_size c' = m_size c"
      "q = [] \<or> rest seed ((bs @ [b]) @ p) = [] \<and> 4 \<le> length q"
      by auto
    with True show ?thesis
      by (intro exI [of _ c'] exI [of _ "b # p"] exI [of _ q]) auto
  next
    case False
    then have "rest seed bs = []"
      using absorbed_count [OF "2.prems"] by simp
    with False "2.prems" show ?thesis
      by (intro exI [of _ c] exI [of _ "[]"] exI [of _ "b # data"]) auto
  qed
qed

text \<open>The loop over whole words consumes a prefix whose length is a multiple of four.\<close>

lemma MurmurHash2_loop_split:
  "MurmurHash2_loop h0 data = (h, q) \<Longrightarrow> \<exists>p. data = p @ q \<and> MurmurHash2_loop h0 p = (h, [])"
proof (induction h0 data rule: MurmurHash2_loop.induct)
  case (1 h0 b0 b1 b2 b3 data)
  then obtain p where "data = p @ q"
    "MurmurHash2_loop (mmix h0 (word_of_le [b0, b1, b2, b3])) p = (h, [])"
    by auto
  then show ?case
    by (intro exI [of _ "b0 # b1 # b2 # b3 # p"]) simp
qed auto

lemma absorbed_words:
  assumes "absorbed seed bs c" "rest seed bs = []" "MurmurHash2_loop (m_hash c) p = (h, [])"
  shows "absorbed seed (bs @ p) (c\<lparr>m_hash := h\<rparr>)"
proof (rule absorbedI)
  show "MurmurHash2_loop seed (bs @ p) = (m_hash (c\<lparr>m_hash := h\<rparr>), [])"
    using assms MurmurHash2_loop_snoc [of seed bs "m_hash c" "[]" p] by (simp add: absorbed_def)
qed (use assms in \<open>simp_all add: absorbed_def\<close>)

lemma Add_absorbed:
  assumes "absorbed seed bs c"
  shows "absorbed seed (bs @ data) (Add c data) \<and> m_size (Add c data) = m_size c + of_nat (length data)"
proof -
  let ?c0 = "c\<lparr>m_size := m_size c + of_nat (length data)\<rparr>"
  have "absorbed seed bs ?c0"
    using assms by (simp add: absorbed_def)
  then obtain c1 p q where mt: "MixTail ?c0 data = (c1, q)" "data = p @ q"
    and ab: "absorbed seed (bs @ p) c1" and sz: "m_size c1 = m_size ?c0"
    and rest: "q = [] \<or> rest seed (bs @ p) = [] \<and> 4 \<le> length q"
    using MixTail_absorbed by blast
  obtain h q' where loop: "MurmurHash2_loop (m_hash c1) q = (h, q')"
    by fastforce
  let ?c2 = "c1\<lparr>m_hash := h\<rparr>"
  obtain p' where p': "q = p' @ q'" "MurmurHash2_loop (m_hash c1) p' = (h, [])"
    using MurmurHash2_loop_split [OF loop] by blast
  have ab2: "absorbed seed ((bs @ p) @ p') ?c2"
  proof (cases "q = []")
    case True
    with p' ab show ?thesis
      by (simp add: absorbed_def)
  next
    case False
    with rest ab p'(2) show ?thesis
      by (intro absorbed_words) simp_all
  qed
  have len: "length q' < 4"
    using MurmurHash2_loop_rest [of "m_hash c1" q] loop by simp
  obtain c3 p3 q3 where mt3: "MixTail ?c2 q' = (c3, q3)" "q' = p3 @ q3"
    "absorbed seed (((bs @ p) @ p') @ p3) c3" "m_size c3 = m_size ?c2"
    "q3 = [] \<or> rest seed (((bs @ p) @ p') @ p3) = [] \<and> 4 \<le> length q3"
    using MixTail_absorbed [OF ab2] by blast
  with len have "q3 = []"
    by auto
  moreover have "Add c data = c3"
    using mt loop mt3(1) by (simp add: Add_def Let_def)
  ultimately show ?thesis
    using mt3 p' mt(2) sz by simp
qed

text \<open>
  C14: feeding a key to the incremental hasher in any number of pieces of any sizes gives the
  hash of the whole key.
\<close>

theorem CMurmurHash2A_incremental:
  "fst (End (fold (\<lambda>d c. Add c d) pieces (Begin seed))) = MurmurHash2A (concat pieces) seed"
proof -
  have "absorbed seed (bs @ concat pieces) (fold (\<lambda>d c. Add c d) pieces c) \<and>
      m_size (fold (\<lambda>d c. Add c d) pieces c) = m_size c + of_nat (length (concat pieces))"
    if "absorbed seed bs c" for bs c
    using that
  proof (induction pieces arbitrary: bs c)
    case (Cons d pieces)
    then show ?case
      using Add_absorbed [OF Cons.prems, of d] Cons.IH [of "bs @ d" "Add c d"]
      by (simp add: add.assoc)
  qed simp
  moreover have "absorbed seed [] (Begin seed)"
    by (simp add: absorbed_def Begin_def rest_def)
  moreover define c where "c = fold (\<lambda>d c. Add c d) pieces (Begin seed)"
  ultimately have c: "absorbed seed (concat pieces) c" "m_size c = of_nat (length (concat pieces))"
    by (fastforce simp: Begin_def)+
  have "MurmurHash2A_tail (rest seed (concat pieces)) = word_of_le (rest seed (concat pieces))"
    using length_rest by (rule MurmurHash2A_tail_eq)
  then show ?thesis
    using c by (simp add: MurmurHash2A_def End_def absorbed_def Let_def flip: c_def)
qed

section \<open>The key hash does not lose short keys\<close>

text \<open>
  Every mixing step is invertible: the multiplier is odd and a shift by at least half the width
  is undone by applying it again.
\<close>

lemma mult_murmur_m_inject: "a * murmur_m = b * murmur_m \<longleftrightarrow> a = b"
proof
  assume "a * murmur_m = b * murmur_m"
  then have "a * (murmur_m * 3852147133) = b * (murmur_m * 3852147133)"
    by (simp add: mult.assoc [symmetric])
  moreover have "murmur_m * 3852147133 = 1"
    by (simp add: murmur_m_def)
  ultimately show "a = b"
    by simp
qed simp

lemma xor_cancel: "(a :: 'a::len word) XOR b = a XOR c \<longleftrightarrow> b = c"
  "(b :: 'a::len word) XOR a = c XOR a \<longleftrightarrow> b = c"
  by (metis xor.assoc xor_self_eq xor.left_neutral) (metis xor.assoc xor_self_eq xor.right_neutral)

lemma xorshift24_inject: "k XOR drop_bit 24 k = k' XOR drop_bit 24 k' \<longleftrightarrow> k = (k' :: u32)"
proof
  assume *: "k XOR drop_bit 24 k = k' XOR drop_bit 24 k'"
  have undo: "(x XOR drop_bit 24 x) XOR drop_bit 24 (x XOR drop_bit 24 x) = x" for x :: u32
    by (rule bit_word_eqI) (auto simp: bit_simps dest: bit_imp_le_length)
  from * undo show "k = k'"
    by metis
qed simp

lemma kmix_inject: "kmix k = kmix k' \<longleftrightarrow> k = k'"
  by (simp add: kmix_def Let_def mult_murmur_m_inject xorshift24_inject)

lemma mmix_inject: "mmix h k = mmix h k' \<longleftrightarrow> k = k'"
  by (simp add: mmix_def xor_cancel kmix_inject)

lemma concat32_inject:
  "push_bit 32 (ucast (a :: u32)) OR ucast b = (push_bit 32 (ucast c) OR ucast d :: u64) \<longleftrightarrow> a = c \<and> b = (d :: u32)"
  (is "?l = ?r \<longleftrightarrow> _")
proof
  assume eq: "?l = ?r"
  have "bit a k = bit c k" if "k < 32" for k
  proof -
    have "bit ?l (k + 32) = bit ?r (k + 32)"
      using eq by simp
    with that show ?thesis
      by (auto simp: bit_simps dest: bit_imp_le_length)
  qed
  moreover have "bit b k = bit d k" if "k < 32" for k
  proof -
    have "bit ?l k = bit ?r k"
      using eq by simp
    with that show ?thesis
      by (auto simp: bit_simps)
  qed
  ultimately show "a = c \<and> b = d"
    by (auto intro: bit_word_eqI)
qed simp

lemma MurmurHash64B_final_inject:
  "MurmurHash64B_final h1 h2 = MurmurHash64B_final h1' h2' \<longleftrightarrow> h1 = h1' \<and> h2 = h2'"
  unfolding MurmurHash64B_final_def Let_def concat32_inject
  by (metis mult_murmur_m_inject xor_cancel(2))

lemma word_of_le_inject:
  "8 * length bs \<le> LENGTH('a::len) \<Longrightarrow> length bs = length cs \<Longrightarrow>
   (word_of_le bs :: 'a word) = word_of_le cs \<longleftrightarrow> bs = cs"
  by (metis le_bytes_of_word)

lemma MurmurHash2_tail_inject:
  assumes "length bs < 4" "length bs = length cs"
  shows "MurmurHash2_tail h bs = MurmurHash2_tail h cs \<longleftrightarrow> bs = cs"
  using assms by (auto simp: MurmurHash2_tail_eq mult_murmur_m_inject xor_cancel word_of_le_inject)

lemma MurmurHash64B_loop_short:
  "length data < 8 \<Longrightarrow> MurmurHash64B_loop h1 h2 data = (h1, h2, data)"
  by (cases "(h1, h2, data)" rule: MurmurHash64B_loop.cases) simp_all

lemma MurmurHash64B_loop_8:
  "length data = 8 \<Longrightarrow> MurmurHash64B_loop h1 h2 data =
     (mmix h1 (word_of_le (take 4 data)), mmix h2 (word_of_le (drop 4 data)), [])"
  by (cases "(h1, h2, data)" rule: MurmurHash64B_loop.cases) simp_all

lemma Hash_inject_le8:
  assumes "length k = length k'" "length k \<le> 8"
  shows "Hash k = Hash k' \<longleftrightarrow> k = k'"
proof
  assume eq: "Hash k = Hash k'"
  consider "length k < 4" | "4 \<le> length k" "length k < 8" | "length k = 8"
    using assms(2) by linarith
  then show "k = k'"
  proof cases
    case 1
    with assms(1) eq show ?thesis
      by (simp add: Hash_def MurmurHash64B_def MurmurHash64B_loop_short
          MurmurHash64B_final_inject MurmurHash2_tail_inject)
  next
    case 2
    with assms(1) eq have "take 4 k = take 4 k'" "drop 4 k = drop 4 k'"
      by (simp_all add: Hash_def MurmurHash64B_def MurmurHash64B_loop_short
          MurmurHash64B_final_inject MurmurHash2_tail_inject mmix_inject word_of_le_inject)
    then show ?thesis
      by (metis append_take_drop_id)
  next
    case 3
    with assms(1) eq have "take 4 k = take 4 k'" "drop 4 k = drop 4 k'"
      by (simp_all add: Hash_def MurmurHash64B_def MurmurHash64B_loop_8
          MurmurHash64B_final_inject mmix_inject word_of_le_inject)
    then show ?thesis
      by (metis append_take_drop_id)
  qed
qed simp

text \<open>
  C16: two different keys of the same length, at most eight bytes long, never have the same
  64-bit key hash.
\<close>

theorem Hash_inject_short:
  assumes "length k = length k'" "length k \<le> 8"
  shows "Hash k = Hash k' \<longleftrightarrow> k = k'"
  by (rule Hash_inject_le8 [OF assms])

theorem Hash_inject_short_witness:
  "length [104, 105 :: u8] = length [104, 106 :: u8] \<and> length [104, 105 :: u8] \<le> 8
   \<and> Hash [104, 105] \<noteq> Hash [104, 106]"
  using Hash_inject_short [of "[104, 105]" "[104, 106]"] by auto

end
