(* ===== verification/Key_Value_Store.thy ===== *)
theory Key_Value_Store
  imports Tablet_Delete Wire Murmur
begin

text \<open>
  The store as its clients see it. The specification is a map from keys to values and what each
  request answers and leaves of it; the implementation is the chain from the client's request
  buffer through the worker and the tablet's memory to the client's response buffer. As long as
  the heap has the room a request needs, the implementation refines the specification.
\<close>

section \<open>The specification\<close>

type_synonym kv_request = "ReqType \<times> u8 list \<times> u8 list"

fun kv_step :: "(u8 list \<rightharpoonup> u8 list) \<Rightarrow> kv_request \<Rightarrow> (Status \<times> u8 list) \<times> (u8 list \<rightharpoonup> u8 list)" where
  "kv_step m (GET, k, v) = ((case m k of None \<Rightarrow> (ERROR, []) | Some x \<Rightarrow> (OK, x)), m)"
| "kv_step m (ADD, k, v) = (if m k = None then ((OK, []), m(k \<mapsto> v)) else ((ERROR, []), m))"
| "kv_step m (PUT, k, v) = ((OK, []), m(k \<mapsto> v))"
| "kv_step m (DEL, k, v) = (if m k = None then ((ERROR, []), m) else ((OK, []), m(k := None)))"

fun kv_run :: "(u8 list \<rightharpoonup> u8 list) \<Rightarrow> kv_request list \<Rightarrow> (Status \<times> u8 list) list \<times> (u8 list \<rightharpoonup> u8 list)" where
  "kv_run m [] = ([], m)"
| "kv_run m (q # qs) = (case kv_step m q of (a, m') \<Rightarrow> case kv_run m' qs of (as, m'') \<Rightarrow> (a # as, m''))"

section \<open>The contents of a tablet\<close>

text \<open>The client puts the hash of the key into the request, and the hash selects the bucket.\<close>

definition client_request :: "kv_request \<Rightarrow> Request" where
  "client_request q = (case q of (t, k, v) \<Rightarrow> Request_New t k v (Hash k))"

definition key_bucket :: "u8 list \<Rightarrow> nat" where
  "key_bucket k = unat (Hash k) mod kHashTableSize"

definition abs_table :: "table \<Rightarrow> u8 list \<rightharpoonup> u8 list" where
  "abs_table T k = lookup T (key_bucket k) k"

definition holds :: "Allocator \<Rightarrow> (u8 list \<rightharpoonup> u8 list) \<Rightarrow> bool" where
  "holds s m \<longleftrightarrow> (\<exists>B T. tablet_inv s B T \<and> abs_table T = m)"

lemma client_request_simps [simp]:
  assumes "length k + length v \<le> kMaxItemSize"
  shows "wf_request (client_request (t, k, v))" "req_type (client_request (t, k, v)) = t"
    "Key (client_request (t, k, v)) = k" "Val (client_request (t, k, v)) = v" "bucket_of (client_request (t, k, v)) = key_bucket k"
  using assms of_nat_u16 [of "length k"] of_nat_u16 [of "length v"]
  by (simp_all add: client_request_def Request_New_def wf_request_def Key_def Val_def bucket_of_def key_bucket_def)

lemma abs_updates: "updates T (key_bucket k) k ov T' \<Longrightarrow> abs_table T' = (abs_table T)(k := ov)"
  by (auto simp: abs_table_def updates_def fun_eq_iff)

lemma holds_updates: "tablet_inv s' B' T' \<Longrightarrow> updates T (key_bucket k) k ov T' \<Longrightarrow> holds s' ((abs_table T)(k := ov))"
  unfolding holds_def using abs_updates by blast

text \<open>The memory determines the contents.\<close>

lemma obj_unique:
  assumes "obj m (a, k, v, b)" "obj m (a, k', v', b')"
  shows "k = k' \<and> v = v'"
proof -
  have len: "n = n'" if "n < 2 ^ 16" "n' < 2 ^ 16" "(of_nat n :: u16) = of_nat n'" for n n' :: nat
    using arg_cong [OF that(3), of unat] that(1,2) by (simp add: unat_of_nat take_bit_nat_eq_self)
  have "length k = length k'" "length v = length v'"
    by (rule len; use assms in \<open>simp add: obj_def\<close>)+
  moreover have "k = read_bytes m (a + 16) (length k)" "k' = read_bytes m (a + 16) (length k')"
    "v = read_bytes m (a + 16 + length k) (length v)" "v' = read_bytes m (a + 16 + length k') (length v')"
    using assms by (simp_all add: obj_def)
  ultimately show ?thesis
    by metis
qed

lemma lseg_unique:
  assumes "lseg m p es 0" "lseg m p es' 0" "\<forall>e\<in>set es \<union> set es'. fst e \<noteq> 0"
  shows "map (\<lambda>(a, k, v, b). (k, v)) es = map (\<lambda>(a, k, v, b). (k, v)) es'"
  using assms
proof (induction es arbitrary: p es')
  case Nil
  then show ?case
    by (cases es') auto
next
  case (Cons e es)
  then obtain e' es'' where es': "es' = e' # es''"
    by (cases es') auto
  obtain a k v b a' k' v' b' where e: "e = (a, k, v, b)" "e' = (a', k', v', b')"
    by (cases e, cases e')
  have "a = a'" "k = k' \<and> v = v'"
    using Cons.prems(1,2) obj_unique [of m a k v b k' v' b'] by (auto simp: es' e)
  moreover have "map (\<lambda>(a, k, v, b). (k, v)) es = map (\<lambda>(a, k, v, b). (k, v)) es''"
    using Cons.prems calculation by (intro Cons.IH [of "ptr m a"]) (auto simp: es' e)
  ultimately show ?case
    by (simp add: es' e)
qed

lemma key_bucket_less: "key_bucket k < kHashTableSize"
  by (simp add: key_bucket_def kHashTableSize_def)

lemma contents_unique:
  assumes "tablet_inv s B T" "tablet_inv s B' T'"
  shows "abs_table T = abs_table T'"
proof
  fix k
  have "map (\<lambda>(a, k, v, b). (k, v)) (T (key_bucket k)) = map (\<lambda>(a, k, v, b). (k, v)) (T' (key_bucket k))"
  proof (rule lseg_unique)
    show "lseg (nvm_data s) (ptr (nvm_data s) (slot_addr (key_bucket k))) (T (key_bucket k)) 0"
      "lseg (nvm_data s) (ptr (nvm_data s) (slot_addr (key_bucket k))) (T' (key_bucket k)) 0"
      using assms key_bucket_less [of k] by (simp_all add: tablet_inv_def chained_def)
    show "\<forall>e\<in>set (T (key_bucket k)) \<union> set (T' (key_bucket k)). fst e \<noteq> 0"
      using assms key_bucket_less [of k] by (fastforce simp: tablet_inv_def wf_table_def placed_def)
  qed
  then show "abs_table T k = abs_table T' k"
    by (simp add: abs_table_def lookup_def contents_def)
qed

section \<open>One request\<close>

text \<open>
  What a request needs of the tablet: room for a new object, and for \<^verbatim>\<open>Del\<close> a bucket that is empty
  or has the key in front, since the loop of \<^verbatim>\<open>Del\<close> does not advance.
\<close>

definition possible :: "Allocator \<Rightarrow> table \<Rightarrow> Request \<Rightarrow> bool" where
  "possible s T r \<longleftrightarrow>
     (case req_type r of
        GET \<Rightarrow> True
      | ADD \<Rightarrow> lookup T (bucket_of r) (Key r) \<noteq> None \<or> served s r
      | PUT \<Rightarrow> put_possible s T r
      | DEL \<Rightarrow> T (bucket_of r) = [] \<or> (\<exists>a v post. T (bucket_of r) = (a, Key r, v, True) # post))"

lemma tablet_step:
  assumes inv: "tablet_inv s B T" and q: "length k + length v \<le> kMaxItemSize"
    and p: "possible (set_modifications s []) T (client_request (t, k, v))"
  shows "\<exists>st x s' m'. tablet_op s (client_request (t, k, v)) = Some (st, x, s') \<and> kv_step (abs_table T) (t, k, v) = ((st, x), m') \<and> holds s' m'"
proof -
  let ?r = "client_request (t, k, v)" and ?s = "set_modifications s []"
  note r = client_request_simps [OF q]
  have same: "holds ?s (abs_table T)"
    unfolding holds_def using inv by (intro exI [of _ B] exI [of _ T]) simp
  show ?thesis
  proof (cases t)
    case GET
    then show ?thesis
      using Get_spec [OF inv r(1) r(2), of "[]"] same by (auto simp: r tablet_op_def abs_table_def split: option.splits)
  next
    case ADD
    show ?thesis
    proof (cases "lookup T (key_bucket k) k")
      case None
      then obtain s' B' T' where "Tablet.Add s ?r [] = Some (OK, s')" "tablet_inv s' B' T'" "updates T (key_bucket k) k (Some v) T'"
        using Add_spec [OF inv r(1) r(2), of "[]"] p ADD by (auto simp: r possible_def)
      then show ?thesis
        using ADD None holds_updates by (auto simp: r tablet_op_def abs_table_def)
    next
      case (Some x)
      then show ?thesis
        using Add_spec [OF inv r(1) r(2), of "[]"] same ADD by (auto simp: r tablet_op_def abs_table_def)
    qed
  next
    case PUT
    then obtain s' B' T' where "Put s ?r [] = Some (OK, s')" "tablet_inv s' B' T'" "updates T (key_bucket k) k (Some v) T'"
      using Put_spec [OF inv r(1) r(2), of "[]"] p by (auto simp: r possible_def)
    then show ?thesis
      using PUT holds_updates by (auto simp: r tablet_op_def)
  next
    case DEL
    show ?thesis
    proof (cases "T (key_bucket k)")
      case Nil
      then show ?thesis
        using Del_spec [OF inv r(1) r(2), of "[]"] same DEL by (auto simp: r tablet_op_def abs_table_def lookup_def)
    next
      case (Cons e post)
      then obtain a x where T: "T (key_bucket k) = (a, k, x, True) # post"
        using p DEL by (auto simp: r possible_def)
      then obtain s' B' T' where "Del s ?r [] = Some (OK, s')" "tablet_inv s' B' T'" "updates T (key_bucket k) k None T'"
        using Del_spec [OF inv r(1) r(2), of "[]" a x post] DEL by (auto simp: r)
      then show ?thesis
        using DEL T holds_updates by (auto simp: r tablet_op_def abs_table_def lookup_def)
    qed
  qed
qed

section \<open>Runs\<close>

text \<open>Every request comes with the four buffers it passes through, whatever they hold.\<close>

type_synonym buffers = "u8 list \<times> u8 list \<times> u8 list \<times> u8 list"

fun buffers_ok :: "buffers \<Rightarrow> bool" where
  "buffers_ok (cs, sr, ss, cr) \<longleftrightarrow> length cs = Client_kSendBufSize \<and> length sr = kRecvBufSize \<and> length ss = kSendBufSize
     \<and> length cr = Client_kRecvBufSize"

fun item_size :: "kv_request \<Rightarrow> nat" where
  "item_size (t, k, v) = length k + length v"

fun rpc_run :: "network \<Rightarrow> Allocator \<Rightarrow> (kv_request \<times> buffers) list \<Rightarrow> (Response list \<times> Allocator) option" where
  "rpc_run net s [] = Some ([], s)"
| "rpc_run net s ((q, (cs, sr, ss, cr)) # qs) = do {
     (resp, s) \<leftarrow> rpc net s (client_request q) cs sr ss cr;
     (resps, s) \<leftarrow> rpc_run net s qs;
     Some (resp # resps, s)
   }"

fun possible_run :: "Allocator \<Rightarrow> kv_request list \<Rightarrow> bool" where
  "possible_run s [] \<longleftrightarrow> True"
| "possible_run s (q # qs) \<longleftrightarrow> (\<exists>B T. tablet_inv s B T \<and> possible (set_modifications s []) T (client_request q))
     \<and> (\<forall>st x s'. tablet_op s (client_request q) = Some (st, x, s') \<longrightarrow> possible_run s' qs)"

fun response :: "kv_request \<Rightarrow> Status \<times> u8 list \<Rightarrow> Response" where
  "response (t, k, v) (st, x) =
     \<lparr>resp_type = ReqType_byte t, resp_status = Status_byte st, resp_val_len = of_nat (length x), resp_val = x\<rparr>"

definition small_values :: "(u8 list \<rightharpoonup> u8 list) \<Rightarrow> bool" where
  "small_values m \<longleftrightarrow> (\<forall>k x. m k = Some x \<longrightarrow> length x \<le> kMaxItemSize)"

lemma kv_step_small: "small_values m \<Longrightarrow> item_size q \<le> kMaxItemSize \<Longrightarrow> kv_step m q = (a, m') \<Longrightarrow> small_values m' \<and> length (snd a) \<le> kMaxItemSize"
  by (cases "(m, q)" rule: kv_step.cases) (auto simp: small_values_def split: option.splits if_splits)

lemma rpc_step:
  assumes net: "delivers net" and "holds s m" "small_values m" "item_size q \<le> kMaxItemSize" "buffers_ok (cs, sr, ss, cr)" "possible_run s (q # qs)"
    "kv_step m q = (a, m')"
  shows "\<exists>s'. rpc net s (client_request q) cs sr ss cr = Some (response q a, s') \<and> holds s' m' \<and> possible_run s' qs"
proof -
  obtain t k v where q: "q = (t, k, v)"
    by (cases q)
  obtain B T where T: "tablet_inv s B T" "possible (set_modifications s []) T (client_request q)"
    using assms(6) by auto
  then have m: "abs_table T = m"
    using assms(2) contents_unique unfolding holds_def by blast
  have len: "length k + length v \<le> kMaxItemSize"
    using assms(4) by (simp add: q)
  obtain st x s' where op: "tablet_op s (client_request q) = Some (st, x, s')" "a = (st, x)" "holds s' m'"
    using tablet_step [OF T(1) len T(2) [unfolded q]] assms(7) by (auto simp: m q)
  have get: "length x' \<le> kMaxItemSize" if "Get s (client_request q) [] = Some (st', x', s'')" for st' x' s''
  proof (cases "t = GET")
    case True
    then show ?thesis
      using that op(1) kv_step_small [OF assms(3,4,7)] op(2) client_request_simps(2) [OF len, of t] by (simp add: tablet_op_def q)
  next
    case False
    then show ?thesis
      using that client_request_simps(2) [OF len, of t] by (simp add: Get_def Let_def ensure_def q)
  qed
  have "rpc net s (client_request q) cs sr ss cr = map_option (\<lambda>(st, x, s). (\<lparr>resp_type = ReqType_byte t, resp_status = Status_byte st,
      resp_val_len = of_nat (length x), resp_val = x\<rparr>, s)) (tablet_op s (client_request q))"
    by (rule rpc_eq [OF net _ len]) (use assms(5) get in \<open>auto simp: client_request_def q\<close>)
  then show ?thesis
    using op assms(6) by (simp add: q)
qed

text \<open>
  C1: The store implements a map from keys to values. Take a tablet that holds the map \<open>m\<close> and any
  sequence of requests of at most \<^verbatim>\<open>kMaxItemSize\<close> bytes whose needs are met when their turn comes (the
  allocator can serve what is stored, the footer of what is replaced or deleted is intact, and the
  key of a \<^verbatim>\<open>Del\<close> is the first of its bucket or the bucket is empty), over a network that loses no datagram that fits its buffer. Then every request reaches the worker, every response reaches the client, whatever the buffers
  held, the responses are those of the map, and in the end the tablet holds the resulting map.
\<close>

theorem store_refines_map:
  assumes "delivers net" "holds s m" "small_values m" "\<forall>(q, b)\<in>set qs. item_size q \<le> kMaxItemSize \<and> buffers_ok b" "possible_run s (map fst qs)"
  shows "\<exists>s'. rpc_run net s qs = Some (map2 response (map fst qs) (fst (kv_run m (map fst qs))), s')
    \<and> holds s' (snd (kv_run m (map fst qs)))"
  using assms(2-5)
proof (induction qs arbitrary: s m)
  case (Cons qb qs)
  obtain q cs sr ss cr where qb: "qb = (q, (cs, sr, ss, cr))"
    by (cases qb) auto
  obtain a m' where step: "kv_step m q = (a, m')"
    by fastforce
  have q: "item_size q \<le> kMaxItemSize" "buffers_ok (cs, sr, ss, cr)" "possible_run s (q # map fst qs)"
    using Cons.prems(3,4) by (auto simp: qb)
  obtain s' where s': "rpc net s (client_request q) cs sr ss cr = Some (response q a, s')" "holds s' m'" "possible_run s' (map fst qs)"
    using rpc_step [OF assms(1) Cons.prems(1,2) q step] by blast
  have "small_values m'"
    using kv_step_small [OF Cons.prems(2) q(1) step] by blast
  then obtain s'' where "rpc_run net s' qs = Some (map2 response (map fst qs) (fst (kv_run m' (map fst qs))), s'')"
    "holds s'' (snd (kv_run m' (map fst qs)))"
    using Cons.IH [OF s'(2) _ _ s'(3)] Cons.prems(3) by auto
  then show ?case
    using s'(1) step by (auto simp: qb split: prod.splits)
qed simp

text \<open>A key is added, read, and refused when it is added again.\<close>

definition sample_run :: "(kv_request \<times> buffers) list" where
  "sample_run = map (\<lambda>q. (q, (replicate 2176 1, replicate 2176 2, replicate 1152 3, replicate 1152 4)))
     [(ADD, [107], [9]), (GET, [107], []), (ADD, [107], [8])]"

lemma possible_run_Cons:
  assumes "tablet_inv s B T" "possible (set_modifications s []) T (client_request q)" "item_size q \<le> kMaxItemSize"
    and "\<And>s'. holds s' (snd (kv_step (abs_table T) q)) \<Longrightarrow> possible_run s' qs"
  shows "possible_run s (q # qs)"
proof -
  obtain t k v where q: "q = (t, k, v)"
    by (cases q)
  have "length k + length v \<le> kMaxItemSize"
    using assms(3) by (simp add: q)
  then obtain st x s' m' where "tablet_op s (client_request q) = Some (st, x, s')" "kv_step (abs_table T) q = ((st, x), m')" "holds s' m'"
    using tablet_step [OF assms(1) _ assms(2) [unfolded q]] q by metis
  then show ?thesis
    using assms(1,2,4) by auto
qed

lemma sample_possible: "possible_run fresh_tablet (map fst sample_run)"
proof -
  note r = client_request_simps [of "[107 :: u8]", simplified kMaxItemSize_def]
  have third: "possible_run s [(ADD, [107], [8])]" if s: "holds s [[107] \<mapsto> [9]]" for s
  proof -
    obtain B T where T: "tablet_inv s B T" "abs_table T = [[107] \<mapsto> [9]]"
      using s by (auto simp: holds_def)
    have "lookup T (key_bucket [107]) [107] = Some [9]"
      using fun_cong [OF T(2), of "[107]"] by (simp add: abs_table_def)
    then show ?thesis
      by (intro possible_run_Cons [OF T(1)]) (simp_all add: possible_def r kMaxItemSize_def)
  qed
  have second: "possible_run s [(GET, [107], []), (ADD, [107], [8])]" if s: "holds s [[107] \<mapsto> [9]]" for s
  proof -
    obtain B T where T: "tablet_inv s B T" "abs_table T = [[107] \<mapsto> [9]]"
      using s by (auto simp: holds_def)
    show ?thesis
      by (intro possible_run_Cons [OF T(1)]) (simp_all add: possible_def r kMaxItemSize_def T(2) third del: possible_run.simps)
  qed
  have "served (set_modifications fresh_tablet []) (client_request (ADD, [107], [9]))"
    by (rule fresh_served) (simp add: client_request_def Request_New_def object_size_unat)
  moreover have "abs_table (\<lambda>_. []) = Map.empty"
    by (simp add: abs_table_def lookup_def fun_eq_iff)
  ultimately have "possible_run fresh_tablet [(ADD, [107], [9]), (GET, [107], []), (ADD, [107], [8])]"
    by (intro possible_run_Cons [OF fresh_inv])
      (simp_all add: possible_def r kMaxItemSize_def second del: possible_run.simps)
  then show ?thesis
    by (simp add: sample_run_def comp_def del: possible_run.simps)
qed

theorem store_refines_map_witness:
  "\<exists>s'. rpc_run ud_deliver fresh_tablet sample_run = Some ([\<lparr>resp_type = 1, resp_status = 0, resp_val_len = 0, resp_val = []\<rparr>,
      \<lparr>resp_type = 2, resp_status = 0, resp_val_len = 1, resp_val = [9]\<rparr>,
      \<lparr>resp_type = 1, resp_status = 1, resp_val_len = 0, resp_val = []\<rparr>], s') \<and> holds s' [[107] \<mapsto> [9]]"
proof -
  have "holds fresh_tablet (\<lambda>_. None)"
    unfolding holds_def using fresh_inv by (intro exI conjI) (auto simp: abs_table_def lookup_def fun_eq_iff)
  then show ?thesis
    using store_refines_map [OF ud_deliver_delivers, of fresh_tablet "\<lambda>_. None" sample_run] sample_possible
    by (simp add: small_values_def sample_run_def kMaxItemSize_def Client_kSendBufSize_def kRecvBufSize_def kSendBufSize_def
        Client_kRecvBufSize_def ReqType_byte_def Status_byte_def)
qed

end
