(* ===== verification/Index_Manager.thy ===== *)
theory Index_Manager
  imports Programs Murmur
begin

text \<open>
  The cluster index of \<^verbatim>\<open>src/index.h\<close>, \<^verbatim>\<open>src/index.cc\<close> and the structures of
  \<^verbatim>\<open>src/message.h\<close> it is made of: which server holds which tablet, which tablets back up which,
  and which tablet a key hash belongs to.

  The cluster configuration of \<^verbatim>\<open>src/common.h\<close>, marked as configurable there, is a record, so
  that the wiring is proved for every configuration with fewer replicas than servers;
  \<open>nvds_config\<close> holds the values of the source. Identifiers, \<^verbatim>\<open>uint32_t\<close> in
  the source, are natural numbers: for the configured sizes no 32-bit product wraps. An access outside an array is \<^const>\<open>None\<close>.
\<close>

section \<open>The configuration and the data\<close>

record Config =
  kNumReplicas :: nat
  kNumServers :: nat
  kNumTabletsPerServer :: nat

definition nvds_config :: Config where
  "nvds_config = \<lparr>kNumReplicas = 1, kNumServers = 2, kNumTabletsPerServer = 1\<rparr>"

definition kNumTabletAndBackupsPerServer :: "Config \<Rightarrow> nat" where
  "kNumTabletAndBackupsPerServer cfg = kNumTabletsPerServer cfg * (1 + kNumReplicas cfg)"

definition kNumTablets :: "Config \<Rightarrow> nat" where
  "kNumTablets cfg = kNumTabletsPerServer cfg * kNumServers cfg"

definition kNumTabletAndBackups :: "Config \<Rightarrow> nat" where
  "kNumTabletAndBackups cfg = kNumTabletAndBackupsPerServer cfg * kNumServers cfg"

record QueuePairInfo =
  qpi_lid :: u16
  qpi_qpn :: u32
  qpi_psn :: u32
  qpi_rkey :: u32
  qpi_vaddr :: u64

record Address =
  ib_port :: int
  addr_lid :: u16
  addr_qpn :: u32

text \<open>
  The union of \<^verbatim>\<open>master\<close> and \<^verbatim>\<open>backups\<close> is one array of identifiers; \<^verbatim>\<open>master\<close> is its first
  element.
\<close>

record TabletInfo =
  tablet_id :: nat
  server_id :: nat
  is_backup :: bool
  qpis :: "QueuePairInfo list"
  backups :: "nat list"

definition master :: "TabletInfo \<Rightarrow> nat" where
  "master t = backups t ! 0"

record ServerInfo =
  info_id :: nat
  active :: bool
  addr :: string
  ib_addr :: Address
  tablets :: "nat list"

record IndexManager =
  key_tablet_map :: "nat list"
  im_tablets :: "TabletInfo list"
  im_servers :: "ServerInfo list"

section \<open>Adding a server\<close>

definition CalcTabletId :: "Config \<Rightarrow> nat \<Rightarrow> nat \<Rightarrow> nat \<Rightarrow> nat" where
  "CalcTabletId cfg s_idx r_idx t_idx =
     s_idx * kNumTabletAndBackupsPerServer cfg + r_idx * kNumTabletsPerServer cfg + t_idx"

definition set_backup :: "TabletInfo list \<Rightarrow> nat \<Rightarrow> nat \<Rightarrow> nat \<Rightarrow> TabletInfo list option" where
  "set_backup ts t j v = do {
     ti \<leftarrow> array_get ts t;
     bs \<leftarrow> array_upd (backups ti) j (\<lambda>_. v);
     array_upd ts t (\<lambda>ti. ti\<lparr>backups := bs\<rparr>)
   }"

definition AddServer_tablet :: "Config \<Rightarrow> nat \<Rightarrow> QueuePairInfo list \<Rightarrow> nat \<Rightarrow> nat \<Rightarrow> IndexManager \<Rightarrow> IndexManager option" where
  "AddServer_tablet cfg i qs j k im = do {
     let tid = CalcTabletId cfg i j k;
     let tidx = CalcTabletId cfg 0 j k;
     ts \<leftarrow> array_upd (im_tablets im) tid (\<lambda>t. t\<lparr>tablet_id := tid, server_id := i, is_backup := 0 < j\<rparr>);
     q \<leftarrow> array_slice qs (tidx * kNumReplicas cfg) (kNumReplicas cfg);
     ts \<leftarrow> array_upd ts tid (\<lambda>t. t\<lparr>qpis := q\<rparr>);
     ti \<leftarrow> array_get ts tid;
     im \<leftarrow> (if \<not> is_backup ti
       then do {
         m \<leftarrow> array_upd (key_tablet_map im) (CalcTabletId cfg 0 i k) (\<lambda>_. tid);
         Some (im\<lparr>key_tablet_map := m, im_tablets := ts\<rparr>) }
       else do {
         let master_id = CalcTabletId cfg ((kNumServers cfg + i - j) mod kNumServers cfg) 0 k;
         _ \<leftarrow> (if tid \<noteq> 0 then Some () else None);
         ts \<leftarrow> set_backup ts master_id (j - 1) tid;
         ts \<leftarrow> set_backup ts tid 0 master_id;
         Some (im\<lparr>im_tablets := ts\<rparr>) });
     si \<leftarrow> array_get (im_servers im) i;
     st \<leftarrow> array_upd (tablets si) tidx (\<lambda>_. tid);
     ss \<leftarrow> array_upd (im_servers im) i (\<lambda>si. si\<lparr>tablets := st\<rparr>);
     Some (im\<lparr>im_servers := ss\<rparr>)
   }"

text \<open>
  The body of the request is passed as the two fields the code takes from it. The static
  counter of \<^verbatim>\<open>AllocServerId\<close> is passed in and returned incremented.
\<close>

definition AllocServerId :: "nat \<Rightarrow> nat \<times> nat" where
  "AllocServerId next_id = (next_id, next_id + 1)"

definition AddServer :: "Config \<Rightarrow> nat \<Rightarrow> string \<Rightarrow> Address \<Rightarrow> QueuePairInfo list \<Rightarrow> IndexManager \<Rightarrow> (ServerInfo \<times> nat \<times> IndexManager) option" where
  "AddServer cfg next_id a ia qs im = do {
     let (i, next_id) = AllocServerId next_id;
     ss \<leftarrow> array_upd (im_servers im) i (\<lambda>_. \<lparr>info_id = i, active = True, addr = a, ib_addr = ia,
              tablets = replicate (kNumTabletAndBackupsPerServer cfg) 0\<rparr>);
     im \<leftarrow> for_loop 0 (kNumReplicas cfg + 1) (\<lambda>j.
              for_loop 0 (kNumTabletsPerServer cfg) (\<lambda>k. AddServer_tablet cfg i qs j k))
            (im\<lparr>im_servers := ss\<rparr>);
     si \<leftarrow> array_get (im_servers im) i;
     Some (si, next_id, im)
   }"

section \<open>Looking up a key hash\<close>

text \<open>
  \<^verbatim>\<open>key_hash / ((1.0 + kMaxKeyHash) / key_tablet_map_.size())\<close> is computed in double precision:
  \<^verbatim>\<open>1.0 + kMaxKeyHash\<close> is \<open>2 ^ 64\<close>, the key hash is rounded to 53 significant bits, half to even,
  and with the two tablets of \<open>nvds_config\<close> both divisions are by powers of two and exact.
\<close>

fun excess_bits :: "nat \<Rightarrow> nat" where
  "excess_bits h = (if h < 2 ^ 53 then 0 else Suc (excess_bits (h div 2)))"

declare excess_bits.simps [simp del]

definition to_double :: "nat \<Rightarrow> nat" where
  "to_double h =
     (let e = excess_bits h; q = h div 2 ^ e; r = h mod 2 ^ e
      in (if 2 ^ e < 2 * r \<or> 2 ^ e = 2 * r \<and> odd q then q + 1 else q) * 2 ^ e)"

definition GetTabletId :: "IndexManager \<Rightarrow> u64 \<Rightarrow> nat option" where
  "GetTabletId im key_hash =
     array_get (key_tablet_map im) (to_double (unat key_hash) div (2 ^ 64 div kNumTablets nvds_config))"

definition GetTablet :: "IndexManager \<Rightarrow> nat \<Rightarrow> TabletInfo option" where
  "GetTablet im t = array_get (im_tablets im) t"

definition GetTabletByHash :: "IndexManager \<Rightarrow> u64 \<Rightarrow> TabletInfo option" where
  "GetTabletByHash im key_hash = GetTabletId im key_hash \<bind> GetTablet im"

definition GetServerId :: "IndexManager \<Rightarrow> u64 \<Rightarrow> nat option" where
  "GetServerId im key_hash = map_option server_id (GetTabletByHash im key_hash)"

definition GetServer :: "IndexManager \<Rightarrow> nat \<Rightarrow> ServerInfo option" where
  "GetServer im i = array_get (im_servers im) i"

definition GetServerByHash :: "IndexManager \<Rightarrow> u64 \<Rightarrow> ServerInfo option" where
  "GetServerByHash im key_hash = do {
     i \<leftarrow> GetServerId im key_hash;
     si \<leftarrow> GetServer im i;
     if info_id si = i then Some si else None
   }"

section \<open>Tablet identifiers\<close>

lemma seat_less:
  assumes "j \<le> kNumReplicas cfg" "k < kNumTabletsPerServer cfg"
  shows "j * kNumTabletsPerServer cfg + k < kNumTabletAndBackupsPerServer cfg"
  using add_less_le_mono [OF assms(2) mult_le_mono1 [OF assms(1), of "kNumTabletsPerServer cfg"]]
  by (simp add: kNumTabletAndBackupsPerServer_def algebra_simps)

lemma CalcTabletId_local:
  assumes "j \<le> kNumReplicas cfg" "k < kNumTabletsPerServer cfg"
  shows "CalcTabletId cfg 0 j k < kNumTabletAndBackupsPerServer cfg"
  using seat_less [OF assms] by (simp add: CalcTabletId_def)

lemma CalcTabletId_split:
  assumes "j \<le> kNumReplicas cfg" "k < kNumTabletsPerServer cfg"
  shows "CalcTabletId cfg i j k div kNumTabletAndBackupsPerServer cfg = i"
    and "CalcTabletId cfg i j k mod kNumTabletAndBackupsPerServer cfg = CalcTabletId cfg 0 j k"
  using seat_less [OF assms] by (simp_all add: CalcTabletId_def add.assoc)

lemma CalcTabletId_less:
  assumes "i < kNumServers cfg" "j \<le> kNumReplicas cfg" "k < kNumTabletsPerServer cfg"
  shows "CalcTabletId cfg i j k < kNumTabletAndBackups cfg"
proof -
  let ?N = "kNumTabletAndBackupsPerServer cfg"
  have "i * ?N + ?N \<le> kNumServers cfg * ?N"
    using assms(1) mult_le_mono1 [of "Suc i" "kNumServers cfg" ?N] by simp
  then show ?thesis
    using seat_less [OF assms(2,3)]
    by (simp add: CalcTabletId_def kNumTabletAndBackups_def mult.commute)
qed

lemma CalcTabletId_inject:
  assumes "j \<le> kNumReplicas cfg" "k < kNumTabletsPerServer cfg"
    "j' \<le> kNumReplicas cfg" "k' < kNumTabletsPerServer cfg"
  shows "CalcTabletId cfg i j k = CalcTabletId cfg i' j' k' \<longleftrightarrow> i = i' \<and> j = j' \<and> k = k'"
proof
  let ?T = "kNumTabletsPerServer cfg"
  assume eq: "CalcTabletId cfg i j k = CalcTabletId cfg i' j' k'"
  have i: "i = i'"
    using eq CalcTabletId_split(1) [OF assms(1,2), of i] CalcTabletId_split(1) [OF assms(3,4), of i']
    by simp
  have "CalcTabletId cfg 0 j k = CalcTabletId cfg 0 j' k'"
    using eq CalcTabletId_split(2) [OF assms(1,2), of i] CalcTabletId_split(2) [OF assms(3,4), of i']
    by simp
  then have jk: "j * ?T + k = j' * ?T + k'"
    by (simp add: CalcTabletId_def)
  have "(j * ?T + k) div ?T = j" "(j' * ?T + k') div ?T = j'"
    using assms(2,4) by simp_all
  with jk have "j = j'"
    by simp
  with i jk show "i = i' \<and> j = j' \<and> k = k'"
    by simp
qed simp

text \<open>The slot of a master tablet in the key map.\<close>

lemma key_slot_less:
  assumes "i < kNumServers cfg" "k < kNumTabletsPerServer cfg"
  shows "CalcTabletId cfg 0 i k < kNumTablets cfg"
proof -
  have "i * kNumTabletsPerServer cfg + kNumTabletsPerServer cfg \<le> kNumServers cfg * kNumTabletsPerServer cfg"
    using assms(1) mult_le_mono1 [of "Suc i" "kNumServers cfg" "kNumTabletsPerServer cfg"] by simp
  with assms(2) show ?thesis
    by (simp add: CalcTabletId_def kNumTablets_def mult.commute)
qed

lemma key_slot_inject:
  assumes "k < kNumTabletsPerServer cfg" "k' < kNumTabletsPerServer cfg"
  shows "CalcTabletId cfg 0 i k = CalcTabletId cfg 0 i' k' \<longleftrightarrow> i = i' \<and> k = k'"
proof
  let ?T = "kNumTabletsPerServer cfg"
  assume "CalcTabletId cfg 0 i k = CalcTabletId cfg 0 i' k'"
  then have ik: "i * ?T + k = i' * ?T + k'"
    by (simp add: CalcTabletId_def)
  have "(i * ?T + k) div ?T = i" "(i' * ?T + k') div ?T = i'"
    using assms by simp_all
  with ik show "i = i' \<and> k = k'"
    by simp
qed simp

section \<open>The wiring invariant\<close>

text \<open>The server whose tablets server \<open>i\<close> holds the \<open>j\<close>-th backups of.\<close>

definition master_server :: "Config \<Rightarrow> nat \<Rightarrow> nat \<Rightarrow> nat" where
  "master_server cfg i j = (kNumServers cfg + i - j) mod kNumServers cfg"

definition wf_config :: "Config \<Rightarrow> bool" where
  "wf_config cfg \<longleftrightarrow> 0 < kNumReplicas cfg \<and> kNumReplicas cfg < kNumServers cfg \<and> 0 < kNumTabletsPerServer cfg"

definition wf_index :: "Config \<Rightarrow> IndexManager \<Rightarrow> bool" where
  "wf_index cfg im \<longleftrightarrow>
     length (key_tablet_map im) = kNumTablets cfg
     \<and> length (im_tablets im) = kNumTabletAndBackups cfg
     \<and> length (im_servers im) = kNumServers cfg
     \<and> (\<forall>ti\<in>set (im_tablets im). length (backups ti) = kNumReplicas cfg)"

text \<open>What the index says about the tablet in seat \<open>(j, k)\<close> of server \<open>i\<close>.\<close>

definition seated :: "Config \<Rightarrow> IndexManager \<Rightarrow> QueuePairInfo list \<Rightarrow> nat \<Rightarrow> nat \<Rightarrow> nat \<Rightarrow> bool" where
  "seated cfg im qs i j k \<longleftrightarrow>
     (let t = CalcTabletId cfg i j k; ti = im_tablets im ! t;
          m = CalcTabletId cfg (master_server cfg i j) 0 k
      in tablet_id ti = t \<and> server_id ti = i \<and> is_backup ti = (0 < j)
       \<and> qpis ti = take (kNumReplicas cfg) (drop (CalcTabletId cfg 0 j k * kNumReplicas cfg) qs)
       \<and> tablets (im_servers im ! i) ! CalcTabletId cfg 0 j k = t
       \<and> (j = 0 \<longrightarrow> key_tablet_map im ! CalcTabletId cfg 0 i k = t)
       \<and> (0 < j \<longrightarrow> master ti = m \<and> backups (im_tablets im ! m) ! (j - 1) = t))"

lemma master_server_less: "i < kNumServers cfg \<Longrightarrow> master_server cfg i j < kNumServers cfg"
  by (simp add: master_server_def)

lemma master_server_inject:
  assumes "i < kNumServers cfg" "i' < kNumServers cfg" "j < kNumServers cfg"
  shows "master_server cfg i j = master_server cfg i' j \<longleftrightarrow> i = i'"
proof -
  have "master_server cfg x j = (if j \<le> x then x - j else kNumServers cfg + x - j)"
    if "x < kNumServers cfg" for x
    using that assms(3) by (auto simp: master_server_def mod_if)
  then show ?thesis
    using assms by auto
qed

text \<open>What one round of the loops writes.\<close>

definition seat_tablet :: "Config \<Rightarrow> QueuePairInfo list \<Rightarrow> nat \<Rightarrow> nat \<Rightarrow> nat \<Rightarrow> TabletInfo \<Rightarrow> TabletInfo" where
  "seat_tablet cfg qs i j k ti = ti\<lparr>tablet_id := CalcTabletId cfg i j k, server_id := i, is_backup := 0 < j,
     qpis := take (kNumReplicas cfg) (drop (CalcTabletId cfg 0 j k * kNumReplicas cfg) qs)\<rparr>"

definition seat_backup :: "nat \<Rightarrow> nat \<Rightarrow> TabletInfo \<Rightarrow> TabletInfo" where
  "seat_backup j v ti = ti\<lparr>backups := (backups ti)[j := v]\<rparr>"

definition seat_tablets :: "Config \<Rightarrow> QueuePairInfo list \<Rightarrow> nat \<Rightarrow> nat \<Rightarrow> nat \<Rightarrow> TabletInfo list \<Rightarrow> TabletInfo list" where
  "seat_tablets cfg qs i j k ts =
     (let t = CalcTabletId cfg i j k; m = CalcTabletId cfg (master_server cfg i j) 0 k;
          ts = ts[t := seat_tablet cfg qs i j k (ts ! t)]
      in if j = 0 then ts
         else (ts[m := seat_backup (j - 1) t (ts ! m)])[t := seat_backup 0 m (ts ! t)])"

definition seat_index :: "Config \<Rightarrow> QueuePairInfo list \<Rightarrow> nat \<Rightarrow> nat \<Rightarrow> nat \<Rightarrow> IndexManager \<Rightarrow> IndexManager" where
  "seat_index cfg qs i j k im =
     (let t = CalcTabletId cfg i j k; si = im_servers im ! i
      in im\<lparr>im_tablets := seat_tablets cfg qs i j k (im_tablets im),
            key_tablet_map := (if j = 0 then (key_tablet_map im)[CalcTabletId cfg 0 i k := t] else key_tablet_map im),
            im_servers := (im_servers im)[i := si\<lparr>tablets := (tablets si)[CalcTabletId cfg 0 j k := t]\<rparr>]\<rparr>)"

lemma set_backup_Some:
  "t < length ts \<Longrightarrow> j < length (backups (ts ! t)) \<Longrightarrow> set_backup ts t j v = Some (ts[t := seat_backup j v (ts ! t)])"
  by (simp add: set_backup_def seat_backup_def)

lemma AddServer_tablet_exec:
  assumes wc: "wf_config cfg" and wf: "wf_index cfg im" and i: "i < kNumServers cfg"
    and j: "j \<le> kNumReplicas cfg" and k: "k < kNumTabletsPerServer cfg"
    and qs: "kNumTabletAndBackupsPerServer cfg * kNumReplicas cfg \<le> length qs"
    and st: "length (tablets (im_servers im ! i)) = kNumTabletAndBackupsPerServer cfg"
  shows "AddServer_tablet cfg i qs j k im = Some (seat_index cfg qs i j k im)"
proof -
  let ?t = "CalcTabletId cfg i j k" and ?ti = "CalcTabletId cfg 0 j k"
  let ?m = "CalcTabletId cfg (master_server cfg i j) 0 k" and ?R = "kNumReplicas cfg"
  have len: "length (im_tablets im) = kNumTabletAndBackups cfg" "length (key_tablet_map im) = kNumTablets cfg"
      "length (im_servers im) = kNumServers cfg"
    and bk: "\<And>x. x < kNumTabletAndBackups cfg \<Longrightarrow> length (backups (im_tablets im ! x)) = ?R"
    using wf by (auto simp: wf_index_def)
  have t: "?t < kNumTabletAndBackups cfg" and ti: "?ti < kNumTabletAndBackupsPerServer cfg"
    and m: "?m < kNumTabletAndBackups cfg" and s: "CalcTabletId cfg 0 i k < kNumTablets cfg"
    using CalcTabletId_less [OF i j k] CalcTabletId_local [OF j k] key_slot_less [OF i k]
      CalcTabletId_less [OF master_server_less [OF i] _ k, of 0] by simp_all
  have q: "array_slice qs (?ti * ?R) ?R = Some (take ?R (drop (?ti * ?R) qs))"
    using mult_le_mono1 [of "Suc ?ti" "kNumTabletAndBackupsPerServer cfg" ?R] ti
    by (intro array_slice_Some) (use qs in simp)
  show ?thesis
  proof (cases "j = 0")
    case True
    then show ?thesis
      using t ti s q i st len
      by (simp add: AddServer_tablet_def seat_index_def seat_tablets_def seat_tablet_def Let_def)
  next
    case False
    then have "?t \<noteq> 0" "?m \<noteq> ?t"
      using k CalcTabletId_inject [of j cfg k 0 k i "master_server cfg i j"] j
      by (auto simp: CalcTabletId_def)
    moreover have "(kNumServers cfg + i - j) mod kNumServers cfg = master_server cfg i j"
      by (simp add: master_server_def)
    moreover have "j - 1 < ?R" "0 < ?R"
      using False j by auto
    ultimately show ?thesis
      using False t ti s q i st len m bk
      by (simp add: AddServer_tablet_def seat_index_def seat_tablets_def seat_tablet_def Let_def set_backup_Some)
  qed
qed

text \<open>Reading the tablets after one round.\<close>

lemma nth_seat_tablets:
  assumes "length ts = kNumTabletAndBackups cfg" "i < kNumServers cfg" "j \<le> kNumReplicas cfg" "k < kNumTabletsPerServer cfg"
    and x: "x < kNumTabletAndBackups cfg"
  shows "seat_tablets cfg qs i j k ts ! x =
    (if x = CalcTabletId cfg i j k
     then (if j = 0 then id else seat_backup 0 (CalcTabletId cfg (master_server cfg i j) 0 k))
            (seat_tablet cfg qs i j k (ts ! x))
     else if 0 < j \<and> x = CalcTabletId cfg (master_server cfg i j) 0 k
     then seat_backup (j - 1) (CalcTabletId cfg i j k) (ts ! x)
     else ts ! x)"
  using assms CalcTabletId_less [OF assms(2-4)]
  by (auto simp: seat_tablets_def Let_def nth_list_update)

lemma seat_fields [simp]:
  "backups (seat_tablet cfg qs i j k ti) = backups ti"
  "tablet_id (seat_backup b v ti) = tablet_id ti" "server_id (seat_backup b v ti) = server_id ti"
  "is_backup (seat_backup b v ti) = is_backup ti" "qpis (seat_backup b v ti) = qpis ti"
  "backups (seat_backup b v ti) = (backups ti)[b := v]"
  by (simp_all add: seat_tablet_def seat_backup_def)

lemma wf_index_seat:
  assumes "wf_index cfg im" "i < kNumServers cfg" "j \<le> kNumReplicas cfg" "k < kNumTabletsPerServer cfg"
  shows "wf_index cfg (seat_index cfg qs i j k im)"
proof -
  have len: "length (im_tablets im) = kNumTabletAndBackups cfg"
    and bk: "\<And>x. x < kNumTabletAndBackups cfg \<Longrightarrow> length (backups (im_tablets im ! x)) = kNumReplicas cfg"
    using assms(1) by (auto simp: wf_index_def)
  have "length (backups (seat_tablets cfg qs i j k (im_tablets im) ! x)) = kNumReplicas cfg"
    if "x < kNumTabletAndBackups cfg" for x
    using bk [OF that] by (auto simp: nth_seat_tablets [OF len assms(2-4) that])
  moreover have "length (seat_tablets cfg qs i j k (im_tablets im)) = kNumTabletAndBackups cfg"
    using len by (simp add: seat_tablets_def Let_def)
  ultimately show ?thesis
    using assms(1) by (auto simp: wf_index_def seat_index_def Let_def in_set_conv_nth)
qed

lemma seated_seat:
  assumes "wf_index cfg im" "i < kNumServers cfg" "j \<le> kNumReplicas cfg" "k < kNumTabletsPerServer cfg"
    and st: "length (tablets (im_servers im ! i)) = kNumTabletAndBackupsPerServer cfg"
  shows "seated cfg (seat_index cfg qs i j k im) qs i j k"
proof -
  let ?t = "CalcTabletId cfg i j k" and ?m = "CalcTabletId cfg (master_server cfg i j) 0 k"
  have len: "length (im_tablets im) = kNumTabletAndBackups cfg" "length (key_tablet_map im) = kNumTablets cfg"
      "length (im_servers im) = kNumServers cfg"
    and bk: "\<And>x. x < kNumTabletAndBackups cfg \<Longrightarrow> length (backups (im_tablets im ! x)) = kNumReplicas cfg"
    using assms(1) by (auto simp: wf_index_def)
  have t: "?t < kNumTabletAndBackups cfg" and ti: "CalcTabletId cfg 0 j k < kNumTabletAndBackupsPerServer cfg"
    and m: "?m < kNumTabletAndBackups cfg" and s: "CalcTabletId cfg 0 i k < kNumTablets cfg"
    using CalcTabletId_less [OF assms(2-4)] CalcTabletId_local [OF assms(3,4)] key_slot_less [OF assms(2,4)]
      CalcTabletId_less [OF master_server_less [OF assms(2)] _ assms(4), of 0] by simp_all
  have ne: "?m \<noteq> ?t" if "0 < j"
    using that assms(3,4) by (simp add: CalcTabletId_inject)
  note nth = nth_seat_tablets [OF len(1) assms(2-4)]
  show ?thesis
    using t ti m s ne bk [OF t] bk [OF m] assms(2,3) len st
    by (auto simp: seated_def seat_index_def Let_def nth master_def seat_tablet_def)
qed

lemma seated_frame:
  assumes "wf_config cfg" "wf_index cfg im" "i < kNumServers cfg" "j \<le> kNumReplicas cfg" "k < kNumTabletsPerServer cfg"
    and i': "i' < kNumServers cfg" "j' \<le> kNumReplicas cfg" "k' < kNumTabletsPerServer cfg"
    and ne: "(i', j', k') \<noteq> (i, j, k)" and old: "seated cfg im qs' i' j' k'"
  shows "seated cfg (seat_index cfg qs i j k im) qs' i' j' k'"
proof -
  let ?t = "CalcTabletId cfg i j k" and ?m = "CalcTabletId cfg (master_server cfg i j) 0 k"
  let ?t' = "CalcTabletId cfg i' j' k'" and ?m' = "CalcTabletId cfg (master_server cfg i' j') 0 k'"
  have len: "length (im_tablets im) = kNumTabletAndBackups cfg" "length (key_tablet_map im) = kNumTablets cfg"
      "length (im_servers im) = kNumServers cfg"
    and bk: "\<And>x. x < kNumTabletAndBackups cfg \<Longrightarrow> length (backups (im_tablets im ! x)) = kNumReplicas cfg"
    using assms(2) by (auto simp: wf_index_def)
  have t': "?t' < kNumTabletAndBackups cfg" and m': "?m' < kNumTabletAndBackups cfg"
    using CalcTabletId_less [OF i'] CalcTabletId_less [OF master_server_less [OF i'(1)] _ i'(3), of 0] by simp_all
  have tt: "?t' \<noteq> ?t"
    using ne assms i' by (simp add: CalcTabletId_inject)
  have tm: "?t' = ?m \<Longrightarrow> j' = 0" "?m' = ?t \<Longrightarrow> j = 0"
    using assms i' by (simp_all add: CalcTabletId_inject)
  have jS: "j < kNumServers cfg"
    using assms(1,4) by (simp add: wf_config_def)
  have mm: "j' \<noteq> j" if "?m' = ?m" "0 < j'"
    using that ne assms(3-5) i' jS by (auto simp: CalcTabletId_inject master_server_inject)
  have key: "CalcTabletId cfg 0 i k \<noteq> CalcTabletId cfg 0 i' k'" if "j = 0" "j' = 0"
    using that ne assms(5) i'(3) by (auto simp: key_slot_inject)
  have seat: "CalcTabletId cfg 0 j k \<noteq> CalcTabletId cfg 0 j' k'" if "i = i'"
    using that ne assms(4,5) i'(2,3) by (auto simp: CalcTabletId_inject)
  note nth = nth_seat_tablets [OF len(1) assms(3-5)]
  have T': "seat_tablets cfg qs i j k (im_tablets im) ! ?t' =
      (if 0 < j \<and> ?t' = ?m then seat_backup (j - 1) ?t (im_tablets im ! ?t') else im_tablets im ! ?t')"
    using tt by (simp add: nth [OF t'])
  have M': "backups (seat_tablets cfg qs i j k (im_tablets im) ! ?m') ! (j' - 1) = backups (im_tablets im ! ?m') ! (j' - 1)"
    if "0 < j'"
    using mm [OF _ that] tm(2) that by (auto simp: nth [OF m'])
  show ?thesis
    using old T' M' tm(1) key seat len assms(3) i'(1)
    by (auto simp: seated_def seat_index_def Let_def master_def nth_list_update)
qed

section \<open>Adding a server keeps the wiring\<close>

text \<open>
  The servers \<open>0, \<dots>, length Q - 1\<close> have joined, server \<open>i\<close> with the queue pairs \<open>Q ! i\<close>, the
  address \<open>fst (A ! i)\<close> and the Infiniband address \<open>snd (A ! i)\<close>.
\<close>

definition server_known :: "Config \<Rightarrow> IndexManager \<Rightarrow> (string \<times> Address) \<Rightarrow> nat \<Rightarrow> bool" where
  "server_known cfg im a i \<longleftrightarrow>
     (let si = im_servers im ! i in info_id si = i \<and> active si \<and> addr si = fst a \<and> ib_addr si = snd a
        \<and> length (tablets si) = kNumTabletAndBackupsPerServer cfg)"

definition seats :: "Config \<Rightarrow> (nat \<times> nat) set" where
  "seats cfg = {0..kNumReplicas cfg} \<times> {0..<kNumTabletsPerServer cfg}"

definition joined :: "Config \<Rightarrow> QueuePairInfo list list \<Rightarrow> (string \<times> Address) list \<Rightarrow> IndexManager \<Rightarrow> bool" where
  "joined cfg Q A im \<longleftrightarrow> wf_index cfg im \<and> length A = length Q \<and> length Q \<le> kNumServers cfg
     \<and> (\<forall>i<length Q. server_known cfg im (A ! i) i \<and> (\<forall>(j, k)\<in>seats cfg. seated cfg im (Q ! i) i j k))"

text \<open>In the middle of the loops for server \<open>n\<close>, the seats in \<open>D\<close> have been filled.\<close>

definition joining :: "Config \<Rightarrow> QueuePairInfo list list \<Rightarrow> (string \<times> Address) list \<Rightarrow> QueuePairInfo list \<Rightarrow> (string \<times> Address) \<Rightarrow> (nat \<times> nat) set \<Rightarrow> IndexManager \<Rightarrow> bool" where
  "joining cfg Q A qs a D im \<longleftrightarrow> joined cfg Q A im \<and> server_known cfg im a (length Q)
     \<and> (\<forall>(j, k)\<in>D. seated cfg im qs (length Q) j k)"

lemma server_known_seat:
  assumes "wf_index cfg im" "i < kNumServers cfg" "server_known cfg im a x"
  shows "server_known cfg (seat_index cfg qs i j k im) a x"
  using assms by (auto simp: server_known_def seat_index_def Let_def nth_list_update wf_index_def)

lemma joining_seat:
  assumes wc: "wf_config cfg" and n: "length Q < kNumServers cfg"
    and qs: "kNumTabletAndBackupsPerServer cfg * kNumReplicas cfg \<le> length qs"
    and jn: "joining cfg Q A qs a D im" and D: "D \<subseteq> seats cfg" and jk: "(j, k) \<in> seats cfg"
  shows "\<exists>im'. AddServer_tablet cfg (length Q) qs j k im = Some im' \<and> joining cfg Q A qs a (insert (j, k) D) im'"
proof -
  let ?im = "seat_index cfg qs (length Q) j k im"
  have b: "j \<le> kNumReplicas cfg" "k < kNumTabletsPerServer cfg"
    using jk by (auto simp: seats_def)
  have wf: "wf_index cfg im" and st: "length (tablets (im_servers im ! length Q)) = kNumTabletAndBackupsPerServer cfg"
    using jn by (auto simp: joining_def joined_def server_known_def Let_def)
  have fr: "seated cfg ?im qs' i' j' k'" if "seated cfg im qs' i' j' k'" "i' < kNumServers cfg"
      "(j', k') \<in> seats cfg" "(i', j', k') \<noteq> (length Q, j, k)" for qs' i' j' k'
    using seated_frame [OF wc wf n b that(2) _ _ that(4,1)] that(3) by (auto simp: seats_def)
  have "joined cfg Q A ?im"
    unfolding joined_def
  proof (intro conjI allI impI)
    show "wf_index cfg ?im"
      by (rule wf_index_seat [OF wf n b])
    show "length A = length Q" "length Q \<le> kNumServers cfg"
      using jn by (simp_all add: joining_def joined_def)
    fix i assume i: "i < length Q"
    then show "server_known cfg ?im (A ! i) i"
      using jn by (intro server_known_seat [OF wf n]) (simp add: joining_def joined_def)
    show "\<forall>(j', k')\<in>seats cfg. seated cfg ?im (Q ! i) i j' k'"
      using jn i n by (auto simp: joining_def joined_def intro!: fr)
  qed
  moreover have "server_known cfg ?im a (length Q)"
    using jn by (intro server_known_seat [OF wf n]) (simp add: joining_def)
  moreover have "seated cfg ?im qs (length Q) j' k'" if "(j', k') \<in> insert (j, k) D" for j' k'
  proof (cases "(j', k') = (j, k)")
    case True
    then show ?thesis
      using seated_seat [OF wf n b st] by simp
  next
    case False
    with that jn D n show ?thesis
      by (intro fr) (auto simp: joining_def)
  qed
  ultimately show ?thesis
    using AddServer_tablet_exec [OF wc wf n b qs st] by (auto simp: joining_def)
qed

lemma AddServer_loops:
  assumes wc: "wf_config cfg" and n: "length Q < kNumServers cfg"
    and qs: "kNumTabletAndBackupsPerServer cfg * kNumReplicas cfg \<le> length qs"
    and jn: "joining cfg Q A qs a {} im"
  shows "\<exists>im'. for_loop 0 (kNumReplicas cfg + 1) (\<lambda>j.
      for_loop 0 (kNumTabletsPerServer cfg) (\<lambda>k. AddServer_tablet cfg (length Q) qs j k)) im = Some im'
    \<and> joining cfg Q A qs a (seats cfg) im'"
proof -
  let ?D = "\<lambda>j k. {(j', k'). (j', k') \<in> seats cfg \<and> (j' < j \<or> j' = j \<and> k' < k)}"
  have row: "\<exists>im'. for_loop 0 (kNumTabletsPerServer cfg) (\<lambda>k. AddServer_tablet cfg (length Q) qs j k) im = Some im'
      \<and> joining cfg Q A qs a (?D (Suc j) 0) im'"
    if j: "j < kNumReplicas cfg + 1" and im: "joining cfg Q A qs a (?D j 0) im" for j im
  proof -
    have "\<exists>im'. for_loop 0 (kNumTabletsPerServer cfg) (\<lambda>k. AddServer_tablet cfg (length Q) qs j k) im = Some im'
        \<and> joining cfg Q A qs a (?D j (kNumTabletsPerServer cfg)) im'"
    proof (rule for_loop_inv [where I = "\<lambda>k. joining cfg Q A qs a (?D j k)"])
      fix k im assume k: "k < kNumTabletsPerServer cfg" "joining cfg Q A qs a (?D j k) im"
      then have jk: "(j, k) \<in> seats cfg"
        using j by (simp add: seats_def)
      have "insert (j, k) (?D j k) = ?D j (Suc k)"
        using jk by (auto simp: less_Suc_eq)
      with joining_seat [OF wc n qs k(2) _ jk]
      show "\<exists>im'. AddServer_tablet cfg (length Q) qs j k im = Some im' \<and> joining cfg Q A qs a (?D j (Suc k)) im'"
        by auto
    qed (use im in simp_all)
    moreover have "?D j (kNumTabletsPerServer cfg) = ?D (Suc j) 0"
      by (auto simp: seats_def)
    ultimately show ?thesis
      by simp
  qed
  have "\<exists>im'. for_loop 0 (kNumReplicas cfg + 1) (\<lambda>j.
      for_loop 0 (kNumTabletsPerServer cfg) (\<lambda>k. AddServer_tablet cfg (length Q) qs j k)) im = Some im'
      \<and> joining cfg Q A qs a (?D (kNumReplicas cfg + 1) 0) im'"
    by (rule for_loop_inv [where I = "\<lambda>j. joining cfg Q A qs a (?D j 0)"]) (use jn row in simp_all)
  moreover have "?D (kNumReplicas cfg + 1) 0 = seats cfg"
    by (auto simp: seats_def)
  ultimately show ?thesis
    by simp
qed

lemma AddServer_joined:
  assumes wc: "wf_config cfg" and jn: "joined cfg Q A im" and n: "length Q < kNumServers cfg"
    and qs: "kNumTabletAndBackupsPerServer cfg * kNumReplicas cfg \<le> length qs"
  shows "\<exists>si im'. AddServer cfg (length Q) a ia qs im = Some (si, length Q + 1, im')
    \<and> joined cfg (Q @ [qs]) (A @ [(a, ia)]) im' \<and> info_id si = length Q \<and> ib_addr si = ia"
proof -
  let ?si = "\<lparr>info_id = length Q, active = True, addr = a, ib_addr = ia,
      tablets = replicate (kNumTabletAndBackupsPerServer cfg) 0\<rparr>"
  let ?im = "im\<lparr>im_servers := (im_servers im)[length Q := ?si]\<rparr>"
  have ls: "length (im_servers im) = kNumServers cfg"
    using jn by (simp add: joined_def wf_index_def)
  have "joining cfg Q A qs (a, ia) {} ?im"
    using jn n by (auto simp: joining_def joined_def server_known_def seated_def wf_index_def Let_def nth_list_update)
  from AddServer_loops [OF wc n qs this] obtain im' where
    im': "for_loop 0 (kNumReplicas cfg + 1) (\<lambda>j.
      for_loop 0 (kNumTabletsPerServer cfg) (\<lambda>k. AddServer_tablet cfg (length Q) qs j k)) ?im = Some im'"
      "joining cfg Q A qs (a, ia) (seats cfg) im'"
    by blast
  have "joined cfg (Q @ [qs]) (A @ [(a, ia)]) im'"
    using im'(2) n by (auto simp: joining_def joined_def nth_append less_Suc_eq)
  moreover have "length (im_servers im') = kNumServers cfg" "info_id (im_servers im' ! length Q) = length Q"
      "ib_addr (im_servers im' ! length Q) = ia"
    using im'(2) by (simp_all add: joining_def joined_def wf_index_def server_known_def Let_def)
  ultimately show ?thesis
    using im'(1) n ls by (simp add: AddServer_def AllocServerId_def)
qed

text \<open>A request with too few queue pairs is not survived.\<close>

lemma AddServer_needs_qpis:
  assumes wc: "wf_config cfg" and some: "AddServer cfg i a ia qs im = Some r"
  shows "kNumTabletAndBackupsPerServer cfg * kNumReplicas cfg \<le> length qs"
proof -
  let ?R = "kNumReplicas cfg" and ?T = "kNumTabletsPerServer cfg" and ?N = "kNumTabletAndBackupsPerServer cfg"
  obtain im1 im2 where "for_loop 0 (?R + 1) (\<lambda>j. for_loop 0 ?T (\<lambda>k. AddServer_tablet cfg i qs j k)) im1 = Some im2"
    using some by (auto simp: AddServer_def AllocServerId_def split: bind_splits)
  from for_loop_reaches [OF this, of ?R] obtain im3 im4 where
    row: "for_loop 0 ?T (\<lambda>k. AddServer_tablet cfg i qs ?R k) im3 = Some im4"
    by auto
  have "0 < ?T"
    using wc by (simp add: wf_config_def)
  with for_loop_reaches [OF row, of "?T - 1"] obtain im5 im6 where "AddServer_tablet cfg i qs ?R (?T - 1) im5 = Some im6"
    by auto
  then have "CalcTabletId cfg 0 ?R (?T - 1) * ?R + ?R \<le> length qs"
    by (auto simp: AddServer_tablet_def array_slice_def Let_def split: bind_splits if_splits)
  moreover have "CalcTabletId cfg 0 ?R (?T - 1) + 1 = ?N"
    using \<open>0 < ?T\<close> by (simp add: CalcTabletId_def kNumTabletAndBackupsPerServer_def algebra_simps)
  then have "?N * ?R = CalcTabletId cfg 0 ?R (?T - 1) * ?R + ?R"
    by (metis add_mult_distrib mult_1)
  ultimately show ?thesis
    by simp
qed

section \<open>The complete index\<close>

text \<open>
  In a complete index every master tablet is found in the key map, is held by its server, and
  has one backup on each of the next servers; every backup names it as its master.
\<close>

definition wired :: "Config \<Rightarrow> IndexManager \<Rightarrow> nat \<Rightarrow> nat \<Rightarrow> bool" where
  "wired cfg im i k \<longleftrightarrow>
     (let t = CalcTabletId cfg i 0 k; ti = im_tablets im ! t
      in key_tablet_map im ! CalcTabletId cfg 0 i k = t
       \<and> tablet_id ti = t \<and> \<not> is_backup ti \<and> server_id ti = i
       \<and> tablets (im_servers im ! i) ! k = t
       \<and> backups ti = map (\<lambda>j. CalcTabletId cfg ((i + j) mod kNumServers cfg) j k) [1..<kNumReplicas cfg + 1]
       \<and> (\<forall>b\<in>set (backups ti). is_backup (im_tablets im ! b) \<and> master (im_tablets im ! b) = t
            \<and> server_id (im_tablets im ! b) \<noteq> i)
       \<and> distinct (map (\<lambda>b. server_id (im_tablets im ! b)) (backups ti)))"

lemma mod_shift_inject:
  fixes i j j' n :: nat
  assumes "j < n" "j' < n" "(i + j) mod n = (i + j') mod n"
  shows "j = j'"
proof -
  have "(int i + int j) mod int n = (int i + int j') mod int n"
    using assms(3) by (metis of_nat_add of_nat_mod)
  then have "int j mod int n = int j' mod int n"
    by (metis add_diff_cancel_left' mod_diff_left_eq)
  then show ?thesis
    using assms(1,2) by simp
qed

lemma master_of_next:
  assumes "i < kNumServers cfg" "j < kNumServers cfg"
  shows "master_server cfg ((i + j) mod kNumServers cfg) j = i"
  using assms by (auto simp: master_server_def mod_if)

lemma joined_wired:
  assumes wc: "wf_config cfg" and jn: "joined cfg Q A im" and all: "length Q = kNumServers cfg"
    and i: "i < kNumServers cfg" and k: "k < kNumTabletsPerServer cfg"
  shows "wired cfg im i k"
proof -
  let ?S = "kNumServers cfg" and ?R = "kNumReplicas cfg" and ?t = "CalcTabletId cfg i 0 k"
  let ?b = "\<lambda>j. CalcTabletId cfg ((i + j) mod ?S) j k"
  have RS: "?R < ?S"
    using wc by (simp add: wf_config_def)
  have seat: "seated cfg im (Q ! i') i' j k" if "i' < ?S" "j \<le> ?R" for i' j
    using jn that k all by (auto simp: joined_def seats_def)
  have own: "seated cfg im (Q ! i) i 0 k"
    using seat [OF i] by simp
  have bk: "is_backup (im_tablets im ! ?b j) \<and> master (im_tablets im ! ?b j) = ?t
      \<and> server_id (im_tablets im ! ?b j) = (i + j) mod ?S \<and> backups (im_tablets im ! ?t) ! (j - 1) = ?b j"
    if "0 < j" "j \<le> ?R" for j
    using seat [of "(i + j) mod ?S" j] that i RS master_of_next [OF i, of j] by (auto simp: seated_def Let_def)
  have "length (backups (im_tablets im ! ?t)) = ?R"
    using jn CalcTabletId_less [OF i _ k, of 0] by (auto simp: joined_def wf_index_def)
  then have bs: "backups (im_tablets im ! ?t) = map ?b [1..<?R + 1]"
    using bk [of "Suc x" for x] by (intro nth_equalityI) (simp_all del: upt_Suc)
  have off: "(i + j) mod ?S \<noteq> i" if "0 < j" "j \<le> ?R" for j
    using mod_shift_inject [of j ?S 0 i] that i RS by auto
  have "inj_on (\<lambda>j. (i + j) mod ?S) (set [1..<?R + 1])"
    using RS by (intro inj_onI) (rule mod_shift_inject [where n = ?S and i = i], auto)
  moreover have "map (\<lambda>b. server_id (im_tablets im ! b)) (backups (im_tablets im ! ?t)) = map (\<lambda>j. (i + j) mod ?S) [1..<?R + 1]"
    using bk by (simp add: bs del: upt_Suc)
  ultimately have "distinct (map (\<lambda>b. server_id (im_tablets im ! b)) (backups (im_tablets im ! ?t)))"
    by (simp add: distinct_map)
  moreover have "tablets (im_servers im ! i) ! k = ?t"
    using own by (simp add: CalcTabletId_def seated_def Let_def)
  ultimately show ?thesis
    using own bs bk off by (auto simp: wired_def seated_def Let_def)
qed

section \<open>The tablet of a key hash\<close>

lemma excess_bits_eq:
  "2 ^ 52 * 2 ^ e \<le> h \<Longrightarrow> h < 2 ^ 53 * 2 ^ e \<Longrightarrow> 0 < e \<Longrightarrow> excess_bits h = e"
proof (induction e arbitrary: h)
  case (Suc e)
  have big: "\<not> h < 2 ^ 53"
  proof -
    have "(2::nat) ^ 53 * 1 \<le> 2 ^ 53 * 2 ^ e"
      by (intro mult_le_mono2) simp
    also have "\<dots> \<le> h"
      using Suc.prems(1) by simp
    finally show ?thesis
      by simp
  qed
  show ?case
  proof (cases "e = 0")
    case True
    with Suc.prems big show ?thesis
      by (simp add: excess_bits.simps [of h] excess_bits.simps [of "h div 2"])
  next
    case False
    with Suc.prems have "excess_bits (h div 2) = e"
      by (intro Suc.IH) simp_all
    with big show ?thesis
      by (simp add: excess_bits.simps [of h])
  qed
qed simp

lemma to_double_high:
  assumes "2 ^ 63 \<le> h" "h < 2 ^ 64"
  shows "2 ^ 63 \<le> to_double h" "to_double h < 2 ^ 64 \<longleftrightarrow> h < 2 ^ 64 - 1024" "to_double h \<le> 2 ^ 64"
proof -
  have e: "excess_bits h = 11"
    using assms by (intro excess_bits_eq) simp_all
  define q where "q = h div 2048"
  define r where "r = h mod 2048"
  have h: "h = 2048 * q + r" "r < 2048"
    by (simp_all add: q_def r_def)
  have q: "4503599627370496 \<le> q" "q < 9007199254740992"
    using assms h by simp_all
  have d: "to_double h = (if 1024 < r \<or> 1024 = r \<and> odd q then q + 1 else q) * 2048"
    by (simp add: to_double_def e q_def r_def Let_def)
  show "2 ^ 63 \<le> to_double h" "to_double h \<le> 2 ^ 64"
    using q by (auto simp: d)
  show "to_double h < 2 ^ 64 \<longleftrightarrow> h < 2 ^ 64 - 1024"
  proof (cases "q = 9007199254740991")
    case True
    then show ?thesis
      unfolding d using h by auto
  next
    case False
    then show ?thesis
      unfolding d using h q by auto
  qed
qed

lemma excess_bits_bounds:
  "h div 2 ^ excess_bits h < 2 ^ 53"
  "h < 2 ^ 53 * 2 ^ e \<Longrightarrow> excess_bits h \<le> e"
proof -
  show "h div 2 ^ excess_bits h < 2 ^ 53"
  proof (induction h rule: excess_bits.induct)
    case (1 h)
    then show ?case
      by (subst excess_bits.simps) (simp add: div_mult2_eq)
  qed
  show "h < 2 ^ 53 * 2 ^ e \<Longrightarrow> excess_bits h \<le> e"
  proof (induction e arbitrary: h)
    case (Suc e)
    then have "excess_bits (h div 2) \<le> e"
      by (intro Suc.IH) simp
    then show ?case
      by (subst excess_bits.simps) simp
  qed (simp add: excess_bits.simps)
qed

lemma to_double_low:
  assumes "h < 2 ^ 63"
  shows "to_double h \<le> 2 ^ 63"
proof -
  define e where "e = excess_bits h"
  define q where "q = h div 2 ^ e"
  have "q < 2 ^ 53" "e \<le> 10"
    using excess_bits_bounds(1) [of h] excess_bits_bounds(2) [of h 10] assms by (simp_all add: e_def q_def)
  have "to_double h \<le> (q + 1) * 2 ^ e"
    by (simp add: to_double_def Let_def e_def q_def)
  also have "\<dots> \<le> 2 ^ 53 * 2 ^ 10"
    using \<open>q < 2 ^ 53\<close> \<open>e \<le> 10\<close> by (intro mult_le_mono power_increasing) simp_all
  finally show ?thesis
    by simp
qed

lemma kNumTablets_nvds [simp]: "kNumTablets nvds_config = 2"
  by (simp add: kNumTablets_def nvds_config_def)

lemma GetTabletId_eq:
  assumes "length (key_tablet_map im) = 2"
  shows "GetTabletId im key_hash =
    (if unat key_hash < 2 ^ 64 - 1024 then Some (key_tablet_map im ! (to_double (unat key_hash) div 2 ^ 63)) else None)"
    "unat key_hash < 2 ^ 64 - 1024 \<Longrightarrow> to_double (unat key_hash) div 2 ^ 63 < 2"
proof -
  let ?h = "unat key_hash"
  have less: "?h < 2 ^ 64"
    using unsigned_less [of key_hash] by simp
  have idx: "to_double ?h div 2 ^ 63 < 2 \<longleftrightarrow> ?h < 2 ^ 64 - 1024"
  proof (cases "?h < 2 ^ 63")
    case True
    with to_double_low [OF True] show ?thesis
      by (simp add: less_mult_imp_div_less)
  next
    case False
    with to_double_high [of ?h] less show ?thesis
      by (simp add: div_less_iff_less_mult)
  qed
  then show "?h < 2 ^ 64 - 1024 \<Longrightarrow> to_double ?h div 2 ^ 63 < 2"
    by blast
  show "GetTabletId im key_hash =
    (if ?h < 2 ^ 64 - 1024 then Some (key_tablet_map im ! (to_double ?h div 2 ^ 63)) else None)"
    using idx by (simp add: GetTabletId_def array_get_def assms)
qed

text \<open>Every 64-bit value is the hash of an 8-byte key.\<close>

lemma Hash_surj: "\<exists>k. length k = 8 \<and> Hash k = h"
proof -
  let ?K = "{k :: u8 list. length k = 8}"
  have fin: "finite ?K" and "card ?K = CARD(u8) ^ 8"
    using finite_lists_length_eq [of "UNIV :: u8 set" 8] card_lists_length_eq [of "UNIV :: u8 set" 8] by simp_all
  then have card: "card ?K = 2 ^ 64"
    by (simp add: card_word)
  have "inj_on Hash ?K"
    by (intro inj_onI) (simp add: Hash_inject_le8)
  then have "card (Hash ` ?K) = card (UNIV :: u64 set)"
    using card by (simp add: card_image card_word)
  then have "Hash ` ?K = UNIV"
    by (intro card_subset_eq) simp_all
  then have "h \<in> Hash ` ?K"
    by simp
  then show ?thesis
    by auto
qed

text \<open>
  C17: In a two-tablet index the tablet of a key hash is found exactly when the hash is below
  \<open>2 ^ 64 - 1024\<close>; the 1024 largest hashes are rounded up to \<open>2 ^ 64\<close> and index the key map past
  its end. There are 8-byte keys with such a hash.
\<close>

theorem GetTabletId_bounds:
  assumes "length (key_tablet_map im) = kNumTablets nvds_config"
  shows "(GetTabletId im key_hash \<noteq> None \<longleftrightarrow> unat key_hash < 2 ^ 64 - 1024)
    \<and> (\<exists>k. length k = 8 \<and> GetTabletId im (Hash k) = None)"
proof -
  have len: "length (key_tablet_map im) = 2"
    using assms by simp
  obtain k where "length k = 8" "Hash k = 18446744073709551615"
    using Hash_surj by blast
  moreover have "GetTabletId im 18446744073709551615 = None"
    by (simp add: GetTabletId_eq [OF len])
  ultimately show ?thesis
    using GetTabletId_eq(1) [OF len, of key_hash] by auto
qed

theorem GetTabletId_bounds_witness:
  "(GetTabletId \<lparr>key_tablet_map = [0, 2], im_tablets = [], im_servers = []\<rparr> 5 \<noteq> None)
    \<and> (\<exists>k. length k = 8 \<and> GetTabletId \<lparr>key_tablet_map = [0, 2], im_tablets = [], im_servers = []\<rparr> (Hash k) = None)"
  using GetTabletId_bounds [of "\<lparr>key_tablet_map = [0, 2], im_tablets = [], im_servers = []\<rparr>" 5] by simp

end
