(* ===== verification/Json_Codec.thy ===== *)
theory Json_Codec
  imports Index_Manager
begin

text \<open>
  The conversions of \<^verbatim>\<open>src/message.cc\<close> between the structures of the index and JSON values.
  The JSON library is a parameter, a record of the operations the code calls on values of a type
  \<open>'j\<close>; \<open>json_laws\<close> says what the code relies on: a value that was built gives back what it was
  built from. A conversion that meets a value of another kind, or a missing member, is
  \<^const>\<open>None\<close>.
\<close>

section \<open>The library\<close>

record 'j json_lib =
  json_null :: 'j
  json_num :: "int \<Rightarrow> 'j"
  json_bool :: "bool \<Rightarrow> 'j"
  json_str :: "string \<Rightarrow> 'j"
  json_arr :: "'j list \<Rightarrow> 'j"
  json_obj :: "(string \<times> 'j) list \<Rightarrow> 'j"
  get_num :: "'j \<Rightarrow> int option"
  get_bool :: "'j \<Rightarrow> bool option"
  get_str :: "'j \<Rightarrow> string option"
  get_arr :: "'j \<Rightarrow> 'j list option"
  get_member :: "'j \<Rightarrow> string \<Rightarrow> 'j option"

definition json_laws :: "'j json_lib \<Rightarrow> bool" where
  "json_laws L \<longleftrightarrow>
     (\<forall>n. get_num L (json_num L n) = Some n) \<and> (\<forall>b. get_bool L (json_bool L b) = Some b)
     \<and> (\<forall>s. get_str L (json_str L s) = Some s) \<and> (\<forall>xs. get_arr L (json_arr L xs) = Some xs)
     \<and> (\<forall>kvs k. distinct (map fst kvs) \<longrightarrow> get_member L (json_obj L kvs) k = map_of kvs k)"

lemma json_lawsD:
  assumes "json_laws L"
  shows "get_num L (json_num L n) = Some n" "get_bool L (json_bool L b) = Some b"
    "get_str L (json_str L s) = Some s" "get_arr L (json_arr L xs) = Some xs"
    "distinct (map fst kvs) \<Longrightarrow> get_member L (json_obj L kvs) k = map_of kvs k"
  using assms by (simp_all add: json_laws_def)

text \<open>A number assigned to a field of an unsigned type is reduced to its width.\<close>

definition at_word :: "'j json_lib \<Rightarrow> 'j \<Rightarrow> string \<Rightarrow> 'a::len word option" where
  "at_word L j k = do { v \<leftarrow> get_member L j k; n \<leftarrow> get_num L v; Some (word_of_int n) }"

definition nat_value :: "'j json_lib \<Rightarrow> 'j \<Rightarrow> nat option" where
  "nat_value L v = do { n \<leftarrow> get_num L v; Some (nat (n mod 2 ^ 32)) }"

definition at_nat :: "'j json_lib \<Rightarrow> 'j \<Rightarrow> string \<Rightarrow> nat option" where
  "at_nat L j k = get_member L j k \<bind> nat_value L"

definition at_bool :: "'j json_lib \<Rightarrow> 'j \<Rightarrow> string \<Rightarrow> bool option" where
  "at_bool L j k = get_member L j k \<bind> get_bool L"

definition at_str :: "'j json_lib \<Rightarrow> 'j \<Rightarrow> string \<Rightarrow> string option" where
  "at_str L j k = get_member L j k \<bind> get_str L"

fun map_all :: "('a \<Rightarrow> 'b option) \<Rightarrow> 'a list \<Rightarrow> 'b list option" where
  "map_all f [] = Some []"
| "map_all f (x # xs) = do { y \<leftarrow> f x; ys \<leftarrow> map_all f xs; Some (y # ys) }"

definition at_list :: "'j json_lib \<Rightarrow> ('j \<Rightarrow> 'a option) \<Rightarrow> 'j \<Rightarrow> string \<Rightarrow> 'a list option" where
  "at_list L f j k = do { v \<leftarrow> get_member L j k; xs \<leftarrow> get_arr L v; map_all f xs }"

section \<open>The conversions\<close>

definition to_json_Address :: "'j json_lib \<Rightarrow> Address \<Rightarrow> 'j" where
  "to_json_Address L ia = json_obj L
     [(''ib_port'', json_num L (ib_port ia)),
      (''lid'', json_num L (uint (addr_lid ia))),
      (''qpn'', json_num L (uint (addr_qpn ia)))]"

text \<open>The port is a signed 32-bit field.\<close>

definition from_json_Address :: "'j json_lib \<Rightarrow> 'j \<Rightarrow> Address option" where
  "from_json_Address L j = do {
     p \<leftarrow> at_word L j ''ib_port'';
     l \<leftarrow> at_word L j ''lid'';
     q \<leftarrow> at_word L j ''qpn'';
     Some \<lparr>ib_port = sint (p :: u32), addr_lid = l, addr_qpn = q\<rparr>
   }"

definition to_json_QueuePairInfo :: "'j json_lib \<Rightarrow> QueuePairInfo \<Rightarrow> 'j" where
  "to_json_QueuePairInfo L q = json_obj L
     [(''lid'', json_num L (uint (qpi_lid q))),
      (''qpn'', json_num L (uint (qpi_qpn q))),
      (''psn'', json_num L (uint (qpi_psn q))),
      (''rkey'', json_num L (uint (qpi_rkey q))),
      (''vaddr'', json_num L (uint (qpi_vaddr q)))]"

definition from_json_QueuePairInfo :: "'j json_lib \<Rightarrow> 'j \<Rightarrow> QueuePairInfo option" where
  "from_json_QueuePairInfo L j = do {
     l \<leftarrow> at_word L j ''lid'';
     q \<leftarrow> at_word L j ''qpn'';
     p \<leftarrow> at_word L j ''psn'';
     r \<leftarrow> at_word L j ''rkey'';
     v \<leftarrow> at_word L j ''vaddr'';
     Some \<lparr>qpi_lid = l, qpi_qpn = q, qpi_psn = p, qpi_rkey = r, qpi_vaddr = v\<rparr>
   }"

definition to_json_TabletInfo :: "'j json_lib \<Rightarrow> TabletInfo \<Rightarrow> 'j" where
  "to_json_TabletInfo L ti = json_obj L
     ([(''id'', json_num L (int (tablet_id ti))),
       (''server_id'', json_num L (int (server_id ti))),
       (''is_backup'', json_bool L (is_backup ti)),
       (''qpis'', json_arr L (map (to_json_QueuePairInfo L) (qpis ti)))]
      @ (if is_backup ti then [(''master'', json_num L (int (master ti)))]
         else [(''backups'', json_arr L (map (\<lambda>b. json_num L (int b)) (backups ti)))]))"

text \<open>
  A backup is sent with its master only: the rest of the union keeps what the object assigned
  to held before, which is \<open>old\<close>.
\<close>

definition from_json_TabletInfo :: "'j json_lib \<Rightarrow> TabletInfo \<Rightarrow> 'j \<Rightarrow> TabletInfo option" where
  "from_json_TabletInfo L old j = do {
     i \<leftarrow> at_nat L j ''id'';
     s \<leftarrow> at_nat L j ''server_id'';
     b \<leftarrow> at_bool L j ''is_backup'';
     q \<leftarrow> at_list L (from_json_QueuePairInfo L) j ''qpis'';
     bs \<leftarrow> (if b then do { m \<leftarrow> at_nat L j ''master''; Some ((backups old)[0 := m]) }
           else at_list L (nat_value L) j ''backups'');
     Some \<lparr>tablet_id = i, server_id = s, is_backup = b, qpis = q, backups = bs\<rparr>
   }"

definition to_json_ServerInfo :: "'j json_lib \<Rightarrow> ServerInfo \<Rightarrow> 'j" where
  "to_json_ServerInfo L si = json_obj L
     [(''id'', json_num L (int (info_id si))),
      (''active'', json_bool L (active si)),
      (''addr'', json_str L (addr si)),
      (''ib_addr'', to_json_Address L (ib_addr si)),
      (''tablets'', json_arr L (map (\<lambda>t. json_num L (int t)) (tablets si)))]"

definition from_json_ServerInfo :: "'j json_lib \<Rightarrow> 'j \<Rightarrow> ServerInfo option" where
  "from_json_ServerInfo L j = do {
     i \<leftarrow> at_nat L j ''id'';
     a \<leftarrow> at_bool L j ''active'';
     s \<leftarrow> at_str L j ''addr'';
     ia \<leftarrow> get_member L j ''ib_addr'' \<bind> from_json_Address L;
     ts \<leftarrow> at_list L (nat_value L) j ''tablets'';
     Some \<lparr>info_id = i, active = a, addr = s, ib_addr = ia, tablets = ts\<rparr>
   }"

definition to_json_IndexManager :: "'j json_lib \<Rightarrow> IndexManager \<Rightarrow> 'j" where
  "to_json_IndexManager L im = json_obj L
     [(''key_tablet_map'', json_arr L (map (\<lambda>t. json_num L (int t)) (key_tablet_map im))),
      (''tablets'', json_arr L (map (to_json_TabletInfo L) (im_tablets im))),
      (''servers'', json_arr L (map (to_json_ServerInfo L) (im_servers im)))]"

text \<open>The array of tablets is converted into fresh objects, whose contents are \<open>old\<close>.\<close>

definition from_json_IndexManager :: "'j json_lib \<Rightarrow> TabletInfo \<Rightarrow> 'j \<Rightarrow> IndexManager option" where
  "from_json_IndexManager L old j = do {
     m \<leftarrow> at_list L (nat_value L) j ''key_tablet_map'';
     ts \<leftarrow> at_list L (from_json_TabletInfo L old) j ''tablets'';
     ss \<leftarrow> at_list L (from_json_ServerInfo L) j ''servers'';
     Some \<lparr>key_tablet_map = m, im_tablets = ts, im_servers = ss\<rparr>
   }"

section \<open>The conversions are inverse\<close>

text \<open>The identifiers fit their 32-bit fields and the port its signed one.\<close>

definition fits_Address :: "Address \<Rightarrow> bool" where
  "fits_Address ia \<longleftrightarrow> - (2 ^ 31) \<le> ib_port ia \<and> ib_port ia < 2 ^ 31"

definition fits_TabletInfo :: "TabletInfo \<Rightarrow> bool" where
  "fits_TabletInfo ti \<longleftrightarrow> tablet_id ti < 2 ^ 32 \<and> server_id ti < 2 ^ 32 \<and> backups ti \<noteq> []
     \<and> (\<forall>b\<in>set (backups ti). b < 2 ^ 32)"

definition fits_ServerInfo :: "ServerInfo \<Rightarrow> bool" where
  "fits_ServerInfo si \<longleftrightarrow> info_id si < 2 ^ 32 \<and> fits_Address (ib_addr si) \<and> (\<forall>t\<in>set (tablets si). t < 2 ^ 32)"

definition fits_IndexManager :: "IndexManager \<Rightarrow> bool" where
  "fits_IndexManager im \<longleftrightarrow> (\<forall>t\<in>set (key_tablet_map im). t < 2 ^ 32)
     \<and> (\<forall>ti\<in>set (im_tablets im). fits_TabletInfo ti) \<and> (\<forall>si\<in>set (im_servers im). fits_ServerInfo si)"

text \<open>What arrives of a tablet.\<close>

definition received :: "TabletInfo \<Rightarrow> TabletInfo \<Rightarrow> TabletInfo" where
  "received old ti = (if is_backup ti then ti\<lparr>backups := (backups old)[0 := master ti]\<rparr> else ti)"

lemma map_all_map: "(\<And>x. x \<in> set xs \<Longrightarrow> f (g x) = Some (h x)) \<Longrightarrow> map_all f (map g xs) = Some (map h xs)"
  by (induction xs) simp_all

lemmas at_defs = at_word_def at_nat_def at_bool_def at_str_def at_list_def nat_value_def

locale json_library =
  fixes L :: "'j json_lib"
  assumes laws: "json_laws L"
begin

lemma Address_roundtrip:
  assumes "fits_Address ia"
  shows "from_json_Address L (to_json_Address L ia) = Some ia"
proof -
  have "sint (word_of_int (ib_port ia) :: u32) = ib_port ia"
    using assms by (simp add: signed_of_int signed_take_bit_int_eq_self fits_Address_def)
  then show ?thesis
    by (simp add: from_json_Address_def to_json_Address_def at_defs json_lawsD [OF laws])
qed

lemma QueuePairInfo_roundtrip: "from_json_QueuePairInfo L (to_json_QueuePairInfo L q) = Some q"
  by (simp add: from_json_QueuePairInfo_def to_json_QueuePairInfo_def at_defs json_lawsD [OF laws])

lemma nat_values:
  "\<forall>b\<in>set bs. b < 2 ^ 32 \<Longrightarrow> map_all (nat_value L) (map (\<lambda>b. json_num L (int b)) bs) = Some bs"
  using map_all_map [of bs "nat_value L" "\<lambda>b. json_num L (int b)" id]
  by (simp add: at_defs json_lawsD [OF laws])

lemma TabletInfo_roundtrip:
  assumes "fits_TabletInfo ti"
  shows "from_json_TabletInfo L old (to_json_TabletInfo L ti) = Some (received old ti)"
proof -
  have qs: "map_all (from_json_QueuePairInfo L) (map (to_json_QueuePairInfo L) (qpis ti)) = Some (qpis ti)"
    using map_all_map [of "qpis ti" "from_json_QueuePairInfo L" "to_json_QueuePairInfo L" id]
    by (simp add: QueuePairInfo_roundtrip)
  have m: "master ti < 2 ^ 32"
    using assms by (simp add: fits_TabletInfo_def master_def)
  show ?thesis
    using assms qs m nat_values [of "backups ti"]
    by (simp add: from_json_TabletInfo_def to_json_TabletInfo_def at_list_def at_nat_def at_bool_def
        json_lawsD [OF laws] fits_TabletInfo_def received_def nat_value_def)
qed

lemma ServerInfo_roundtrip:
  assumes "fits_ServerInfo si"
  shows "from_json_ServerInfo L (to_json_ServerInfo L si) = Some si"
  using assms nat_values [of "tablets si"] Address_roundtrip [of "ib_addr si"]
  by (simp add: from_json_ServerInfo_def to_json_ServerInfo_def at_list_def at_nat_def at_bool_def at_str_def
      json_lawsD [OF laws] fits_ServerInfo_def nat_value_def)

lemma IndexManager_roundtrip:
  assumes "fits_IndexManager im"
  shows "from_json_IndexManager L old (to_json_IndexManager L im) =
    Some (im\<lparr>im_tablets := map (received old) (im_tablets im)\<rparr>)"
proof -
  have "map_all (from_json_TabletInfo L old) (map (to_json_TabletInfo L) (im_tablets im)) =
      Some (map (received old) (im_tablets im))"
    using assms by (intro map_all_map TabletInfo_roundtrip) (simp add: fits_IndexManager_def)
  moreover have "map_all (from_json_ServerInfo L) (map (to_json_ServerInfo L) (im_servers im)) = Some (im_servers im)"
    using assms map_all_map [of "im_servers im" "from_json_ServerInfo L" "to_json_ServerInfo L" id]
    by (simp add: fits_IndexManager_def ServerInfo_roundtrip)
  ultimately show ?thesis
    using assms nat_values [of "key_tablet_map im"]
    by (simp add: from_json_IndexManager_def to_json_IndexManager_def at_list_def json_lawsD [OF laws] fits_IndexManager_def)
qed

end

text \<open>JSON values as a datatype with the operations of the library.\<close>

datatype json = JNull | JNum int | JBool bool | JStr string | JArr "json list" | JObj "(string \<times> json) list"

definition json_values :: "json json_lib" where
  "json_values = \<lparr>json_null = JNull, json_num = JNum, json_bool = JBool, json_str = JStr, json_arr = JArr, json_obj = JObj,
     get_num = (\<lambda>j. case j of JNum n \<Rightarrow> Some n | _ \<Rightarrow> None),
     get_bool = (\<lambda>j. case j of JBool b \<Rightarrow> Some b | _ \<Rightarrow> None),
     get_str = (\<lambda>j. case j of JStr s \<Rightarrow> Some s | _ \<Rightarrow> None),
     get_arr = (\<lambda>j. case j of JArr xs \<Rightarrow> Some xs | _ \<Rightarrow> None),
     get_member = (\<lambda>j k. case j of JObj kvs \<Rightarrow> map_of kvs k | _ \<Rightarrow> None)\<rparr>"

interpretation jv: json_library json_values
  by unfold_locales (simp add: json_laws_def json_values_def)

text \<open>
  An index that is sent as JSON is received with the same key map, the same servers and the
  same tablets; of the union of a backup tablet only the master arrives. With one replica, as
  configured, it is received unchanged.
\<close>

lemma index_roundtrip:
  assumes "json_laws L" "fits_IndexManager im"
  shows "from_json_IndexManager L old (to_json_IndexManager L im) =
      Some (im\<lparr>im_tablets := map (received old) (im_tablets im)\<rparr>)
    \<and> ((\<forall>ti\<in>set (old # im_tablets im). length (backups ti) = 1) \<longrightarrow>
        from_json_IndexManager L old (to_json_IndexManager L im) = Some im)"
proof -
  have "received old ti = ti" if "length (backups old) = 1" "length (backups ti) = 1" for ti
  proof -
    have "(backups old)[0 := backups ti ! 0] = backups ti"
      using that by (cases "backups old"; cases "backups ti") auto
    then show ?thesis
      by (simp add: received_def master_def)
  qed
  then have "map (received old) (im_tablets im) = im_tablets im"
    if "\<forall>ti\<in>set (old # im_tablets im). length (backups ti) = 1"
    using that by (simp add: map_idI)
  then show ?thesis
    using json_library.IndexManager_roundtrip [OF json_library.intro [OF assms(1)] assms(2)] by simp
qed

definition sample_tablet :: "nat \<Rightarrow> bool \<Rightarrow> TabletInfo" where
  "sample_tablet i b = \<lparr>tablet_id = i, server_id = i, is_backup = b,
     qpis = [\<lparr>qpi_lid = 3, qpi_qpn = 70, qpi_psn = 33, qpi_rkey = 9, qpi_vaddr = 4096\<rparr>], backups = [1 - i]\<rparr>"

definition sample_index :: IndexManager where
  "sample_index = \<lparr>key_tablet_map = [0], im_tablets = [sample_tablet 0 False, sample_tablet 1 True],
     im_servers = [\<lparr>info_id = 0, active = True, addr = ''10.0.0.1'',
        ib_addr = \<lparr>ib_port = 1, addr_lid = 3, addr_qpn = 70\<rparr>, tablets = [0, 1]\<rparr>]\<rparr>"

lemma index_roundtrip_example:
  "from_json_IndexManager json_values (sample_tablet 7 True) (to_json_IndexManager json_values sample_index) = Some sample_index"
proof -
  have "fits_IndexManager sample_index"
    by (simp add: fits_IndexManager_def fits_TabletInfo_def fits_ServerInfo_def fits_Address_def sample_index_def sample_tablet_def)
  moreover have "\<forall>ti\<in>set (sample_tablet 7 True # im_tablets sample_index). length (backups ti) = 1"
    by (simp add: sample_index_def sample_tablet_def)
  ultimately show ?thesis
    using index_roundtrip [OF jv.laws, of sample_index "sample_tablet 7 True"] by blast
qed

section \<open>JSON values as bytes\<close>

text \<open>
  A second library whose values are byte strings, so that turning a value into text and back
  loses nothing: a tag byte and length-prefixed parts.
\<close>

definition frame :: "u8 list \<Rightarrow> u8 list" where
  "frame bs = replicate (length bs) 1 @ 0 # bs"

function unframes :: "u8 list \<Rightarrow> u8 list list" where
  "unframes bs =
     (if bs = [] then []
      else let n = length (takeWhile (\<lambda>b. b = 1) bs); rest = drop (Suc n) bs
           in take n rest # unframes (drop n rest))"
  by pat_completeness auto
termination
  by (relation "measure length") (auto simp: Let_def)

declare unframes.simps [simp del]

lemma unframes_frame: "unframes (frame bs @ cs) = bs # unframes cs"
proof -
  have "takeWhile (\<lambda>b. b = 1) (replicate n (1 :: u8) @ 0 # ds) = replicate n 1" for n ds
    by (induction n) simp_all
  then show ?thesis
    by (subst unframes.simps) (simp add: frame_def Let_def)
qed

lemma unframes_concat: "unframes (concat (map frame xs)) = xs"
  by (induction xs) (simp_all add: unframes_frame unframes.simps [of "[]"])

definition int_bytes :: "int \<Rightarrow> u8 list" where
  "int_bytes n = (if n < 0 then 1 else 0) # replicate (nat \<bar>n\<bar>) 7"

definition bytes_int :: "u8 list \<Rightarrow> int" where
  "bytes_int bs = (if hd bs = 1 then - int (length bs - 1) else int (length bs - 1))"

definition chars :: "string \<Rightarrow> u8 list" where
  "chars s = map (\<lambda>c. of_nat (of_char c)) s"

definition unchars :: "u8 list \<Rightarrow> string" where
  "unchars bs = map (\<lambda>b. char_of (unat b)) bs"

fun pairs :: "u8 list list \<Rightarrow> (string \<times> u8 list) list" where
  "pairs (k # v # xs) = (unchars k, v) # pairs xs"
| "pairs _ = []"

definition tagged :: "u8 \<Rightarrow> (u8 list \<Rightarrow> 'a) \<Rightarrow> u8 list \<Rightarrow> 'a option" where
  "tagged t f j = (if j \<noteq> [] \<and> hd j = t then Some (f (tl j)) else None)"

definition byte_json :: "u8 list json_lib" where
  "byte_json = \<lparr>json_null = [5], json_num = (\<lambda>n. 0 # int_bytes n), json_bool = (\<lambda>b. [1, if b then 1 else 0]),
     json_str = (\<lambda>s. 2 # chars s), json_arr = (\<lambda>xs. 3 # concat (map frame xs)),
     json_obj = (\<lambda>kvs. 4 # concat (map frame (concat (map (\<lambda>(k, v). [chars k, v]) kvs)))),
     get_num = tagged 0 bytes_int, get_bool = tagged 1 (\<lambda>bs. bs = [1]), get_str = tagged 2 unchars,
     get_arr = tagged 3 unframes,
     get_member = (\<lambda>j k. case tagged 4 (\<lambda>bs. pairs (unframes bs)) j of Some kvs \<Rightarrow> map_of kvs k | None \<Rightarrow> None)\<rparr>"

lemma unchars_chars: "unchars (chars s) = s"
proof -
  have "char_of (unat (of_nat (of_char c) :: u8)) = c" for c
  proof -
    have "unat (of_nat (of_char c) :: u8) = of_char c"
      using nat_of_char_less_256 [of c] by (simp add: unat_of_nat take_bit_nat_eq_self)
    then show ?thesis
      by simp
  qed
  then show ?thesis
    by (simp add: unchars_def chars_def comp_def)
qed

lemma pairs_flat: "pairs (concat (map (\<lambda>(k, v). [chars k, v]) kvs)) = kvs"
  by (induction kvs) (auto simp: unchars_chars)

interpretation bj: json_library byte_json
proof unfold_locales
  have "bytes_int (int_bytes n) = n" for n
    by (simp add: bytes_int_def int_bytes_def)
  then show "json_laws byte_json"
    by (simp add: json_laws_def byte_json_def tagged_def unchars_chars unframes_concat pairs_flat)
qed

end
