(* ===== verification/Coordinator.thy ===== *)
theory Coordinator
  imports Messages Json_Codec
begin

text \<open>
  The coordinator of \<^verbatim>\<open>src/coordinator.cc\<close>: it collects the join requests of the servers, adds
  each to the index, and when the last one has joined sends every server its number and the index;
  later it sends the index to every client that asks.

  A session is an identifier of type \<open>'s\<close>. What belongs to Boost.Asio and to the JSON library is
  the record \<open>coord_env\<close>: the address of the peer of a session and the conversion between the
  text of a message body and a JSON value. A handler returns the new state and the asynchronous
  operations it starts, or \<^const>\<open>None\<close> for a failed assertion or an exception, both of which end
  the coordinator.
\<close>

section \<open>State and handlers\<close>

record ('s, 'j) coord_env =
  GetPeerAddr :: "'s \<Rightarrow> string"
  jlib :: "'j json_lib"
  json_parse :: "u8 list \<Rightarrow> 'j option"
  json_dump :: "'j \<Rightarrow> u8 list"

record 's Coordinator =
  num_servers :: nat
  total_storage :: u64
  index_manager :: IndexManager
  sessions :: "'s list"
  next_server_id :: nat

datatype 's session_op = Async_send 's Message | Async_recv 's

definition reply :: "('s, 'j) coord_env \<Rightarrow> (string \<times> 'j) list \<Rightarrow> Message" where
  "reply E kvs = make_Message \<lparr>sender_type = sender_code COORDINATOR, msg_type = type_code RES_JOIN, body_len = 0\<rparr>
     (json_dump E (json_obj (jlib E) kvs))"

definition ResponseAllJoins :: "Config \<Rightarrow> ('s, 'j) coord_env \<Rightarrow> 's Coordinator \<Rightarrow> ('s Coordinator \<times> 's session_op list) option" where
  "ResponseAllJoins cfg E st = do {
     _ \<leftarrow> (if length (sessions st) = kNumServers cfg then Some () else None);
     let im = to_json_IndexManager (jlib E) (index_manager st);
     let out = map (\<lambda>i. Async_send (sessions st ! i)
                 (reply E [(''id'', json_num (jlib E) (int i)), (''index_manager'', im)])) [0..<length (sessions st)];
     Some (st\<lparr>sessions := []\<rparr>, out)
   }"

definition HandleServerRequestJoin :: "Config \<Rightarrow> ('s, 'j) coord_env \<Rightarrow> 's \<Rightarrow> Message \<Rightarrow> 's Coordinator \<Rightarrow> ('s Coordinator \<times> 's session_op list) option" where
  "HandleServerRequestJoin cfg E session req st = do {
     j \<leftarrow> json_parse E (body req);
     nvm_size \<leftarrow> at_word (jlib E) j ''size'';
     if kNumServers cfg \<le> num_servers st then Some (st, [])
     else do {
       ia \<leftarrow> get_member (jlib E) j ''ib_addr'' \<bind> from_json_Address (jlib E);
       qs \<leftarrow> at_list (jlib E) (from_json_QueuePairInfo (jlib E)) j ''tablet_qpis'';
       (_, nid, im) \<leftarrow> AddServer cfg (next_server_id st) (GetPeerAddr E session) ia qs (index_manager st);
       let st = st\<lparr>index_manager := im, next_server_id := nid, sessions := sessions st @ [session],
                   num_servers := num_servers st + 1, total_storage := total_storage st + nvm_size\<rparr>;
       _ \<leftarrow> (if num_servers st \<le> kNumServers cfg then Some () else None);
       if num_servers st = kNumServers cfg then ResponseAllJoins cfg E st else Some (st, []) }
   }"

definition HandleMessageFromServer :: "Config \<Rightarrow> ('s, 'j) coord_env \<Rightarrow> 's \<Rightarrow> Message \<Rightarrow> 's Coordinator \<Rightarrow> ('s Coordinator \<times> 's session_op list) option" where
  "HandleMessageFromServer cfg E session msg st =
     (let t = msg_type (header msg) in
      if t = type_code REQ_JOIN then HandleServerRequestJoin cfg E session msg st
      else if t \<in> {type_code REQ_LEAVE, type_code ACK_REJECT, type_code ACK_ERROR, type_code ACK_OK} then Some (st, [])
      else None)"

definition HandleClientRequestJoin :: "Config \<Rightarrow> ('s, 'j) coord_env \<Rightarrow> 's \<Rightarrow> Message \<Rightarrow> 's Coordinator \<Rightarrow> ('s Coordinator \<times> 's session_op list) option" where
  "HandleClientRequestJoin cfg E session msg st = do {
     _ \<leftarrow> (if num_servers st = kNumServers cfg then Some () else None);
     _ \<leftarrow> (if sender_type (header msg) = sender_code CLIENT then Some () else None);
     _ \<leftarrow> (if msg_type (header msg) = type_code REQ_JOIN then Some () else None);
     Some (st, [Async_send session
       (reply E [(''index_manager'', to_json_IndexManager (jlib E) (index_manager st))])])
   }"

definition HandleMessageFromClient :: "Config \<Rightarrow> ('s, 'j) coord_env \<Rightarrow> 's \<Rightarrow> Message \<Rightarrow> 's Coordinator \<Rightarrow> ('s Coordinator \<times> 's session_op list) option" where
  "HandleMessageFromClient cfg E session msg st =
     (let t = msg_type (header msg) in
      if t = type_code REQ_JOIN then HandleClientRequestJoin cfg E session msg st
      else if t \<in> {type_code REQ_LEAVE, type_code ACK_REJECT, type_code ACK_ERROR, type_code ACK_OK} then Some (st, [])
      else None)"

definition Coordinator_HandleRecvMessage :: "Config \<Rightarrow> ('s, 'j) coord_env \<Rightarrow> 's \<Rightarrow> Message \<Rightarrow> 's Coordinator \<Rightarrow> ('s Coordinator \<times> 's session_op list) option" where
  "Coordinator_HandleRecvMessage cfg E session msg st =
     (let t = sender_type (header msg) in
      if t = sender_code SERVER then HandleMessageFromServer cfg E session msg st
      else if t = sender_code CLIENT then HandleMessageFromClient cfg E session msg st
      else if t = sender_code COORDINATOR then None
      else Some (st, []))"

definition Coordinator_HandleSendMessage :: "'s \<Rightarrow> Message \<Rightarrow> 's Coordinator \<Rightarrow> 's Coordinator \<times> 's session_op list" where
  "Coordinator_HandleSendMessage session msg st = (st, [Async_recv session])"

text \<open>The arrays of a coordinator that has just started hold unspecified tablets and servers.\<close>

definition coord_init :: "IndexManager \<Rightarrow> 's Coordinator" where
  "coord_init im = \<lparr>num_servers = 0, total_storage = 0, index_manager = im, sessions = [], next_server_id = 0\<rparr>"

section \<open>Reachable states\<close>

inductive coord_reachable :: "Config \<Rightarrow> ('s, 'j) coord_env \<Rightarrow> 's Coordinator \<Rightarrow> bool" for cfg E where
  init: "wf_index cfg im \<Longrightarrow> coord_reachable cfg E (coord_init im)"
| recv: "coord_reachable cfg E st \<Longrightarrow> Coordinator_HandleRecvMessage cfg E session msg st = Some (st', out) \<Longrightarrow>
     coord_reachable cfg E st'"
| sent: "coord_reachable cfg E st \<Longrightarrow> Coordinator_HandleSendMessage session msg st = (st', out) \<Longrightarrow>
     coord_reachable cfg E st'"

definition coord_inv :: "Config \<Rightarrow> 's Coordinator \<Rightarrow> bool" where
  "coord_inv cfg st \<longleftrightarrow> (\<exists>Q A. joined cfg Q A (index_manager st)
     \<and> num_servers st = length Q \<and> next_server_id st = length Q
     \<and> length (sessions st) = (if length Q = kNumServers cfg then 0 else length Q))"

lemma HandleServerRequestJoin_inv:
  assumes wc: "wf_config cfg" and inv: "coord_inv cfg st"
    and some: "HandleServerRequestJoin cfg E s m st = Some (st', out)"
  shows "coord_inv cfg st'"
proof (cases "kNumServers cfg \<le> num_servers st")
  case True
  then show ?thesis
    using some inv by (auto simp: HandleServerRequestJoin_def split: bind_splits)
next
  case False
  obtain Q A where Q: "joined cfg Q A (index_manager st)" "num_servers st = length Q" "next_server_id st = length Q"
      "length (sessions st) = (if length Q = kNumServers cfg then 0 else length Q)"
    using inv by (auto simp: coord_inv_def)
  from False some obtain size ia qs si nid im where
    add: "AddServer cfg (length Q) (GetPeerAddr E s) ia qs (index_manager st) = Some (si, nid, im)"
    and st': "st' = (let st1 = st\<lparr>index_manager := im, next_server_id := nid, sessions := sessions st @ [s],
                   num_servers := num_servers st + 1, total_storage := total_storage st + size\<rparr>
              in if num_servers st1 = kNumServers cfg then st1\<lparr>sessions := []\<rparr> else st1)"
    by (auto simp: HandleServerRequestJoin_def ResponseAllJoins_def Let_def Q(3) split: bind_splits if_splits prod.splits)
  have n: "length Q < kNumServers cfg"
    using False Q(2) by simp
  have "\<exists>si' im'. AddServer cfg (length Q) (GetPeerAddr E s) ia qs (index_manager st) = Some (si', length Q + 1, im')
      \<and> joined cfg (Q @ [qs]) (A @ [(GetPeerAddr E s, ia)]) im' \<and> info_id si' = length Q \<and> ib_addr si' = ia"
    by (rule AddServer_joined [OF wc Q(1) n AddServer_needs_qpis [OF wc add]])
  with add have "joined cfg (Q @ [qs]) (A @ [(GetPeerAddr E s, ia)]) im" "nid = length Q + 1"
    by auto
  then show ?thesis
    using Q n unfolding coord_inv_def
    by (intro exI [of _ "Q @ [qs]"] exI [of _ "A @ [(GetPeerAddr E s, ia)]"]) (auto simp: st' Let_def)
qed

lemma HandleRecvMessage_inv:
  assumes "wf_config cfg" "coord_inv cfg st" "Coordinator_HandleRecvMessage cfg E s m st = Some (st', out)"
  shows "coord_inv cfg st'"
  using assms HandleServerRequestJoin_inv [OF assms(1,2)]
  by (auto simp: Coordinator_HandleRecvMessage_def HandleMessageFromServer_def HandleMessageFromClient_def
      HandleClientRequestJoin_def Let_def split: if_splits bind_splits)

lemma coord_reachable_inv:
  assumes "wf_config cfg" "coord_reachable cfg E st"
  shows "coord_inv cfg st"
  using assms(2)
proof induction
  case (init im)
  moreover have "0 < kNumServers cfg"
    using assms(1) by (simp add: wf_config_def)
  ultimately show ?case
    unfolding coord_inv_def by (intro exI [of _ "[]"]) (simp add: joined_def coord_init_def)
next
  case (recv st s m st' out)
  then show ?case
    using HandleRecvMessage_inv [OF assms(1) recv.IH recv.hyps(2)] by simp
next
  case (sent st s m st' out)
  then show ?case
    by (simp add: Coordinator_HandleSendMessage_def)
qed

text \<open>
  Whatever messages arrive, a coordinator that is still running has admitted at most
  \<^verbatim>\<open>kNumServers\<close> servers, has given out as many numbers, and keeps the session of every admitted
  server until all have joined; from then on it keeps no session and every master tablet is in the
  key map, held by its server and backed up once on each of the next servers, which agree about
  their master.
\<close>

lemma coordinator_invariant:
  assumes "wf_config cfg" "coord_reachable cfg E st"
  shows "num_servers st \<le> kNumServers cfg \<and> next_server_id st = num_servers st
    \<and> (num_servers st < kNumServers cfg \<longrightarrow> length (sessions st) = num_servers st)
    \<and> (num_servers st = kNumServers cfg \<longrightarrow> sessions st = [] \<and>
        (\<forall>i<kNumServers cfg. \<forall>k<kNumTabletsPerServer cfg. wired cfg (index_manager st) i k))"
proof -
  obtain Q A where Q: "joined cfg Q A (index_manager st)" "num_servers st = length Q" "next_server_id st = length Q"
      "length (sessions st) = (if length Q = kNumServers cfg then 0 else length Q)"
    using coord_reachable_inv [OF assms] by (auto simp: coord_inv_def)
  moreover have "length Q \<le> kNumServers cfg"
    using Q(1) by (simp add: joined_def)
  ultimately show ?thesis
    using joined_wired [OF assms(1) Q(1)] by auto
qed

section \<open>The joining of a cluster\<close>

text \<open>The request a server sends, \<^verbatim>\<open>Server::Join\<close> of \<^verbatim>\<open>src/server.cc\<close>.\<close>

definition join_request :: "('s, 'j) coord_env \<Rightarrow> u64 \<Rightarrow> Address \<Rightarrow> QueuePairInfo list \<Rightarrow> Message" where
  "join_request E nvm_size ia qs =
     make_Message \<lparr>sender_type = sender_code SERVER, msg_type = type_code REQ_JOIN, body_len = 0\<rparr>
       (json_dump E (json_obj (jlib E)
          [(''size'', json_num (jlib E) (uint nvm_size)),
           (''ib_addr'', to_json_Address (jlib E) ia),
           (''tablet_qpis'', json_arr (jlib E) (map (to_json_QueuePairInfo (jlib E)) qs))]))"

definition env_laws :: "('s, 'j) coord_env \<Rightarrow> bool" where
  "env_laws E \<longleftrightarrow> json_laws (jlib E) \<and> (\<forall>j. json_parse E (json_dump E j) = Some j)"

fun deliver :: "Config \<Rightarrow> ('s, 'j) coord_env \<Rightarrow> ('s \<times> Message) list \<Rightarrow> 's Coordinator \<Rightarrow> ('s Coordinator \<times> 's session_op list) option" where
  "deliver cfg E [] st = Some (st, [])"
| "deliver cfg E ((s, m) # ms) st = do {
     (st, out) \<leftarrow> Coordinator_HandleRecvMessage cfg E s m st;
     (st, outs) \<leftarrow> deliver cfg E ms st;
     Some (st, out @ outs)
   }"

definition join_replies :: "('s, 'j) coord_env \<Rightarrow> 's list \<Rightarrow> IndexManager \<Rightarrow> 's session_op list" where
  "join_replies E ss im = map (\<lambda>i. Async_send (ss ! i)
     (reply E [(''id'', json_num (jlib E) (int i)), (''index_manager'', to_json_IndexManager (jlib E) im)])) [0..<length ss]"

lemma join_one:
  assumes wc: "wf_config cfg" and E: "env_laws E" and jn: "joined cfg Q A (index_manager st)"
    and st: "num_servers st = length Q" "next_server_id st = length Q" "length (sessions st) = length Q"
    and n: "length Q < kNumServers cfg" and ia: "fits_Address ia"
    and qs: "kNumTabletAndBackupsPerServer cfg * kNumReplicas cfg \<le> length qs"
  shows "\<exists>im. joined cfg (Q @ [qs]) (A @ [(GetPeerAddr E s, ia)]) im \<and>
    Coordinator_HandleRecvMessage cfg E s (join_request E sz ia qs) st =
      Some (st\<lparr>index_manager := im, next_server_id := length Q + 1, num_servers := length Q + 1,
              sessions := (if length Q + 1 = kNumServers cfg then [] else sessions st @ [s]),
              total_storage := total_storage st + sz\<rparr>,
            if length Q + 1 = kNumServers cfg then join_replies E (sessions st @ [s]) im else [])"
proof -
  have L: "json_laws (jlib E)" and pd: "\<And>j. json_parse E (json_dump E j) = Some j"
    using E by (simp_all add: env_laws_def)
  note lib = json_library.intro [OF L]
  have q: "map_all (from_json_QueuePairInfo (jlib E)) (map (to_json_QueuePairInfo (jlib E)) qs) = Some qs"
    using map_all_map [of qs "from_json_QueuePairInfo (jlib E)" "to_json_QueuePairInfo (jlib E)" id]
    by (simp add: json_library.QueuePairInfo_roundtrip [OF lib])
  obtain si im where add: "AddServer cfg (length Q) (GetPeerAddr E s) ia qs (index_manager st) = Some (si, length Q + 1, im)"
    and im: "joined cfg (Q @ [qs]) (A @ [(GetPeerAddr E s, ia)]) im"
    using AddServer_joined [OF wc jn n qs] by blast
  have "Coordinator_HandleRecvMessage cfg E s (join_request E sz ia qs) st =
    HandleServerRequestJoin cfg E s (join_request E sz ia qs) st"
    by (simp add: Coordinator_HandleRecvMessage_def HandleMessageFromServer_def join_request_def make_Message_def)
  also have "\<dots> = Some (st\<lparr>index_manager := im, next_server_id := length Q + 1, num_servers := length Q + 1,
              sessions := (if length Q + 1 = kNumServers cfg then [] else sessions st @ [s]),
              total_storage := total_storage st + sz\<rparr>,
            if length Q + 1 = kNumServers cfg then join_replies E (sessions st @ [s]) im else [])"
    using n st add q
    by (simp add: HandleServerRequestJoin_def join_request_def make_Message_def pd at_word_def at_list_def
        json_lawsD [OF L] json_library.Address_roundtrip [OF lib ia] ResponseAllJoins_def join_replies_def Let_def)
  finally show ?thesis
    using im by blast
qed

record 's joiner =
  j_session :: 's
  j_size :: u64
  j_addr :: Address
  j_qpis :: "QueuePairInfo list"

definition joiner_msg :: "('s, 'j) coord_env \<Rightarrow> 's joiner \<Rightarrow> 's \<times> Message" where
  "joiner_msg E r = (j_session r, join_request E (j_size r) (j_addr r) (j_qpis r))"

definition wf_joiner :: "Config \<Rightarrow> 's joiner \<Rightarrow> bool" where
  "wf_joiner cfg r \<longleftrightarrow> fits_Address (j_addr r)
     \<and> kNumTabletAndBackupsPerServer cfg * kNumReplicas cfg \<le> length (j_qpis r)"

lemma deliver_joins:
  assumes wc: "wf_config cfg" and E: "env_laws E"
    and rs: "\<forall>r\<in>set rs. wf_joiner cfg r" "rs \<noteq> []"
    and jn: "joined cfg Q A (index_manager st)"
    and st: "num_servers st = length Q" "next_server_id st = length Q" "length (sessions st) = length Q"
    and n: "length Q + length rs = kNumServers cfg"
  shows "\<exists>im. joined cfg (Q @ map j_qpis rs) (A @ map (\<lambda>r. (GetPeerAddr E (j_session r), j_addr r)) rs) im \<and>
    deliver cfg E (map (joiner_msg E) rs) st =
      Some (st\<lparr>index_manager := im, next_server_id := kNumServers cfg, num_servers := kNumServers cfg,
              sessions := [], total_storage := total_storage st + sum_list (map j_size rs)\<rparr>,
            join_replies E (sessions st @ map j_session rs) im)"
  using rs jn st n
proof (induction rs arbitrary: Q A st)
  case (Cons r rs)
  have lt: "length Q < kNumServers cfg"
    using Cons.prems(7) by simp
  obtain im where im: "joined cfg (Q @ [j_qpis r]) (A @ [(GetPeerAddr E (j_session r), j_addr r)]) im"
    and step: "Coordinator_HandleRecvMessage cfg E (j_session r) (join_request E (j_size r) (j_addr r) (j_qpis r)) st =
      Some (st\<lparr>index_manager := im, next_server_id := length Q + 1, num_servers := length Q + 1,
              sessions := (if length Q + 1 = kNumServers cfg then [] else sessions st @ [j_session r]),
              total_storage := total_storage st + j_size r\<rparr>,
            if length Q + 1 = kNumServers cfg then join_replies E (sessions st @ [j_session r]) im else [])"
    using join_one [OF wc E Cons.prems(3-6) lt, of "j_addr r" "j_qpis r" "j_session r" "j_size r"] Cons.prems(1)
    unfolding wf_joiner_def by auto
  show ?case
  proof (cases "rs = []")
    case True
    then show ?thesis
      using im step Cons.prems(7) by (auto simp: joiner_msg_def)
  next
    case False
    let ?st = "st\<lparr>index_manager := im, next_server_id := length Q + 1, num_servers := length Q + 1,
              sessions := sessions st @ [j_session r], total_storage := total_storage st + j_size r\<rparr>"
    have "length Q + 1 \<noteq> kNumServers cfg"
      using False Cons.prems(7) by (cases rs) simp_all
    with Cons.IH [of "Q @ [j_qpis r]" "A @ [(GetPeerAddr E (j_session r), j_addr r)]" ?st] step im False Cons.prems
    show ?thesis
      by (auto simp: joiner_msg_def add.assoc)
  qed
qed simp

text \<open>
  C21: When as many servers as configured send their join requests to a coordinator that has just
  started, it answers none of them before the last, then answers each, in the order of joining,
  with its number and one and the same index; the index is complete, and the storage is the sum
  of theirs.
\<close>

theorem cluster_join:
  assumes "wf_config cfg" "env_laws E" "wf_index cfg im0"
    "length rs = kNumServers cfg" "\<forall>r\<in>set rs. wf_joiner cfg r"
  shows "\<exists>st im. deliver cfg E (map (joiner_msg E) rs) (coord_init im0) = Some (st, join_replies E (map j_session rs) im)
    \<and> index_manager st = im \<and> num_servers st = kNumServers cfg \<and> sessions st = []
    \<and> total_storage st = sum_list (map j_size rs)
    \<and> (\<forall>i<kNumServers cfg. ib_addr (im_servers im ! i) = j_addr (rs ! i)
        \<and> (\<forall>k<kNumTabletsPerServer cfg. wired cfg im i k))"
proof -
  have "rs \<noteq> []"
    using assms(1,4) by (auto simp: wf_config_def)
  moreover have "joined cfg [] [] (index_manager (coord_init im0 :: 'a Coordinator))"
    using assms(3) by (simp add: joined_def coord_init_def)
  ultimately obtain im where
    im: "joined cfg (map j_qpis rs) (map (\<lambda>r. (GetPeerAddr E (j_session r), j_addr r)) rs) im"
    and d: "deliver cfg E (map (joiner_msg E) rs) (coord_init im0) =
      Some ((coord_init im0)\<lparr>index_manager := im, next_server_id := kNumServers cfg, num_servers := kNumServers cfg,
              sessions := [], total_storage := sum_list (map j_size rs)\<rparr>,
            join_replies E (map j_session rs) im)"
    using deliver_joins [OF assms(1,2,5), of "[]" "[]" "coord_init im0"] assms(4) by (auto simp: coord_init_def)
  have "ib_addr (im_servers im ! i) = j_addr (rs ! i)" if "i < kNumServers cfg" for i
    using im that assms(4) by (auto simp: joined_def server_known_def Let_def)
  then show ?thesis
    using d joined_wired [OF assms(1) im] assms(4) by auto
qed

text \<open>
  C23: The request of a client is answered with the index, without changing the coordinator, once
  all servers have joined; before that it ends the coordinator. A surplus server is ignored
  without an answer.
\<close>

theorem late_joins:
  assumes "env_laws E"
  shows "Coordinator_HandleRecvMessage cfg E s
      (make_Message \<lparr>sender_type = sender_code CLIENT, msg_type = type_code REQ_JOIN, body_len = 0\<rparr> b) st =
        (if num_servers st = kNumServers cfg
         then Some (st, [Async_send s (reply E [(''index_manager'', to_json_IndexManager (jlib E) (index_manager st))])])
         else None)
    \<and> (kNumServers cfg \<le> num_servers st \<longrightarrow>
        Coordinator_HandleRecvMessage cfg E s (join_request E sz ia qs) st = Some (st, []))"
  using assms
  by (simp add: Coordinator_HandleRecvMessage_def HandleMessageFromClient_def HandleClientRequestJoin_def
      HandleMessageFromServer_def HandleServerRequestJoin_def join_request_def make_Message_def env_laws_def
      at_word_def json_lawsD)

section \<open>A two-server cluster\<close>

definition byte_env :: "(nat, u8 list) coord_env" where
  "byte_env = \<lparr>GetPeerAddr = (\<lambda>s. if s = 0 then ''10.0.0.1'' else ''10.0.0.2''), jlib = byte_json,
     json_parse = Some, json_dump = id\<rparr>"

definition blank_tablet :: TabletInfo where
  "blank_tablet = \<lparr>tablet_id = 0, server_id = 0, is_backup = False, qpis = [], backups = [0]\<rparr>"

definition blank_index :: IndexManager where
  "blank_index = \<lparr>key_tablet_map = [0, 0], im_tablets = replicate 4 blank_tablet,
     im_servers = replicate 2 \<lparr>info_id = 0, active = False, addr = [],
        ib_addr = \<lparr>ib_port = 0, addr_lid = 0, addr_qpn = 0\<rparr>, tablets = [0, 0]\<rparr>\<rparr>"

definition two_joiners :: "nat joiner list" where
  "two_joiners = map (\<lambda>s. \<lparr>j_session = s, j_size = 142217792,
     j_addr = \<lparr>ib_port = 1, addr_lid = of_nat s + 3, addr_qpn = 70\<rparr>,
     j_qpis = [\<lparr>qpi_lid = 3, qpi_qpn = 71, qpi_psn = 33, qpi_rkey = 9, qpi_vaddr = 4096\<rparr>,
               \<lparr>qpi_lid = 3, qpi_qpn = 72, qpi_psn = 33, qpi_rkey = 9, qpi_vaddr = 8192\<rparr>]\<rparr>) [0, 1]"

lemma wf_nvds_config: "wf_config nvds_config"
  by (simp add: wf_config_def nvds_config_def)

lemma byte_env_laws: "env_laws byte_env"
  using bj.laws by (simp add: env_laws_def byte_env_def)

lemma wf_blank_index: "wf_index nvds_config blank_index"
  by (simp add: wf_index_def nvds_config_def blank_index_def blank_tablet_def kNumTablets_def
      kNumTabletAndBackups_def kNumTabletAndBackupsPerServer_def)

lemma coordinator_invariant_example:
  "num_servers (coord_init blank_index :: nat Coordinator) = 0 \<and>
   next_server_id (coord_init blank_index :: nat Coordinator) = 0 \<and> sessions (coord_init blank_index :: nat Coordinator) = []"
proof -
  have "coord_reachable nvds_config byte_env (coord_init blank_index)"
    by (rule coord_reachable.init [OF wf_blank_index])
  from coordinator_invariant [OF wf_nvds_config this] show ?thesis
    by (simp add: coord_init_def nvds_config_def)
qed

theorem cluster_join_witness:
  "\<exists>st im. deliver nvds_config byte_env (map (joiner_msg byte_env) two_joiners) (coord_init blank_index) =
      Some (st, join_replies byte_env [0, 1] im)
    \<and> num_servers st = 2 \<and> wired nvds_config im 0 0 \<and> wired nvds_config im 1 0"
proof -
  have "length two_joiners = kNumServers nvds_config" "\<forall>r\<in>set two_joiners. wf_joiner nvds_config r"
    by (simp_all add: two_joiners_def nvds_config_def wf_joiner_def fits_Address_def kNumTabletAndBackupsPerServer_def)
  from cluster_join [OF wf_nvds_config byte_env_laws wf_blank_index this] obtain st im where
    st: "deliver nvds_config byte_env (map (joiner_msg byte_env) two_joiners) (coord_init blank_index) =
      Some (st, join_replies byte_env (map j_session two_joiners) im)" "num_servers st = kNumServers nvds_config"
    and w: "\<forall>i<kNumServers nvds_config. \<forall>k<kNumTabletsPerServer nvds_config. wired nvds_config im i k"
    by blast
  have c: "map j_session two_joiners = [0, 1]" "kNumServers nvds_config = 2" "kNumTabletsPerServer nvds_config = 1"
    by (simp_all add: two_joiners_def nvds_config_def)
  show ?thesis
    by (intro exI [of _ st] exI [of _ im] conjI) (use st w in \<open>simp_all add: c\<close>)
qed

theorem late_joins_witness:
  "Coordinator_HandleRecvMessage nvds_config byte_env 5
     (make_Message \<lparr>sender_type = sender_code CLIENT, msg_type = type_code REQ_JOIN, body_len = 0\<rparr> []) (coord_init blank_index) = None"
  using late_joins [OF byte_env_laws, of nvds_config 5 "[]" "coord_init blank_index"]
  by (simp add: coord_init_def nvds_config_def)

end
