(* ===== verification/Event_Loop.thy ===== *)
theory Event_Loop
  imports Coordinator "HOL-Library.Multiset"
begin

text \<open>
  The event loop of the coordinator: \<^verbatim>\<open>BasicServer::Accept\<close> of \<^verbatim>\<open>basic_server.cc\<close>, \<^verbatim>\<open>Session::Start\<close>
  and \<^verbatim>\<open>Coordinator::Run\<close>. The service keeps the asynchronous operations that have been started and
  runs the handler of whichever completes next, one at a time.
\<close>

section \<open>The service\<close>

record 's service =
  accepts :: nat
  started :: "'s session_op multiset"
  coord :: "'s Coordinator"
  known :: "'s set"

definition Session_Start :: "'s \<Rightarrow> 's session_op" where
  "Session_Start s = Async_recv s"

definition BasicServer_Accept :: "'s service \<Rightarrow> 's service" where
  "BasicServer_Accept S = S\<lparr>accepts := accepts S + 1\<rparr>"

text \<open>The handler of a completed accept: the socket makes a new session; an error is logged.\<close>

definition accept_handler :: "'s option \<Rightarrow> 's service \<Rightarrow> 's service" where
  "accept_handler sock S = BasicServer_Accept (case sock of
     Some s \<Rightarrow> S\<lparr>started := add_mset (Session_Start s) (started S), known := insert s (known S)\<rparr>
   | None \<Rightarrow> S)"

definition Coordinator_Run :: "IndexManager \<Rightarrow> 's service" where
  "Coordinator_Run im = BasicServer_Accept \<lparr>accepts = 0, started = {#}, coord = coord_init im, known = {}\<rparr>"

text \<open>
  One completion. An accepted connection is a new one. A receive may deliver any message; a handler
  that fails ends the program, so there is no step. A receive or send that fails is logged, and the
  session is gone when nothing refers to it any more.
\<close>

inductive service_step :: "Config \<Rightarrow> ('s, 'j) coord_env \<Rightarrow> 's service \<Rightarrow> 's service \<Rightarrow> bool" for cfg E where
  accepted: "0 < accepts S \<Longrightarrow> s \<notin> known S \<Longrightarrow> service_step cfg E S (accept_handler (Some s) (S\<lparr>accepts := accepts S - 1\<rparr>))"
| refused: "0 < accepts S \<Longrightarrow> service_step cfg E S (accept_handler None (S\<lparr>accepts := accepts S - 1\<rparr>))"
| received: "Async_recv s \<in># started S \<Longrightarrow> Coordinator_HandleRecvMessage cfg E s msg (coord S) = Some (st, out) \<Longrightarrow>
    service_step cfg E S (S\<lparr>started := started S - {#Async_recv s#} + mset out, coord := st\<rparr>)"
| sent: "Async_send s msg \<in># started S \<Longrightarrow> Coordinator_HandleSendMessage s msg (coord S) = (st, out) \<Longrightarrow>
    service_step cfg E S (S\<lparr>started := started S - {#Async_send s msg#} + mset out, coord := st\<rparr>)"
| failed: "op \<in># started S \<Longrightarrow> service_step cfg E S (S\<lparr>started := started S - {#op#}\<rparr>)"

inductive service_reach :: "Config \<Rightarrow> ('s, 'j) coord_env \<Rightarrow> 's service \<Rightarrow> bool" for cfg E where
  run: "wf_index cfg im \<Longrightarrow> service_reach cfg E (Coordinator_Run im)"
| step: "service_reach cfg E S \<Longrightarrow> service_step cfg E S S' \<Longrightarrow> service_reach cfg E S'"

section \<open>One operation per session\<close>

fun op_session :: "'s session_op \<Rightarrow> 's" where
  "op_session (Async_send s m) = s"
| "op_session (Async_recv s) = s"

definition ops_of :: "'s \<Rightarrow> 's session_op multiset \<Rightarrow> nat" where
  "ops_of s M = count (image_mset op_session M) s"

text \<open>What goes on in a session: its operations, and the replies it is still to get.\<close>

definition activity :: "'s service \<Rightarrow> 's \<Rightarrow> nat" where
  "activity S s = ops_of s (started S) + count_list (sessions (coord S)) s"

lemma ops_of_simps [simp]:
  "ops_of s {#} = 0" "ops_of s (add_mset op M) = (if op_session op = s then 1 else 0) + ops_of s M" "ops_of s (M + N) = ops_of s M + ops_of s N"
  by (simp_all add: ops_of_def)

lemma ops_of_remove: "op \<in># M \<Longrightarrow> ops_of s (M - {#op#}) = ops_of s M - (if op_session op = s then 1 else 0)"
  by (auto simp: ops_of_def image_mset_Diff)

lemma ops_of_member: "op \<in># M \<Longrightarrow> 0 < ops_of (op_session op) M"
  by (simp add: ops_of_def)

lemma ops_of_sends: "ops_of s (mset (map (\<lambda>i. Async_send (xs ! i) (f i)) [0..<length xs])) = count_list xs s"
proof -
  have "image_mset op_session (mset (map (\<lambda>i. Async_send (xs ! i) (f i)) [0..<length xs])) = mset (map ((!) xs) [0..<length xs])"
    by (simp add: image_mset.compositionality comp_def)
  then show ?thesis
    by (simp add: ops_of_def map_nth count_mset)
qed

text \<open>A handler starts operations only for sessions that wait, and for its own.\<close>

lemma handler_activity:
  assumes "Coordinator_HandleRecvMessage cfg E s m st = Some (st', out)"
  shows "ops_of u (mset out) + count_list (sessions st') u \<le> count_list (sessions st) u + (if u = s then 1 else 0)"
proof -
  have join: ?thesis if "HandleServerRequestJoin cfg E s m st = Some (st', out)"
    using that ops_of_sends [of u "sessions st @ [s]"]
    by (auto simp: HandleServerRequestJoin_def ResponseAllJoins_def Let_def simp del: upt_Suc split: bind_splits if_splits prod.splits)
  show ?thesis
    using assms join
    by (auto simp: Coordinator_HandleRecvMessage_def HandleMessageFromServer_def HandleMessageFromClient_def HandleClientRequestJoin_def
        Let_def split: if_splits bind_splits)
qed

definition service_inv :: "'s service \<Rightarrow> bool" where
  "service_inv S \<longleftrightarrow> accepts S = 1 \<and> (\<forall>s. activity S s \<le> 1 \<and> (s \<notin> known S \<longrightarrow> activity S s = 0))"

lemma service_inv_step:
  assumes "service_step cfg E S S'" "service_inv S"
  shows "service_inv S'"
  using assms(1)
proof cases
  case (received s m st out)
  have "activity S' u \<le> activity S u" for u
    using handler_activity [OF received(3), of u] ops_of_member [OF received(2)] received(1)
    by (auto simp: activity_def ops_of_remove [OF received(2)])
  moreover have "accepts S' = accepts S" "known S' = known S"
    using received(1) by simp_all
  ultimately show ?thesis
    using assms(2) unfolding service_inv_def by (metis le_trans le_zero_eq)
next
  case (sent s m st out)
  have "activity S' u = activity S u" for u
    using sent ops_of_member [OF sent(2)] by (auto simp: activity_def ops_of_remove [OF sent(2)] Coordinator_HandleSendMessage_def)
  then show ?thesis
    using sent(1) assms(2) by (simp add: service_inv_def)
next
  case (failed op)
  have "activity S' u \<le> activity S u" for u
    using failed by (simp add: activity_def ops_of_remove)
  moreover have "accepts S' = accepts S" "known S' = known S"
    using failed(1) by simp_all
  ultimately show ?thesis
    using assms(2) unfolding service_inv_def by (metis le_trans le_zero_eq)
qed (use assms(2) in \<open>auto simp: service_inv_def accept_handler_def BasicServer_Accept_def Session_Start_def activity_def\<close>)

lemma service_reach_inv: "service_reach cfg E S \<Longrightarrow> service_inv S"
proof (induction rule: service_reach.induct)
  case (run im)
  then show ?case
    by (simp add: service_inv_def Coordinator_Run_def BasicServer_Accept_def activity_def coord_init_def)
qed (use service_inv_step in blast)

lemma service_coord: "service_reach cfg E S \<Longrightarrow> coord_reachable cfg E (coord S)"
proof (induction rule: service_reach.induct)
  case (run im)
  then show ?case
    by (simp add: Coordinator_Run_def BasicServer_Accept_def coord_reachable.init)
next
  case (step S S')
  from step.hyps(2) step.IH show ?case
    by cases (auto simp: accept_handler_def BasicServer_Accept_def split: option.splits intro: coord_reachable.recv coord_reachable.sent)
qed

text \<open>
  C20: Whatever connections are made, whatever messages arrive and whichever operations fail, in every
  state of a running coordinator exactly one accept is outstanding, and each session has at most
  one operation under way or is waiting for its reply, never both: no two reads and no two writes
  of a socket overlap. It has admitted at most \<^verbatim>\<open>kNumServers\<close> servers, has given out as many
  numbers, and keeps the session of every admitted server until all have joined; from then on it
  keeps no session and every master tablet is in the key map, held by its server and backed up once
  on each of the next servers, which agree about their master.
\<close>

theorem coordinator_service:
  assumes "wf_config cfg" "service_reach cfg E S"
  shows "accepts S = 1 \<and> (\<forall>s. activity S s \<le> 1)
    \<and> num_servers (coord S) \<le> kNumServers cfg \<and> next_server_id (coord S) = num_servers (coord S)
    \<and> (num_servers (coord S) < kNumServers cfg \<longrightarrow> length (sessions (coord S)) = num_servers (coord S))
    \<and> (num_servers (coord S) = kNumServers cfg \<longrightarrow> sessions (coord S) = [] \<and>
        (\<forall>i<kNumServers cfg. \<forall>k<kNumTabletsPerServer cfg. wired cfg (index_manager (coord S)) i k))"
  using service_reach_inv [OF assms(2)] coordinator_invariant [OF assms(1) service_coord [OF assms(2)]]
  by (simp add: service_inv_def)

text \<open>One connection is made.\<close>

definition one_session :: "nat service" where
  "one_session = \<lparr>accepts = 1, started = {#Async_recv 3#}, coord = coord_init blank_index, known = {3}\<rparr>"

lemma one_session_reach: "service_reach nvds_config byte_env one_session"
proof -
  have "service_step nvds_config byte_env (Coordinator_Run blank_index) one_session"
    using service_step.accepted [of "Coordinator_Run blank_index" 3 nvds_config byte_env]
    by (simp add: Coordinator_Run_def BasicServer_Accept_def accept_handler_def Session_Start_def one_session_def)
  then show ?thesis
    by (rule service_reach.step [OF service_reach.run [OF wf_blank_index]])
qed

theorem coordinator_service_witness: "activity one_session 3 = 1 \<and> accepts one_session = 1 \<and> num_servers (coord one_session) \<le> 2"
proof -
  have "0 < activity one_session 3"
    by (simp add: activity_def one_session_def)
  then show ?thesis
    using coordinator_service [OF wf_nvds_config one_session_reach] by (auto simp: nvds_config_def le_less_Suc_eq intro: order_antisym)
qed

end
