(* ===== verification/Write_Log.thy ===== *)
theory Write_Log
  imports Tablet
begin

text \<open>
  Everything the allocator and the tablet write is recorded: after an operation the modification
  list is the one installed before, followed by ranges inside the tablet that cover every byte
  the operation changed. The exception is the \<^verbatim>\<open>memset\<close> of \<^verbatim>\<open>Format\<close>.
\<close>

definition in_range :: "Allocator \<Rightarrow> Modification \<Rightarrow> bool" where
  "in_range s m \<longleftrightarrow> unat (des m) + unat (len m) \<le> kNVMTabletSize \<and> src m = nvm_base s + ucast (des m)"

definition logged :: "Allocator \<Rightarrow> Allocator \<Rightarrow> bool" where
  "logged s s' \<longleftrightarrow> nvm_base s' = nvm_base s \<and>
     (\<exists>ms. modifications s' = modifications s @ ms \<and> (\<forall>m\<in>set ms. in_range s m)
        \<and> (\<forall>i. nvm_data s' i \<noteq> nvm_data s i \<longrightarrow> (\<exists>m\<in>set ms. covers m i)))"

lemma logged_refl [simp]: "logged s s"
  by (simp add: logged_def)

lemma logged_trans [trans]:
  assumes "logged s s'" "logged s' s''"
  shows "logged s s''"
proof -
  obtain ms where ms: "modifications s' = modifications s @ ms" "\<forall>m\<in>set ms. in_range s m"
      "\<forall>i. nvm_data s' i \<noteq> nvm_data s i \<longrightarrow> (\<exists>m\<in>set ms. covers m i)" "nvm_base s' = nvm_base s"
    using assms(1) unfolding logged_def by blast
  obtain ms' where ms': "modifications s'' = modifications s' @ ms'" "\<forall>m\<in>set ms'. in_range s' m"
      "\<forall>i. nvm_data s'' i \<noteq> nvm_data s' i \<longrightarrow> (\<exists>m\<in>set ms'. covers m i)" "nvm_base s'' = nvm_base s'"
    using assms(2) unfolding logged_def by blast
  have "\<exists>m\<in>set (ms @ ms'). covers m i" if "nvm_data s'' i \<noteq> nvm_data s i" for i
    using ms(3) ms'(3) that by (metis in_set_conv_decomp set_append Un_iff)
  moreover have "\<forall>m\<in>set (ms @ ms'). in_range s m"
    using ms(2,4) ms'(2) by (auto simp: in_range_def)
  ultimately show ?thesis
    using ms ms' unfolding logged_def by (intro conjI exI [of _ "ms @ ms'"]) simp_all
qed

lemma log_write_logged:
  assumes "in_tablet off (length bs)"
  shows "logged s (log_write s off bs)"
proof -
  let ?m = "\<lparr>des = off, len = of_nat (length bs), src = nvm_base s + ucast off\<rparr>"
  have n: "unat (of_nat (length bs) :: u32) = length bs"
    using assms by (intro unat_of_nat_u32) (simp add: in_tablet_def kNVMTabletSize_def)
  have "covers ?m i" if "nvm_data (log_write s off bs) i \<noteq> nvm_data s i" for i
    using that n by (simp add: log_write_def write_bytes_def covers_def split: if_splits)
  moreover have "in_range s ?m"
    using assms n by (simp add: in_range_def in_tablet_def)
  ultimately show ?thesis
    unfolding logged_def by (intro conjI exI [of _ "[?m]"]) (auto simp: log_write_def)
qed

lemma logged_cnt [simp]: "logged s (s'\<lparr>cnt_writes := n\<rparr>) = logged s s'"
  by (simp add: logged_def)

lemma Write_logged: "Write s off bs = Some s' \<Longrightarrow> logged s s'"
  by (auto simp: Write_def ensure_def log_write_logged split: if_splits bind_splits)

lemma Memcpy_in_logged: "Memcpy_in s off bs = Some s' \<Longrightarrow> logged s s'"
  by (auto simp: Memcpy_in_def ensure_def log_write_logged split: if_splits bind_splits)

section \<open>The allocator\<close>

lemma SetTheFreeTag_logged: "SetTheFreeTag s b n = Some s' \<Longrightarrow> logged s s'"
  by (auto simp: SetTheFreeTag_def Let_def intro: Write_logged split: bind_splits)

lemma ResetTheFreeTag_logged: "ResetTheFreeTag s b n = Some s' \<Longrightarrow> logged s s'"
  by (auto simp: ResetTheFreeTag_def Let_def intro: Write_logged split: bind_splits)

lemmas step_logged = Write_logged Memcpy_in_logged SetTheFreeTag_logged ResetTheFreeTag_logged

text \<open>In a chain of logged steps every state has one predecessor.\<close>

lemmas logged_back = logged_trans [rotated]

lemma RemoveBlock_logged: "RemoveBlock s b n = Some s' \<Longrightarrow> logged s s'"
  by (auto simp: RemoveBlock_def dest!: step_logged intro: logged_trans split: bind_splits if_splits)

lemma SplitBlock_logged: "SplitBlock s b n k = Some (p, s') \<Longrightarrow> logged s s'"
  by (auto simp: SplitBlock_def Let_def dest!: step_logged split: bind_splits if_splits)
    ((rule logged_back, assumption)+, rule logged_refl)+

lemma AllocBlock_logged: "AllocBlock s n = Some (p, s') \<Longrightarrow> logged s s'"
  by (auto simp: AllocBlock_def dest!: step_logged SplitBlock_logged split: bind_splits if_splits)
    ((rule logged_back, assumption)+, rule logged_refl)+

lemma Alloc_logged: "Alloc s n = Some (p, s') \<Longrightarrow> logged s s'"
  by (auto simp: Alloc_def dest!: AllocBlock_logged split: bind_splits if_splits)

text \<open>The conditional steps of \<^verbatim>\<open>FreeBlock\<close>.\<close>

lemma merge_logged:
  "(if c then do { t \<leftarrow> RemoveBlock s a n; Some (t, x) } else Some (s, y)) = Some (s', z) \<Longrightarrow> logged s s'"
  by (auto dest!: RemoveBlock_logged split: if_splits bind_splits)

lemma resize_logged:
  "(if c then do { tag \<leftarrow> ReadThePrevFreeTag s a; t \<leftarrow> Write32 s b (f tag); Write32 t d n } else Some s) = Some s' \<Longrightarrow> logged s s'"
  by (auto dest!: Write_logged intro: logged_trans split: if_splits bind_splits)

lemma relink_logged: "(if c then Write32 s a n else Some s) = Some s' \<Longrightarrow> logged s s'"
  by (auto dest!: Write_logged split: if_splits)

text \<open>Taking a sequence of binds apart from the outside, its conditional steps kept whole.\<close>

lemma bind_SomeE:
  assumes "m \<bind> f = Some y"
  obtains x where "m = Some x" "f x = Some y"
  using assms by (cases m) auto

lemma bind_Some2E:
  assumes "m \<bind> (\<lambda>(a, b). f a b) = Some y"
  obtains a b where "m = Some (a, b)" "f a b = Some y"
  using assms by (cases m) auto

lemma bind_Some3E:
  assumes "m \<bind> (\<lambda>(a, b, c). f a b c) = Some y"
  obtains a b c where "m = Some (a, b, c)" "f a b c = Some y"
  using assms by (cases m) auto

lemma FreeBlock_logged: "FreeBlock s b = Some s' \<Longrightarrow> logged s s'"
  unfolding FreeBlock_def Let_def
  by (elim bind_Some3E bind_Some2E bind_SomeE; drule merge_logged; drule merge_logged; drule resize_logged;
      drule relink_logged; (drule step_logged)+; ((rule logged_back, assumption)+, rule logged_refl))

lemma Free_logged: "Free s p = Some s' \<Longrightarrow> logged s s'"
  by (auto simp: Free_def intro: FreeBlock_logged split: bind_splits)

section \<open>The tablet\<close>

lemma store_object_logged: "store_object s r nx q = Some s' \<Longrightarrow> logged s s'"
  by (auto simp: store_object_def dest!: step_logged Alloc_logged split: bind_splits prod.splits)
    ((rule logged_back, assumption)+, rule logged_refl)+

lemma Put_logged: "Put s r ms = Some (st, s') \<Longrightarrow> logged (set_modifications s ms) s'"
  by (auto simp: Put_def Let_def dest!: step_logged store_object_logged Free_logged split: bind_splits if_splits prod.splits)
    ((rule logged_back, assumption)+, rule logged_refl)+

lemma Add_logged: "Add s r ms = Some (st, s') \<Longrightarrow> logged (set_modifications s ms) s'"
  by (auto simp: Add_def Let_def dest!: store_object_logged split: bind_splits if_splits prod.splits)

lemma Get_logged: "Get s r ms = Some (st, v, s') \<Longrightarrow> s' = set_modifications s ms"
  by (auto simp: Get_def Let_def split: bind_splits if_splits prod.splits)

lemma del_step_logged: "del_step s r q p = Some (Inl s') \<Longrightarrow> logged s s'"
  by (auto simp: del_step_def dest!: step_logged Free_logged split: bind_splits if_splits)
    ((rule logged_back, assumption)+, rule logged_refl)+

lemma del_loop_logged: "del_loop s r q p = Some (st, s') \<Longrightarrow> logged s s'"
proof -
  assume run: "del_loop s r q p = Some (st, s')"
  have "logged s (snd (st, s'))"
  proof (rule del_loop.raw_induct [where P = "\<lambda>s _ _ _ y. logged s (snd y)", rotated, OF run])
    fix f s r q p y
    assume ih: "\<And>s r q p y. f s r q p = Some y \<Longrightarrow> logged s (snd y)"
      and body: "(if p = 0 then Some (ERROR, s)
        else do { x \<leftarrow> del_step s r q p; case x of Inl s' \<Rightarrow> Some (OK, s') | Inr p' \<Rightarrow> f s r q p' }) = Some y"
    then show "logged s (snd y)"
      by (auto dest: del_step_logged split: if_splits bind_splits sum.splits)
  qed
  then show ?thesis
    by simp
qed

lemma Del_logged: "Del s r ms = Some (st, s') \<Longrightarrow> logged (set_modifications s ms) s'"
  by (auto simp: Del_def Let_def dest!: del_loop_logged split: bind_splits)

end
