(* ===== verification/Verbs.thy ===== *)
theory Verbs
  imports Programs
begin

text \<open>
  Programs that call the Infiniband verbs and the socket library. Neither is part of the
  repository, so a program runs against a \<open>platform\<close>, a record that answers every call from the
  calls made before it: a theorem about all platforms holds whatever the hardware, the peer and the
  operating system do. The state of a program is the history of its calls, newest first; a
  program ends with a value or with a failure.

  Pointers are numbers, 0 is the null pointer.
\<close>

section \<open>The vocabulary of the verbs\<close>

datatype qp_state = IBV_QPS_RESET | IBV_QPS_INIT | IBV_QPS_RTR | IBV_QPS_RTS

datatype qp_type = IBV_QPT_RC | IBV_QPT_UD

datatype qp_flag =
  IBV_QP_STATE | IBV_QP_PKEY_INDEX | IBV_QP_PORT | IBV_QP_ACCESS_FLAGS | IBV_QP_QKEY | IBV_QP_AV
| IBV_QP_PATH_MTU | IBV_QP_DEST_QPN | IBV_QP_RQ_PSN | IBV_QP_MAX_DEST_RD_ATOMIC | IBV_QP_MIN_RNR_TIMER
| IBV_QP_TIMEOUT | IBV_QP_RETRY_CNT | IBV_QP_RNR_RETRY | IBV_QP_SQ_PSN | IBV_QP_MAX_QP_RD_ATOMIC

datatype access = IBV_ACCESS_LOCAL_WRITE | IBV_ACCESS_REMOTE_READ | IBV_ACCESS_REMOTE_WRITE

datatype wr_opcode = IBV_WR_SEND | IBV_WR_RDMA_WRITE | IBV_WR_RDMA_READ

datatype send_flag = IBV_SEND_SIGNALED | IBV_SEND_INLINE

record ah_attr =
  is_global :: nat
  dlid :: u16
  sl :: nat
  src_path_bits :: nat
  ah_port_num :: nat

record qp_attr =
  qp_state :: qp_state
  pkey_index :: nat
  port_num :: nat
  qkey :: u32
  qp_access_flags :: "access set"
  path_mtu :: nat
  dest_qp_num :: u32
  rq_psn :: u32
  sq_psn :: u32
  max_dest_rd_atomic :: nat
  min_rnr_timer :: nat
  av :: ah_attr
  qp_timeout :: nat
  retry_cnt :: nat
  rnr_retry :: nat
  max_rd_atomic :: nat

definition ah_attr0 :: ah_attr where
  "ah_attr0 = \<lparr>is_global = 0, dlid = 0, sl = 0, src_path_bits = 0, ah_port_num = 0\<rparr>"

definition qp_attr0 :: qp_attr where
  "qp_attr0 = \<lparr>qp_state = IBV_QPS_RESET, pkey_index = 0, port_num = 0, qkey = 0, qp_access_flags = {},
     path_mtu = 0, dest_qp_num = 0, rq_psn = 0, sq_psn = 0, max_dest_rd_atomic = 0, min_rnr_timer = 0,
     av = ah_attr0, qp_timeout = 0, retry_cnt = 0, rnr_retry = 0, max_rd_atomic = 0\<rparr>"

record qp_init_attr =
  init_type :: qp_type
  init_send_cq :: nat
  init_recv_cq :: nat
  max_send_wr :: nat
  max_recv_wr :: nat
  max_send_sge :: nat
  max_recv_sge :: nat
  max_inline_data :: nat
  sq_sig_all :: nat

record sge =
  sge_addr :: u64
  sge_length :: u32
  sge_lkey :: u32

text \<open>
  The address part of a work request is a union: a remote memory location for reads and writes,
  an address handle with the remote queue pair for datagrams. An inlined or scattered request
  carries its list of segments.
\<close>

datatype wr_dest = No_dest | Rdma (remote_addr: u64) (remote_rkey: u32) | Ud (ud_ah: nat) (remote_qpn: u32) (remote_qkey: u32)

record send_wr =
  wr_id :: u64
  sg_list :: "sge list"
  opcode :: wr_opcode
  send_flags :: "send_flag set"
  dest :: wr_dest

record recv_wr =
  rwr_id :: u64
  rsg_list :: "sge list"

record wc =
  wc_status :: int
  wc_id :: u64
  wc_byte_len :: u32
  wc_slid :: u16
  wc_src_qp :: u32

section \<open>Calls, platforms, programs\<close>

datatype os_call =
  Memalign nat nat | Free_mem nat
| Socket | Setsockopt int | Bind int nat | Listen int nat | Accept int
| Inet_pton string | Connect int nat | Read_sock int nat | Write_sock int "u8 list" | Close int
| Clock_gettime | Clock | Lrand48 | Sleep nat | Load u64 | Load_bytes u64 nat | Store u64 u8 | Copy_to u64 "u8 list" | Fill u64 nat u8

datatype vcall =
  Get_device_list | Open_device nat | Free_device_list nat | Close_device nat
| Alloc_pd nat | Dealloc_pd nat | Reg_mr nat nat nat "access set" | Dereg_mr nat
| Create_comp_channel nat | Create_cq nat nat | Destroy_cq nat | Create_qp nat qp_init_attr | Destroy_qp nat
| Modify_qp nat qp_attr "qp_flag set" | Query_qp nat qp_flag | Query_port nat nat
| Create_ah nat ah_attr | Destroy_ah nat
| Post_send nat "send_wr list" | Post_recv nat "recv_wr list" | Poll_cq nat nat
| Os os_call

type_synonym history = "vcall list"

record platform =
  p_int :: "history \<Rightarrow> vcall \<Rightarrow> int"
  p_ptr :: "history \<Rightarrow> vcall \<Rightarrow> nat"
  p_wc :: "history \<Rightarrow> vcall \<Rightarrow> wc"
  p_bytes :: "history \<Rightarrow> vcall \<Rightarrow> u8 list"
  p_byte :: "history \<Rightarrow> vcall \<Rightarrow> u8"
  p_attr :: "history \<Rightarrow> vcall \<Rightarrow> qp_attr"
  p_lid :: "history \<Rightarrow> vcall \<Rightarrow> u16"
  p_time :: "history \<Rightarrow> vcall \<Rightarrow> int \<times> int"
  p_lkey :: "nat \<Rightarrow> u32"
  p_rkey :: "nat \<Rightarrow> u32"
  p_qp_num :: "nat \<Rightarrow> u32"

datatype failure = Assertion_failed | Transport_exception int | Exited string | Undefined_behaviour | Out_of_fuel

type_synonym 'a vprog = "history \<Rightarrow> (failure + 'a) \<times> history"

definition ret :: "'a \<Rightarrow> 'a vprog" where
  "ret x = (\<lambda>tr. (Inr x, tr))"

definition fail :: "failure \<Rightarrow> 'a vprog" where
  "fail e = (\<lambda>tr. (Inl e, tr))"

definition bindv :: "'a vprog \<Rightarrow> ('a \<Rightarrow> 'b vprog) \<Rightarrow> 'b vprog" where
  "bindv m f = (\<lambda>tr. case m tr of (Inl e, tr') \<Rightarrow> (Inl e, tr') | (Inr x, tr') \<Rightarrow> f x tr')"

definition thenv :: "'a vprog \<Rightarrow> 'b vprog \<Rightarrow> 'b vprog" where
  "thenv m n = bindv m (\<lambda>_. n)"

definition ask :: "(history \<Rightarrow> vcall \<Rightarrow> 'a) \<Rightarrow> vcall \<Rightarrow> 'a vprog" where
  "ask f c = (\<lambda>tr. (Inr (f tr c), c # tr))"

definition nvds_expect :: "bool \<Rightarrow> string \<Rightarrow> unit vprog" where
  "nvds_expect b msg = (if b then ret () else fail (Exited msg))"

definition assertv :: "bool \<Rightarrow> unit vprog" where
  "assertv b = (if b then ret () else fail Assertion_failed)"

text \<open>A call whose result is not looked at.\<close>

definition exec :: "vcall \<Rightarrow> unit vprog" where
  "exec c = ask (\<lambda>_ _. ()) c"

text \<open>A counted loop and a busy-waiting loop, the latter with fuel.\<close>

primrec repeatv :: "nat \<Rightarrow> ('s \<Rightarrow> 's vprog) \<Rightarrow> 's \<Rightarrow> 's vprog" where
  "repeatv 0 f s = ret s"
| "repeatv (Suc n) f s = bindv (f s) (repeatv n f)"

primrec forv :: "'i list \<Rightarrow> ('i \<Rightarrow> 's \<Rightarrow> 's vprog) \<Rightarrow> 's \<Rightarrow> 's vprog" where
  "forv [] f s = ret s"
| "forv (i # is) f s = bindv (f i s) (forv is f)"

primrec spin :: "nat \<Rightarrow> 'a vprog \<Rightarrow> ('a \<Rightarrow> bool) \<Rightarrow> 'a vprog" where
  "spin 0 m ready = fail Out_of_fuel"
| "spin (Suc n) m ready = bindv m (\<lambda>x. if ready x then ret x else spin n m ready)"

section \<open>The states of queue pairs\<close>

text \<open>The state of a queue pair after a history: a successful modification moves it.\<close>

fun qp_at :: "platform \<Rightarrow> history \<Rightarrow> nat \<Rightarrow> qp_state" where
  "qp_at P [] q = IBV_QPS_RESET"
| "qp_at P (c # tr) q =
     (case c of
        Modify_qp q' a m \<Rightarrow> if q' = q \<and> p_int P tr c = 0 \<and> IBV_QP_STATE \<in> m then qp_state a else qp_at P tr q
      | Create_qp pd i \<Rightarrow> if p_ptr P tr c = q then IBV_QPS_RESET else qp_at P tr q
      | _ \<Rightarrow> qp_at P tr q)"

text \<open>
  The attributes that the transitions of the two types of queue pair require, as the manual page
  of \<^verbatim>\<open>ibv_modify_qp\<close> lists them.
\<close>

fun required :: "qp_type \<Rightarrow> qp_state \<Rightarrow> qp_flag set" where
  "required IBV_QPT_RC IBV_QPS_INIT = {IBV_QP_STATE, IBV_QP_PKEY_INDEX, IBV_QP_PORT, IBV_QP_ACCESS_FLAGS}"
| "required IBV_QPT_RC IBV_QPS_RTR = {IBV_QP_STATE, IBV_QP_AV, IBV_QP_PATH_MTU, IBV_QP_DEST_QPN, IBV_QP_RQ_PSN,
     IBV_QP_MAX_DEST_RD_ATOMIC, IBV_QP_MIN_RNR_TIMER}"
| "required IBV_QPT_RC IBV_QPS_RTS = {IBV_QP_STATE, IBV_QP_TIMEOUT, IBV_QP_RETRY_CNT, IBV_QP_RNR_RETRY, IBV_QP_SQ_PSN,
     IBV_QP_MAX_QP_RD_ATOMIC}"
| "required IBV_QPT_UD IBV_QPS_INIT = {IBV_QP_STATE, IBV_QP_PKEY_INDEX, IBV_QP_PORT, IBV_QP_QKEY}"
| "required IBV_QPT_UD IBV_QPS_RTR = {IBV_QP_STATE}"
| "required IBV_QPT_UD IBV_QPS_RTS = {IBV_QP_STATE, IBV_QP_SQ_PSN}"
| "required _ IBV_QPS_RESET = {IBV_QP_STATE}"

definition next_state :: "qp_state \<Rightarrow> qp_state \<Rightarrow> bool" where
  "next_state s s' \<longleftrightarrow> (s, s') \<in> {(IBV_QPS_RESET, IBV_QPS_INIT), (IBV_QPS_INIT, IBV_QPS_RTR), (IBV_QPS_RTR, IBV_QPS_RTS)}"

text \<open>
  A call is in order when it moves a queue pair to the next state with exactly the attributes of
  the transition, sends only on a queue pair that is ready to send, and posts receives only on one
  that has been initialised.
\<close>

definition in_order :: "qp_type \<Rightarrow> platform \<Rightarrow> history \<Rightarrow> vcall \<Rightarrow> bool" where
  "in_order ty P tr c \<longleftrightarrow>
     (case c of
        Modify_qp q a m \<Rightarrow> next_state (qp_at P tr q) (qp_state a) \<and> m = required ty (qp_state a)
      | Post_send q wrs \<Rightarrow> qp_at P tr q = IBV_QPS_RTS
      | Post_recv q wrs \<Rightarrow> qp_at P tr q \<noteq> IBV_QPS_RESET
      | Create_qp pd i \<Rightarrow> init_type i = ty
      | _ \<Rightarrow> True)"

primrec legal :: "qp_type \<Rightarrow> platform \<Rightarrow> history \<Rightarrow> bool" where
  "legal ty P [] \<longleftrightarrow> True"
| "legal ty P (c # tr) \<longleftrightarrow> legal ty P tr \<and> in_order ty P tr c"

section \<open>Reasoning about programs\<close>

text \<open>
  \<open>triple A m B C\<close>: from a history that satisfies \<open>A\<close> the program \<open>m\<close> ends with a value and a
  history that satisfy \<open>B\<close>, or fails with a history that satisfies \<open>C\<close>.
\<close>

definition triple :: "(history \<Rightarrow> bool) \<Rightarrow> 'a vprog \<Rightarrow> ('a \<Rightarrow> history \<Rightarrow> bool) \<Rightarrow> (history \<Rightarrow> bool) \<Rightarrow> bool" where
  "triple A m B C \<longleftrightarrow> (\<forall>tr. A tr \<longrightarrow> (case m tr of (Inl e, tr') \<Rightarrow> C tr' | (Inr x, tr') \<Rightarrow> B x tr'))"

lemma triple_bind:
  "triple A m B C \<Longrightarrow> (\<And>x. triple (B x) (f x) D C) \<Longrightarrow> triple A (bindv m f) D C"
  by (fastforce simp: triple_def bindv_def split: prod.splits sum.splits)

lemma triple_then:
  "triple A m (\<lambda>_. B) C \<Longrightarrow> triple B n D C \<Longrightarrow> triple A (thenv m n) D C"
  unfolding thenv_def by (rule triple_bind)

lemma triple_ret: "(\<And>tr. A tr \<Longrightarrow> B x tr) \<Longrightarrow> triple A (ret x) B C"
  by (simp add: triple_def ret_def)

lemma triple_fail: "(\<And>tr. A tr \<Longrightarrow> C tr) \<Longrightarrow> triple A (fail e) B C"
  by (simp add: triple_def fail_def)

lemma triple_ask: "(\<And>tr. A tr \<Longrightarrow> B (f tr c) (c # tr)) \<Longrightarrow> triple A (ask f c) B C"
  by (simp add: triple_def ask_def)

lemma triple_exec: "(\<And>tr. A tr \<Longrightarrow> B (c # tr)) \<Longrightarrow> triple A (exec c) (\<lambda>_. B) C"
  unfolding exec_def by (rule triple_ask)

lemma triple_expect:
  "(\<And>tr. A tr \<Longrightarrow> \<not> b \<Longrightarrow> C tr) \<Longrightarrow> triple A (nvds_expect b msg) (\<lambda>_ tr. A tr \<and> b) C"
  by (simp add: triple_def nvds_expect_def ret_def fail_def)

lemma triple_assert:
  "(\<And>tr. A tr \<Longrightarrow> \<not> b \<Longrightarrow> C tr) \<Longrightarrow> triple A (assertv b) (\<lambda>_ tr. A tr \<and> b) C"
  by (simp add: triple_def assertv_def ret_def fail_def)

lemma triple_weaken:
  "triple A' m B' C' \<Longrightarrow> (\<And>tr. A tr \<Longrightarrow> A' tr) \<Longrightarrow> (\<And>x tr. B' x tr \<Longrightarrow> B x tr) \<Longrightarrow> (\<And>tr. C' tr \<Longrightarrow> C tr) \<Longrightarrow> triple A m B C"
  by (fastforce simp: triple_def split: prod.splits sum.splits)

lemma triple_repeat:
  "(\<And>s. triple (I s) (f s) I C) \<Longrightarrow> triple (I s) (repeatv n f s) I C"
  by (induction n arbitrary: s) (auto intro: triple_bind triple_ret)

lemma triple_for:
  "(\<And>i s. i \<in> set is \<Longrightarrow> triple (I s) (f i s) I C) \<Longrightarrow> triple (I s) (forv is f s) I C"
  by (induction "is" arbitrary: s) (auto intro: triple_bind triple_ret)

lemma triple_spin:
  assumes "triple A m (\<lambda>_. A) C" "\<And>tr. A tr \<Longrightarrow> C tr"
  shows "triple A (spin n m ready) (\<lambda>_. A) C"
proof (induction n)
  case 0
  then show ?case
    using assms(2) by (simp add: triple_fail)
next
  case (Suc n)
  then show ?case
    using assms by (auto intro!: triple_bind [OF assms(1)] triple_ret split: if_splits)
qed

lemma triple_run:
  "triple A m B C \<Longrightarrow> A tr \<Longrightarrow> m tr = (r, tr') \<Longrightarrow> (case r of Inl e \<Rightarrow> C tr' | Inr x \<Rightarrow> B x tr')"
  by (fastforce simp: triple_def split: sum.splits)

section \<open>Moving a queue pair\<close>

text \<open>The history so far is in order and the queue pair \<open>q\<close> is in state \<open>s\<close>.\<close>

definition qp_in :: "qp_type \<Rightarrow> platform \<Rightarrow> nat \<Rightarrow> qp_state \<Rightarrow> history \<Rightarrow> bool" where
  "qp_in ty P q s tr \<longleftrightarrow> legal ty P tr \<and> qp_at P tr q = s"

text \<open>Calls that neither create nor move a queue pair nor post to one.\<close>

fun neutral :: "vcall \<Rightarrow> bool" where
  "neutral (Modify_qp _ _ _) = False"
| "neutral (Create_qp _ _) = False"
| "neutral (Post_send _ _) = False"
| "neutral (Post_recv _ _) = False"
| "neutral _ = True"

lemma neutral_keeps:
  assumes "neutral c"
  shows "legal ty P (c # tr) = legal ty P tr" "qp_at P (c # tr) q = qp_at P tr q"
  using assms by (cases c; simp add: in_order_def)+

lemma legal_ask: "neutral c \<Longrightarrow> triple (legal ty P) (ask f c) (\<lambda>_. legal ty P) (legal ty P)"
  by (rule triple_ask) (simp add: neutral_keeps del: legal.simps)

lemma qp_in_ask: "neutral c \<Longrightarrow> triple (qp_in ty P q s) (ask f c) (\<lambda>_. qp_in ty P q s) (legal ty P)"
  by (rule triple_ask) (simp add: qp_in_def neutral_keeps del: legal.simps qp_at.simps)

lemma legal_exec: "neutral c \<Longrightarrow> triple (legal ty P) (exec c) (\<lambda>_. legal ty P) (legal ty P)"
  unfolding exec_def by (rule legal_ask)

lemma qp_in_exec: "neutral c \<Longrightarrow> triple (qp_in ty P q s) (exec c) (\<lambda>_. qp_in ty P q s) (legal ty P)"
  unfolding exec_def by (rule qp_in_ask)

lemma qp_in_modify:
  assumes "next_state s (qp_state a)" "m = required ty (qp_state a)"
  shows "triple (qp_in ty P q s) (ask (p_int P) (Modify_qp q a m))
    (\<lambda>err tr. legal ty P tr \<and> (err = 0 \<longrightarrow> qp_in ty P q (qp_state a) tr)) (legal ty P)"
proof -
  have "IBV_QP_STATE \<in> required ty (qp_state a)"
    by (cases ty; cases "qp_state a") simp_all
  with assms show ?thesis
    by (intro triple_ask) (simp add: qp_in_def in_order_def)
qed

lemma qp_in_post:
  "triple (qp_in ty P q IBV_QPS_RTS) (ask f (Post_send q wrs)) (\<lambda>_. qp_in ty P q IBV_QPS_RTS) (legal ty P)"
  "s \<noteq> IBV_QPS_RESET \<Longrightarrow> triple (qp_in ty P q s) (ask f (Post_recv q rwrs)) (\<lambda>_. qp_in ty P q s) (legal ty P)"
  by (intro triple_ask; simp add: qp_in_def in_order_def)+

lemma legal_create_qp:
  assumes "init_type i = ty"
  shows "triple (legal ty P) (ask (\<lambda>tr c. (p_ptr P tr c, f tr c)) (Create_qp pd i))
    (\<lambda>(q, _). qp_in ty P q IBV_QPS_RESET) (legal ty P)"
  using assms by (intro triple_ask) (simp add: qp_in_def in_order_def)

lemma qp_in_legal: "qp_in ty P q s tr \<Longrightarrow> legal ty P tr"
  by (simp add: qp_in_def)

lemma triple_if:
  "(b \<Longrightarrow> triple A m B C) \<Longrightarrow> (\<not> b \<Longrightarrow> triple A n B C) \<Longrightarrow> triple A (if b then m else n) B C"
  by simp

lemma triple_case_prod:
  "(\<And>x y. triple (A (x, y)) (f x y) B C) \<Longrightarrow> triple (A p) (case p of (x, y) \<Rightarrow> f x y) B C"
  by (cases p) simp

text \<open>The same rules with the rest of the program.\<close>

lemma assert_then:
  "(b \<Longrightarrow> triple A n D C) \<Longrightarrow> (\<And>tr. A tr \<Longrightarrow> C tr) \<Longrightarrow> triple A (thenv (assertv b) n) D C"
  by (cases b) (simp_all add: triple_def thenv_def bindv_def assertv_def ret_def fail_def)

lemma expect_then:
  "(b \<Longrightarrow> triple A n D C) \<Longrightarrow> (\<And>tr. A tr \<Longrightarrow> C tr) \<Longrightarrow> triple A (thenv (nvds_expect b msg) n) D C"
  by (cases b) (simp_all add: triple_def thenv_def bindv_def nvds_expect_def ret_def fail_def)

lemma modify_then:
  assumes "next_state s (qp_state a)" "m = required ty (qp_state a)"
    "triple (qp_in ty P q (qp_state a)) k D (legal ty P)"
    "\<And>err. err \<noteq> 0 \<Longrightarrow> triple (legal ty P) (h err) D (legal ty P)"
  shows "triple (qp_in ty P q s) (bindv (ask (p_int P) (Modify_qp q a m)) (\<lambda>err. if err \<noteq> 0 then h err else k)) D (legal ty P)"
proof (rule triple_bind [OF qp_in_modify [OF assms(1,2)]])
  fix err :: int
  show "triple (\<lambda>tr. legal ty P tr \<and> (err = 0 \<longrightarrow> qp_in ty P q (qp_state a) tr)) (if err \<noteq> 0 then h err else k) D (legal ty P)"
    using assms(3,4) by (cases "err = 0") (auto intro: triple_weaken)
qed

lemma modify_expect:
  assumes "next_state s (qp_state a)" "m = required ty (qp_state a)"
  shows "triple (qp_in ty P q s) (bindv (ask (p_int P) (Modify_qp q a m)) (\<lambda>err. nvds_expect (err = 0) msg))
    (\<lambda>_. qp_in ty P q (qp_state a)) (legal ty P)"
proof (rule triple_bind [OF qp_in_modify [OF assms]])
  fix err :: int
  show "triple (\<lambda>tr. legal ty P tr \<and> (err = 0 \<longrightarrow> qp_in ty P q (qp_state a) tr)) (nvds_expect (err = 0) msg)
      (\<lambda>_. qp_in ty P q (qp_state a)) (legal ty P)"
    by (simp add: triple_def nvds_expect_def ret_def fail_def)
qed

lemma fail_legal: "triple (legal ty P) (fail e) D (legal ty P)" "triple (qp_in ty P q s) (fail e) D (legal ty P)"
  by (rule triple_fail, simp add: qp_in_legal)+

section \<open>Runs that return\<close>

lemmas vprog_defs = ret_def fail_def bindv_def thenv_def ask_def exec_def assertv_def nvds_expect_def

lemma bindv_Inr: "bindv m f tr = (Inr y, tr') \<longleftrightarrow> (\<exists>x tr1. m tr = (Inr x, tr1) \<and> f x tr1 = (Inr y, tr'))"
  by (auto simp: bindv_def split: prod.splits sum.splits)

lemma thenv_Inr: "thenv m n tr = (Inr y, tr') \<longleftrightarrow> (\<exists>x tr1. m tr = (Inr x, tr1) \<and> n tr1 = (Inr y, tr'))"
  by (simp add: thenv_def bindv_Inr)

lemma ret_Inr: "ret x tr = (Inr y, tr') \<longleftrightarrow> x = y \<and> tr' = tr"
  by (auto simp: ret_def)

lemma assertv_Inr: "assertv b tr = (Inr y, tr') \<longleftrightarrow> b \<and> tr' = tr"
  by (auto simp: assertv_def ret_def fail_def)

lemma expect_Inr: "nvds_expect b msg tr = (Inr y, tr') \<longleftrightarrow> b \<and> tr' = tr"
  by (auto simp: nvds_expect_def ret_def fail_def)

lemma ask_Inr: "ask f c tr = (Inr y, tr') \<longleftrightarrow> y = f tr c \<and> tr' = c # tr" "exec c tr = (Inr u, tr') \<longleftrightarrow> tr' = c # tr"
  by (auto simp: ask_def exec_def)

lemmas run_Inr = bindv_Inr thenv_Inr ret_Inr assertv_Inr expect_Inr ask_Inr

end
