(* ===== verification/Buffers.thy ===== *)
theory Buffers
  imports Programs
begin

text \<open>
  The pool of registered buffers of \<^verbatim>\<open>src/infiniband.h\<close> and the work queue of
  \<^verbatim>\<open>src/server.h\<close>. Both are linked lists through the same field, \<^verbatim>\<open>Buffer::next\<close>: a buffer
  travels from the pool to the hardware, to a work queue, to a worker and back to the pool. A
  buffer is a number; the field is a map from buffers to pointers, shared by all the lists. Every
  operation runs under the spin lock of its list.
\<close>

section \<open>The operations\<close>

type_synonym nexts = "nat \<Rightarrow> nat option"

definition RegisteredBuffers_init :: "nat \<Rightarrow> nat \<Rightarrow> nexts \<Rightarrow> nat option \<times> nexts" where
  "RegisteredBuffers_init first buf_num nx =
     (Some first, \<lambda>b. if first \<le> b \<and> b < first + buf_num
                     then (if b - first + 1 < buf_num then Some (b + 1) else None) else nx b)"

definition Pool_Alloc :: "nat option \<times> nexts \<Rightarrow> nat option \<times> (nat option \<times> nexts)" where
  "Pool_Alloc p = (case p of
     (None, nx) \<Rightarrow> (None, (None, nx))
   | (Some b, nx) \<Rightarrow> (Some b, (nx b, nx)))"

definition Pool_Free :: "nat \<Rightarrow> nat option \<times> nexts \<Rightarrow> nat option \<times> nexts" where
  "Pool_Free b p = (case p of (root, nx) \<Rightarrow> (Some b, nx(b := root)))"

record WorkQueue =
  wq_head :: "nat option"
  wq_tail :: "nat option"

definition WorkQueue_init :: WorkQueue where
  "WorkQueue_init = \<lparr>wq_head = None, wq_tail = None\<rparr>"

text \<open>A null tail with a non-null head would be dereferenced: \<^const>\<open>None\<close>.\<close>

definition Enqueue :: "nat \<Rightarrow> WorkQueue \<times> nexts \<Rightarrow> (WorkQueue \<times> nexts) option" where
  "Enqueue w q = (case q of (wq, nx) \<Rightarrow>
     (if wq_head wq = None then Some (\<lparr>wq_head = Some w, wq_tail = Some w\<rparr>, nx)
      else case wq_tail wq of
             None \<Rightarrow> None
           | Some t \<Rightarrow> Some (wq\<lparr>wq_tail := Some w\<rparr>, nx(t := Some w))))"

definition Dequeue :: "WorkQueue \<times> nexts \<Rightarrow> nat option \<times> (WorkQueue \<times> nexts)" where
  "Dequeue q = (case q of (wq, nx) \<Rightarrow>
     (case wq_head wq of
        None \<Rightarrow> (None, (wq, nx))
      | Some h \<Rightarrow>
          if wq_head wq = wq_tail wq then (Some h, (\<lparr>wq_head = None, wq_tail = None\<rparr>, nx))
          else (Some h, (wq\<lparr>wq_head := nx h\<rparr>, nx))))"

section \<open>Linked lists\<close>

text \<open>
  \<open>chain nx p bs q\<close>: following the field from \<open>p\<close> visits the buffers \<open>bs\<close> and ends with \<open>q\<close>.
\<close>

fun chain :: "nexts \<Rightarrow> nat option \<Rightarrow> nat list \<Rightarrow> nat option \<Rightarrow> bool" where
  "chain nx p [] q \<longleftrightarrow> p = q"
| "chain nx p (b # bs) q \<longleftrightarrow> p = Some b \<and> chain nx (nx b) bs q"

lemma chain_append: "chain nx p (bs @ cs) q \<longleftrightarrow> (\<exists>r. chain nx p bs r \<and> chain nx r cs q)"
  by (induction bs arbitrary: p) auto

lemma chain_upd: "b \<notin> set bs \<Longrightarrow> chain (nx(b := r)) p bs q \<longleftrightarrow> chain nx p bs q"
  by (induction bs arbitrary: p) auto

lemma chain_cong: "(\<And>b. b \<in> set bs \<Longrightarrow> nx b = nx' b) \<Longrightarrow> chain nx p bs q \<longleftrightarrow> chain nx' p bs q"
  by (induction bs arbitrary: p) auto

definition pool_list :: "nat option \<times> nexts \<Rightarrow> nat list \<Rightarrow> bool" where
  "pool_list p bs \<longleftrightarrow> distinct bs \<and> chain (snd p) (fst p) bs None"

text \<open>
  The field of the last buffer of a queue is whatever it was before: the queue ends at its tail
  pointer.
\<close>

definition queue_list :: "WorkQueue \<times> nexts \<Rightarrow> nat list \<Rightarrow> bool" where
  "queue_list q bs \<longleftrightarrow> distinct bs \<and>
     (if bs = [] then wq_head (fst q) = None
      else chain (snd q) (wq_head (fst q)) (butlast bs) (Some (last bs)) \<and> wq_tail (fst q) = Some (last bs))"

lemma Pool_init: "0 < n \<Longrightarrow> pool_list (RegisteredBuffers_init a n nx) [a..<a + n]"
proof -
  assume n: "0 < n"
  have "chain (\<lambda>b. if a \<le> b \<and> b < a + n then (if b - a + 1 < n then Some (b + 1) else None) else nx b)
      (if m < a + n then Some m else None) [m..<a + n] None" if "a \<le> m" "m \<le> a + n" for m
    using that(2,1)
  proof (induction rule: inc_induct)
    case (step m)
    then show ?case
      by (cases "Suc m < a + n") (auto simp: upt_conv_Cons)
  qed simp
  from this [of a] n show ?thesis
    by (simp add: pool_list_def RegisteredBuffers_init_def)
qed

lemma Pool_Alloc_list:
  assumes "pool_list p bs"
  shows "fst (Pool_Alloc p) = (case bs of [] \<Rightarrow> None | b # _ \<Rightarrow> Some b)" "pool_list (snd (Pool_Alloc p)) (tl bs)"
    "snd (snd (Pool_Alloc p)) = snd p"
  using assms by (cases bs; cases p; auto simp: pool_list_def Pool_Alloc_def split: option.splits)+

lemma Pool_Free_list:
  assumes "pool_list p bs" "b \<notin> set bs"
  shows "pool_list (Pool_Free b p) (b # bs)"
  using assms by (cases p) (simp add: pool_list_def Pool_Free_def chain_upd)

lemma Enqueue_list:
  assumes "queue_list q bs" "w \<notin> set bs"
  shows "\<exists>q'. Enqueue w q = Some q' \<and> queue_list q' (bs @ [w])"
proof (cases "bs = []")
  case True
  then show ?thesis
    using assms by (cases q) (auto simp: queue_list_def Enqueue_def)
next
  case False
  obtain wq nx where q: "q = (wq, nx)"
    by (cases q)
  have ch: "chain nx (wq_head wq) (butlast bs) (Some (last bs))" "wq_tail wq = Some (last bs)" "distinct bs"
    using assms(1) False by (simp_all add: queue_list_def q)
  have "wq_head wq \<noteq> None"
    using ch(1) by (cases "butlast bs") auto
  moreover have "last bs \<notin> set (butlast bs)"
    using ch(3) False by (metis distinct_butlast append_butlast_last_id not_distinct_conv_prefix)
  then have "chain (nx(last bs := Some w)) (wq_head wq) (butlast bs @ [last bs]) (Some w)"
    using ch(1) by (simp add: chain_append chain_upd)
  ultimately show ?thesis
    using ch False assms(2) by (auto simp: q Enqueue_def queue_list_def)
qed

lemma Dequeue_list:
  assumes "queue_list q bs"
  shows "fst (Dequeue q) = (case bs of [] \<Rightarrow> None | b # _ \<Rightarrow> Some b)" "queue_list (snd (Dequeue q)) (tl bs)"
    "snd (snd (Dequeue q)) = snd q"
proof -
  obtain wq nx where q: "q = (wq, nx)"
    by (cases q)
  have "fst (Dequeue q) = (case bs of [] \<Rightarrow> None | b # _ \<Rightarrow> Some b) \<and> queue_list (snd (Dequeue q)) (tl bs)
    \<and> snd (snd (Dequeue q)) = snd q"
  proof (cases bs)
    case Nil
    then show ?thesis
      using assms by (simp add: queue_list_def Dequeue_def q)
  next
    case (Cons b cs)
    show ?thesis
    proof (cases "cs = []")
      case False
      then have "b \<noteq> last cs"
        using assms Cons last_in_set [of cs] by (auto simp: queue_list_def)
      with False show ?thesis
        using assms Cons by (auto simp: queue_list_def Dequeue_def q)
    qed (use assms Cons in \<open>auto simp: queue_list_def Dequeue_def q\<close>)
  qed
  then show "fst (Dequeue q) = (case bs of [] \<Rightarrow> None | b # _ \<Rightarrow> Some b)" "queue_list (snd (Dequeue q)) (tl bs)"
    "snd (snd (Dequeue q)) = snd q"
    by simp_all
qed

section \<open>The interfaces\<close>

text \<open>
  A store of buffers: \<open>repr s xs\<close> says that \<open>s\<close> holds the distinct buffers \<open>xs\<close> and hands out the
  first one next. A queue puts a buffer at the end, a pool at the front. A run is a sequence of
  operations, each executed under the lock of the store, in the order in which the threads got
  the lock.
\<close>

datatype store_op = Put nat | Take

fun run :: "(nat \<Rightarrow> 's \<Rightarrow> 's option) \<Rightarrow> ('s \<Rightarrow> nat option \<times> 's) \<Rightarrow> store_op list \<Rightarrow> 's \<Rightarrow> (nat option list \<times> 's) option" where
  "run pt tk [] s = Some ([], s)"
| "run pt tk (Put b # ops) s = do { s \<leftarrow> pt b s; run pt tk ops s }"
| "run pt tk (Take # ops) s = do { let (r, s) = tk s; (rs, s) \<leftarrow> run pt tk ops s; Some (r # rs, s) }"

text \<open>The same run on lists; a buffer is only put when it is not in the store.\<close>

fun list_run :: "(nat \<Rightarrow> nat list \<Rightarrow> nat list) \<Rightarrow> store_op list \<Rightarrow> nat list \<Rightarrow> (nat option list \<times> nat list) option" where
  "list_run ins [] xs = Some ([], xs)"
| "list_run ins (Put b # ops) xs = (if b \<in> set xs then None else list_run ins ops (ins b xs))"
| "list_run ins (Take # ops) xs =
     (case list_run ins ops (tl xs) of
        None \<Rightarrow> None
      | Some (rs, ys) \<Rightarrow> Some ((case xs of [] \<Rightarrow> None | x # _ \<Rightarrow> Some x) # rs, ys))"

locale buffer_store =
  fixes repr :: "'s \<Rightarrow> nat list \<Rightarrow> bool" and tk :: "'s \<Rightarrow> nat option \<times> 's"
    and pt :: "nat \<Rightarrow> 's \<Rightarrow> 's option" and ins :: "nat \<Rightarrow> nat list \<Rightarrow> nat list"
  assumes tk_repr: "repr s xs \<Longrightarrow> fst (tk s) = (case xs of [] \<Rightarrow> None | x # _ \<Rightarrow> Some x) \<and> repr (snd (tk s)) (tl xs)"
    and pt_repr: "repr s xs \<Longrightarrow> b \<notin> set xs \<Longrightarrow> \<exists>s'. pt b s = Some s' \<and> repr s' (ins b xs)"
begin

lemma run_refines:
  "repr s xs \<Longrightarrow> list_run ins ops xs = Some (rs, ys) \<Longrightarrow> \<exists>s'. run pt tk ops s = Some (rs, s') \<and> repr s' ys"
proof (induction ops arbitrary: s xs rs)
  case (Cons op ops)
  show ?case
  proof (cases op)
    case (Put b)
    with Cons.prems have b: "b \<notin> set xs" "list_run ins ops (ins b xs) = Some (rs, ys)"
      by (simp_all split: if_splits)
    obtain s1 where "pt b s = Some s1" "repr s1 (ins b xs)"
      using pt_repr [OF Cons.prems(1) b(1)] by blast
    with Cons.IH b(2) Put show ?thesis
      by auto
  next
    case Take
    with Cons.prems obtain rs' where rs': "list_run ins ops (tl xs) = Some (rs', ys)"
        "rs = (case xs of [] \<Rightarrow> None | x # _ \<Rightarrow> Some x) # rs'"
      by (auto split: option.splits)
    obtain r s1 where t: "tk s = (r, s1)"
      by (cases "tk s")
    with tk_repr [OF Cons.prems(1)] have "r = (case xs of [] \<Rightarrow> None | x # _ \<Rightarrow> Some x)" "repr s1 (tl xs)"
      by simp_all
    with Cons.IH [OF this(2) rs'(1)] rs'(2) t Take show ?thesis
      by auto
  qed
qed simp

end

interpretation wq: buffer_store queue_list Dequeue Enqueue "\<lambda>b xs. xs @ [b]"
  by unfold_locales (use Dequeue_list Enqueue_list in blast)+

interpretation pool: buffer_store pool_list Pool_Alloc "\<lambda>b p. Some (Pool_Free b p)" Cons
  by unfold_locales (use Pool_Alloc_list Pool_Free_list in blast)+

section \<open>The theorems\<close>

text \<open>
  Whatever the link fields of the buffers held before, a run of \<^verbatim>\<open>Enqueue\<close> and \<^verbatim>\<open>Dequeue\<close> on a
  new work queue that never enqueues a buffer which is still queued dereferences no null pointer
  and returns the buffers of a first-in first-out queue.
\<close>

lemma WorkQueue_fifo:
  assumes "list_run (\<lambda>b xs. xs @ [b]) ops [] = Some (rs, ys)"
  shows "\<exists>q. run Enqueue Dequeue ops (WorkQueue_init, nx) = Some (rs, q) \<and> queue_list q ys"
  using wq.run_refines [OF _ assms] by (simp add: queue_list_def WorkQueue_init_def)

lemma WorkQueue_fifo_example:
  "\<exists>q. run Enqueue Dequeue [Put 4, Put 2, Take, Put 4, Take, Take, Take] (WorkQueue_init, \<lambda>b. Some (b + 7)) =
     Some ([Some 4, Some 2, Some 4, None], q)"
  using WorkQueue_fifo [of "[Put 4, Put 2, Take, Put 4, Take, Take, Take]" "[Some 4, Some 2, Some 4, None]" "[]" "\<lambda>b. Some (b + 7)"]
  by auto

text \<open>
  A pool of \<open>n\<close> buffers hands out every buffer at most once between two of its releases and
  runs dry exactly after \<open>n\<close> allocations without a release: a run of \<^verbatim>\<open>Alloc\<close> and \<^verbatim>\<open>Free\<close> that
  frees no buffer which is in the pool behaves as a stack that holds the \<open>n\<close> buffers at first.
\<close>

lemma RegisteredBuffers_stack:
  assumes "0 < n" "list_run Cons ops [a..<a + n] = Some (rs, ys)"
  shows "\<exists>p. run (\<lambda>b p. Some (Pool_Free b p)) Pool_Alloc ops (RegisteredBuffers_init a n nx) = Some (rs, p) \<and> pool_list p ys"
  using pool.run_refines [OF Pool_init [OF assms(1)] assms(2)] .

lemma RegisteredBuffers_stack_example:
  "\<exists>p. run (\<lambda>b p. Some (Pool_Free b p)) Pool_Alloc [Take, Take, Take, Put 5, Take] (RegisteredBuffers_init 5 2 (\<lambda>_. None)) =
     Some ([Some 5, Some 6, None, Some 5], p)"
proof -
  have "list_run Cons [Take, Take, Take, Put 5, Take] [5..<5 + 2] = Some ([Some 5, Some 6, None, Some 5], [])"
    by (simp add: upt_rec)
  from RegisteredBuffers_stack [OF zero_less_numeral this, of "\<lambda>_. None"] show ?thesis
    by blast
qed

end
