(* ===== verification/Infiniband.thy ===== *)
theory Infiniband
  imports Verbs Index_Manager Buffers
begin

text \<open>
  The verbs wrapper of \<^verbatim>\<open>src/infiniband.h\<close> and \<^verbatim>\<open>src/infiniband.cc\<close>: the device, the queue
  pairs and their states, the registered buffers, and posting and polling. Every method is a
  program over a platform (theory \<open>Verbs\<close>). A failed \<^verbatim>\<open>assert\<close> is \<open>Assertion_failed\<close>, a thrown
  \<^verbatim>\<open>TransportException\<close> carries its error number. A buffer is identified by its address, which is
  also the identifier of the work requests made for it.
\<close>

section \<open>The device\<close>

definition kPort :: nat where
  "kPort = 1"

definition kMaxInlineData :: nat where
  "kMaxInlineData = 128"

record Infiniband =
  ib_ctx :: nat
  ib_pd :: nat
  ib_mr :: nat
  ib_raw_mem :: nat
  ib_raw_mem_size :: nat
  addr_handlers :: "u16 \<Rightarrow> nat"

definition Infiniband_new :: "platform \<Rightarrow> nat \<Rightarrow> Infiniband vprog" where
  "Infiniband_new P registered_mem_size =
     bindv (ask (p_ptr P) Get_device_list) (\<lambda>dev_list.
     thenv (assertv (dev_list \<noteq> 0)) (
     bindv (ask (p_ptr P) (Open_device dev_list)) (\<lambda>ctx.
     thenv (assertv (ctx \<noteq> 0)) (
     thenv (exec (Free_device_list dev_list)) (
     bindv (ask (p_ptr P) (Alloc_pd ctx)) (\<lambda>pd.
     thenv (assertv (pd \<noteq> 0)) (
     bindv (ask (p_ptr P) (Os (Memalign 4096 registered_mem_size))) (\<lambda>raw.
     thenv (assertv (raw \<noteq> 0)) (
     bindv (ask (p_ptr P) (Reg_mr pd raw registered_mem_size
              {IBV_ACCESS_LOCAL_WRITE, IBV_ACCESS_REMOTE_READ, IBV_ACCESS_REMOTE_WRITE})) (\<lambda>mr.
     thenv (assertv (mr \<noteq> 0)) (
     ret \<lparr>ib_ctx = ctx, ib_pd = pd, ib_mr = mr, ib_raw_mem = raw, ib_raw_mem_size = registered_mem_size,
          addr_handlers = (\<lambda>_. 0)\<rparr>)))))))))))"

definition Infiniband_delete :: "platform \<Rightarrow> Infiniband \<Rightarrow> unit vprog" where
  "Infiniband_delete P ib =
     thenv (forv [0..<65536] (\<lambda>l _.
              if addr_handlers ib (of_nat l) \<noteq> 0
              then bindv (ask (p_int P) (Destroy_ah (addr_handlers ib (of_nat l)))) (\<lambda>err. assertv (err = 0))
              else ret ()) ()) (
     bindv (ask (p_int P) (Dereg_mr (ib_mr ib))) (\<lambda>err.
     thenv (assertv (err = 0)) (
     thenv (exec (Os (Free_mem (ib_raw_mem ib)))) (
     bindv (ask (p_int P) (Dealloc_pd (ib_pd ib))) (\<lambda>err.
     thenv (assertv (err = 0)) (
     bindv (ask (p_int P) (Close_device (ib_ctx ib))) (\<lambda>err.
     assertv (err = 0))))))))"

definition GetLid :: "platform \<Rightarrow> Infiniband \<Rightarrow> nat \<Rightarrow> u16 vprog" where
  "GetLid P ib port =
     bindv (ask (\<lambda>tr c. (p_int P tr c, p_lid P tr c)) (Query_port (ib_ctx ib) port)) (\<lambda>(r, lid).
     if r \<noteq> 0 then fail (Transport_exception r) else ret lid)"

section \<open>Queue pairs\<close>

record QueuePair =
  qp_type :: qp_type
  qp_ptr :: nat
  scq :: nat
  rcq :: nat
  psn :: u32

definition kDefaultPsn :: u32 where
  "kDefaultPsn = 33"

definition QueuePair_new :: "platform \<Rightarrow> Infiniband \<Rightarrow> qp_type \<Rightarrow> nat \<Rightarrow> nat \<Rightarrow> QueuePair vprog" where
  "QueuePair_new P ib ty max_send max_recv =
     thenv (assertv (ty = IBV_QPT_RC \<or> ty = IBV_QPT_UD)) (
     bindv (ask (p_ptr P) (Create_cq (ib_ctx ib) max_send)) (\<lambda>s.
     bindv (ask (p_ptr P) (Create_cq (ib_ctx ib) max_recv)) (\<lambda>r.
     thenv (assertv (s \<noteq> 0 \<and> r \<noteq> 0)) (
     bindv (ask (\<lambda>tr c. (p_ptr P tr c, p_int P tr c)) (Create_qp (ib_pd ib)
              \<lparr>init_type = ty, init_send_cq = s, init_recv_cq = r, max_send_wr = max_send, max_recv_wr = max_recv,
               max_send_sge = 12, max_recv_sge = 12, max_inline_data = kMaxInlineData, sq_sig_all = 0\<rparr>)) (\<lambda>(q, errno).
     if q = 0 then fail (Transport_exception errno)
     else
       bindv (ask (p_int P) (Modify_qp q
                (qp_attr0\<lparr>qp_state := IBV_QPS_INIT, pkey_index := 0, port_num := kPort, qkey := 0,
                  qp_access_flags := {IBV_ACCESS_LOCAL_WRITE, IBV_ACCESS_REMOTE_READ, IBV_ACCESS_REMOTE_WRITE}\<rparr>)
                ({IBV_QP_STATE, IBV_QP_PORT, IBV_QP_PKEY_INDEX}
                 \<union> (if ty = IBV_QPT_RC then {IBV_QP_ACCESS_FLAGS} else {IBV_QP_QKEY})))) (\<lambda>err.
       if err \<noteq> 0 then thenv (exec (Destroy_qp q)) (fail (Transport_exception err))
       else ret \<lparr>qp_type = ty, qp_ptr = q, scq = s, rcq = r, psn = kDefaultPsn\<rparr>))))))"

definition QueuePair_delete :: "platform \<Rightarrow> QueuePair \<Rightarrow> unit vprog" where
  "QueuePair_delete P qp =
     bindv (ask (p_int P) (Destroy_qp (qp_ptr qp))) (\<lambda>err.
     thenv (assertv (err = 0)) (
     bindv (ask (p_int P) (Destroy_cq (rcq qp))) (\<lambda>err.
     thenv (assertv (err = 0)) (
     bindv (ask (p_int P) (Destroy_cq (scq qp))) (\<lambda>err.
     assertv (err = 0))))))"

definition GetPeerQPNum :: "platform \<Rightarrow> QueuePair \<Rightarrow> u32 vprog" where
  "GetPeerQPNum P qp =
     bindv (ask (\<lambda>tr c. (p_int P tr c, p_attr P tr c)) (Query_qp (qp_ptr qp) IBV_QP_DEST_QPN)) (\<lambda>(err, attr).
     if err \<noteq> 0 then fail (Transport_exception err) else ret (dest_qp_num attr))"

definition GetState :: "platform \<Rightarrow> QueuePair \<Rightarrow> qp_state vprog" where
  "GetState P qp =
     bindv (ask (\<lambda>tr c. (p_int P tr c, p_attr P tr c)) (Query_qp (qp_ptr qp) IBV_QP_STATE)) (\<lambda>(err, attr).
     if err \<noteq> 0 then fail (Transport_exception err) else ret (qp_state attr))"

definition Activate :: "platform \<Rightarrow> QueuePair \<Rightarrow> unit vprog" where
  "Activate P qp =
     thenv (assertv (qp_type qp = IBV_QPT_UD)) (
     bindv (GetState P qp) (\<lambda>st.
     thenv (assertv (st = IBV_QPS_INIT)) (
     bindv (ask (p_int P) (Modify_qp (qp_ptr qp) (qp_attr0\<lparr>qp_state := IBV_QPS_RTR\<rparr>) {IBV_QP_STATE})) (\<lambda>err.
     if err \<noteq> 0 then fail (Transport_exception err)
     else
       bindv (ask (p_int P) (Modify_qp (qp_ptr qp) (qp_attr0\<lparr>qp_state := IBV_QPS_RTS, sq_psn := psn qp\<rparr>)
                {IBV_QP_STATE, IBV_QP_SQ_PSN})) (\<lambda>err.
       if err \<noteq> 0 then fail (Transport_exception err) else ret ())))))"

definition SetStateRTR :: "platform \<Rightarrow> QueuePair \<Rightarrow> QueuePairInfo \<Rightarrow> unit vprog" where
  "SetStateRTR P qp peer_info =
     thenv (assertv (qp_type qp = IBV_QPT_RC)) (
     bindv (GetState P qp) (\<lambda>st.
     thenv (assertv (st = IBV_QPS_INIT)) (
     bindv (ask (p_int P) (Modify_qp (qp_ptr qp)
              (qp_attr0\<lparr>qp_state := IBV_QPS_RTR, path_mtu := 4096, dest_qp_num := qpi_qpn peer_info,
                rq_psn := qpi_psn peer_info, max_dest_rd_atomic := 1, min_rnr_timer := 12,
                av := \<lparr>is_global = 0, dlid = qpi_lid peer_info, sl = 0, src_path_bits = 0, ah_port_num = kPort\<rparr>\<rparr>)
              {IBV_QP_STATE, IBV_QP_AV, IBV_QP_PATH_MTU, IBV_QP_DEST_QPN, IBV_QP_RQ_PSN,
               IBV_QP_MAX_DEST_RD_ATOMIC, IBV_QP_MIN_RNR_TIMER})) (\<lambda>err.
     if err \<noteq> 0 then fail (Transport_exception err) else ret ()))))"

definition SetStateRTS :: "platform \<Rightarrow> QueuePair \<Rightarrow> QueuePairInfo \<Rightarrow> unit vprog" where
  "SetStateRTS P qp peer_info =
     thenv (SetStateRTR P qp peer_info) (
     bindv (ask (p_int P) (Modify_qp (qp_ptr qp)
              (qp_attr0\<lparr>qp_state := IBV_QPS_RTS, qp_timeout := 14, retry_cnt := 7, rnr_retry := 7,
                sq_psn := psn qp, max_rd_atomic := 1\<rparr>)
              {IBV_QP_STATE, IBV_QP_TIMEOUT, IBV_QP_RETRY_CNT, IBV_QP_RNR_RETRY, IBV_QP_SQ_PSN, IBV_QP_MAX_QP_RD_ATOMIC})) (\<lambda>err.
     if err \<noteq> 0 then fail (Transport_exception err) else ret ()))"

section \<open>Registered buffers\<close>

record Buffer =
  buf :: nat
  buf_size :: nat
  msg_len :: u32
  buf_mr :: nat
  peer_addr :: Address
  is_recv :: bool

definition blank_address :: Address where
  "blank_address = \<lparr>ib_port = 0, addr_lid = 0, addr_qpn = 0\<rparr>"

text \<open>
  The constructor of the pool: one registered region cut into \<open>buf_num\<close> buffers; \<open>obj\<close> is the
  number of the first buffer object.
\<close>

definition RegisteredBuffers_new ::
  "platform \<Rightarrow> nat \<Rightarrow> nat \<Rightarrow> nat \<Rightarrow> nat \<Rightarrow> nat \<Rightarrow> bool \<Rightarrow> nexts \<Rightarrow> ((nat \<Rightarrow> Buffer option) \<times> (nat option \<times> nexts)) vprog" where
  "RegisteredBuffers_new P page obj pd buf_sz buf_num recv nx =
     bindv (ask (p_ptr P) (Os (Memalign page (buf_sz * buf_num)))) (\<lambda>ptr.
     thenv (assertv (ptr \<noteq> 0)) (
     bindv (ask (\<lambda>tr c. (p_ptr P tr c, p_int P tr c))
              (Reg_mr pd ptr (buf_sz * buf_num) {IBV_ACCESS_REMOTE_WRITE, IBV_ACCESS_LOCAL_WRITE})) (\<lambda>(mr, errno).
     if mr = 0 then fail (Transport_exception errno)
     else ret ((\<lambda>b. if obj \<le> b \<and> b < obj + buf_num
                    then Some \<lparr>buf = ptr + (b - obj) * buf_sz, buf_size = buf_sz, msg_len = 0, buf_mr = mr,
                               peer_addr = blank_address, is_recv = recv\<rparr>
                    else None),
               RegisteredBuffers_init obj buf_num nx))))"

section \<open>Posting and polling\<close>

definition PollCQ :: "platform \<Rightarrow> nat \<Rightarrow> nat \<Rightarrow> (nat \<Rightarrow> Buffer) \<Rightarrow> (nat option \<times> (nat \<Rightarrow> Buffer)) vprog" where
  "PollCQ P cq num_entries bufs =
     bindv (ask (\<lambda>tr c. (p_int P tr c, p_wc P tr c)) (Poll_cq cq num_entries)) (\<lambda>(r, wc).
     if r = 0 then ret (None, bufs)
     else if r < 0 then fail (Transport_exception r)
     else if wc_status wc \<noteq> 0 then fail (Transport_exception (wc_status wc))
     else let b = unat (wc_id wc)
          in ret (Some b, bufs(b := (bufs b)\<lparr>msg_len := wc_byte_len wc,
                peer_addr := \<lparr>ib_port = int kPort, addr_lid = wc_slid wc, addr_qpn = wc_src_qp wc\<rparr>\<rparr>)))"

definition TryReceive :: "platform \<Rightarrow> QueuePair \<Rightarrow> (nat \<Rightarrow> Buffer) \<Rightarrow> (nat option \<times> (nat \<Rightarrow> Buffer)) vprog" where
  "TryReceive P qp bufs = PollCQ P (rcq qp) 1 bufs"

definition TrySend :: "platform \<Rightarrow> QueuePair \<Rightarrow> (nat \<Rightarrow> Buffer) \<Rightarrow> (nat option \<times> (nat \<Rightarrow> Buffer)) vprog" where
  "TrySend P qp bufs = PollCQ P (scq qp) 1 bufs"

definition Receive :: "platform \<Rightarrow> nat \<Rightarrow> QueuePair \<Rightarrow> (nat \<Rightarrow> Buffer) \<Rightarrow> (nat option \<times> (nat \<Rightarrow> Buffer)) vprog" where
  "Receive P fuel qp bufs = spin fuel (TryReceive P qp bufs) (\<lambda>(b, _). b \<noteq> None)"

definition PostReceive :: "platform \<Rightarrow> QueuePair \<Rightarrow> nat \<Rightarrow> Buffer \<Rightarrow> unit vprog" where
  "PostReceive P qp b bf =
     bindv (ask (p_int P) (Post_recv (qp_ptr qp)
              [\<lparr>rwr_id = of_nat b,
                rsg_list = [\<lparr>sge_addr = of_nat (buf bf), sge_length = of_nat (buf_size bf), sge_lkey = p_lkey P (buf_mr bf)\<rparr>]\<rparr>])) (\<lambda>err.
     if err \<noteq> 0 then fail (Transport_exception err) else ret ())"

definition GetAddrHandler :: "platform \<Rightarrow> Address \<Rightarrow> Infiniband \<Rightarrow> (nat \<times> Infiniband) vprog" where
  "GetAddrHandler P a ib =
     (if addr_handlers ib (addr_lid a) \<noteq> 0 then ret (addr_handlers ib (addr_lid a), ib)
      else bindv (ask (p_ptr P) (Create_ah (ib_pd ib)
                    \<lparr>is_global = 0, dlid = addr_lid a, sl = 1, src_path_bits = 0, ah_port_num = kPort\<rparr>)) (\<lambda>ah.
           thenv (assertv (ah \<noteq> 0)) (
           ret (ah, ib\<lparr>addr_handlers := (addr_handlers ib)(addr_lid a := ah)\<rparr>))))"

definition PostSend :: "platform \<Rightarrow> QueuePair \<Rightarrow> nat \<Rightarrow> Buffer \<Rightarrow> u32 \<Rightarrow> Address \<Rightarrow> Infiniband \<Rightarrow> Infiniband vprog" where
  "PostSend P qp b bf len peer ib =
     thenv (assertv (qp_type qp = IBV_QPT_UD)) (
     bindv (GetAddrHandler P peer ib) (\<lambda>(ah, ib).
     thenv (assertv (ah \<noteq> 0)) (
     bindv (ask (p_int P) (Post_send (qp_ptr qp)
              [\<lparr>wr_id = of_nat b,
                sg_list = [\<lparr>sge_addr = of_nat (buf bf), sge_length = len, sge_lkey = p_lkey P (buf_mr bf)\<rparr>],
                opcode = IBV_WR_SEND,
                send_flags = {IBV_SEND_SIGNALED} \<union> (if unat len \<le> kMaxInlineData then {IBV_SEND_INLINE} else {}),
                dest = Ud ah (addr_qpn peer) 0\<rparr>])) (\<lambda>err.
     if err \<noteq> 0 then fail (Transport_exception err) else ret ib))))"

definition PostSendAndWait :: "platform \<Rightarrow> nat \<Rightarrow> QueuePair \<Rightarrow> nat \<Rightarrow> Buffer \<Rightarrow> u32 \<Rightarrow> Address \<Rightarrow> Infiniband \<Rightarrow> Infiniband vprog" where
  "PostSendAndWait P fuel qp b bf len peer ib =
     thenv (assertv (qp_type qp = IBV_QPT_UD)) (
     bindv (PostSend P qp b bf len peer ib) (\<lambda>ib.
     bindv (spin fuel (ask (\<lambda>tr c. (p_int P tr c, p_wc P tr c)) (Poll_cq (scq qp) 1)) (\<lambda>(r, _). \<not> r < 1)) (\<lambda>(_, wc).
     if wc_status wc \<noteq> 0 then fail (Transport_exception (wc_status wc)) else ret ib)))"

definition PostWrite :: "platform \<Rightarrow> QueuePair \<Rightarrow> QueuePairInfo \<Rightarrow> Infiniband \<Rightarrow> unit vprog" where
  "PostWrite P qp peer_info ib =
     bindv (ask (p_int P) (Post_send (qp_ptr qp)
              [\<lparr>wr_id = 3, sg_list = [\<lparr>sge_addr = of_nat (ib_raw_mem ib), sge_length = 64, sge_lkey = p_lkey P (ib_mr ib)\<rparr>],
                opcode = IBV_WR_RDMA_WRITE, send_flags = {IBV_SEND_SIGNALED},
                dest = Rdma (qpi_vaddr peer_info) (qpi_rkey peer_info)\<rparr>])) (\<lambda>err.
     if err \<noteq> 0 then fail (Transport_exception err) else ret ())"

definition PostWriteAndWait :: "platform \<Rightarrow> nat \<Rightarrow> QueuePair \<Rightarrow> QueuePairInfo \<Rightarrow> Infiniband \<Rightarrow> unit vprog" where
  "PostWriteAndWait P fuel qp peer_info ib =
     thenv (PostWrite P qp peer_info ib) (
     bindv (spin fuel (ask (\<lambda>tr c. (p_int P tr c, p_wc P tr c)) (Poll_cq (scq qp) 1)) (\<lambda>(r, _). \<not> r \<noteq> 1)) (\<lambda>(_, wc).
     if wc_status wc \<noteq> 0 then fail (Transport_exception (wc_status wc)) else ret ()))"

section \<open>Queue pairs go through their states in order\<close>

lemma GetState_in: "triple (qp_in ty P (qp_ptr qp) s) (GetState P qp) (\<lambda>_. qp_in ty P (qp_ptr qp) s) (legal ty P)"
  unfolding GetState_def
  by (rule triple_bind [OF qp_in_ask]) (auto intro!: triple_if triple_fail triple_ret simp: qp_in_legal split: prod.splits)

lemma QueuePair_new_in:
  "triple (legal ty P) (QueuePair_new P ib ty ms mr)
     (\<lambda>qp tr. qp_type qp = ty \<and> qp_in ty P (qp_ptr qp) IBV_QPS_INIT tr) (legal ty P)"
  unfolding QueuePair_new_def
proof (rule assert_then, rule triple_bind [OF legal_ask], simp, rule triple_bind [OF legal_ask], simp, rule assert_then,
    rule triple_bind [OF legal_create_qp], simp, rule triple_case_prod, rule triple_if)
  fix q :: nat and errno :: int and s r
  let ?a = "qp_attr0\<lparr>qp_state := IBV_QPS_INIT, pkey_index := 0, port_num := kPort, qkey := 0,
      qp_access_flags := {IBV_ACCESS_LOCAL_WRITE, IBV_ACCESS_REMOTE_READ, IBV_ACCESS_REMOTE_WRITE}\<rparr>"
  show "triple (case (q, errno) of (q, _) \<Rightarrow> qp_in ty P q IBV_QPS_RESET)
      (bindv (ask (p_int P) (Modify_qp q ?a ({IBV_QP_STATE, IBV_QP_PORT, IBV_QP_PKEY_INDEX}
          \<union> (if ty = IBV_QPT_RC then {IBV_QP_ACCESS_FLAGS} else {IBV_QP_QKEY})))) (\<lambda>err.
        if err \<noteq> 0 then thenv (exec (Destroy_qp q)) (fail (Transport_exception err))
        else ret \<lparr>qp_type = ty, qp_ptr = q, scq = s, rcq = r, psn = kDefaultPsn\<rparr>))
      (\<lambda>qp tr. qp_type qp = ty \<and> qp_in ty P (qp_ptr qp) IBV_QPS_INIT tr) (legal ty P)"
    unfolding prod.case
    by (rule modify_then)
      (cases ty; auto simp: next_state_def intro!: triple_ret triple_then [OF legal_exec] fail_legal)+
qed (auto intro: fail_legal)

lemma SetStateRTR_in:
  "triple (qp_in IBV_QPT_RC P (qp_ptr qp) IBV_QPS_INIT) (SetStateRTR P qp peer)
     (\<lambda>_. qp_in IBV_QPT_RC P (qp_ptr qp) IBV_QPS_RTR) (legal IBV_QPT_RC P)"
  unfolding SetStateRTR_def
  apply (rule assert_then, rule triple_bind [OF GetState_in], rule assert_then, rule modify_then)
  by (auto simp: next_state_def qp_in_legal intro!: triple_ret fail_legal)

lemma SetStateRTS_in:
  "triple (qp_in IBV_QPT_RC P (qp_ptr qp) IBV_QPS_INIT) (SetStateRTS P qp peer)
     (\<lambda>_. qp_in IBV_QPT_RC P (qp_ptr qp) IBV_QPS_RTS) (legal IBV_QPT_RC P)"
  unfolding SetStateRTS_def
  apply (rule triple_then [OF SetStateRTR_in], rule modify_then)
  by (auto simp: next_state_def intro!: triple_ret fail_legal)

lemma Activate_in:
  "triple (qp_in IBV_QPT_UD P (qp_ptr qp) IBV_QPS_INIT) (Activate P qp)
     (\<lambda>_. qp_in IBV_QPT_UD P (qp_ptr qp) IBV_QPS_RTS) (legal IBV_QPT_UD P)"
  unfolding Activate_def
  apply (rule assert_then, rule triple_bind [OF GetState_in], rule assert_then, rule modify_then)
       prefer 3
       apply (rule modify_then)
  by (auto simp: next_state_def qp_in_legal intro!: triple_ret fail_legal)

text \<open>Creating a queue pair and making it ready to send, as the tablets, the server and the client do.\<close>

definition ready_qp :: "platform \<Rightarrow> Infiniband \<Rightarrow> qp_type \<Rightarrow> nat \<Rightarrow> nat \<Rightarrow> QueuePairInfo \<Rightarrow> QueuePair vprog" where
  "ready_qp P ib ty ms mr peer =
     bindv (QueuePair_new P ib ty ms mr) (\<lambda>qp.
     thenv (if ty = IBV_QPT_RC then SetStateRTS P qp peer else Activate P qp) (ret qp))"

lemma ready_qp_in:
  "triple (legal ty P) (ready_qp P ib ty ms mr peer) (\<lambda>qp. qp_in ty P (qp_ptr qp) IBV_QPS_RTS) (legal ty P)"
  unfolding ready_qp_def
proof (rule triple_bind [OF QueuePair_new_in])
  fix qp
  have "triple (qp_in ty P (qp_ptr qp) IBV_QPS_INIT)
      (thenv (if ty = IBV_QPT_RC then SetStateRTS P qp peer else Activate P qp) (ret qp))
      (\<lambda>qp. qp_in ty P (qp_ptr qp) IBV_QPS_RTS) (legal ty P)"
    by (cases ty) (auto intro!: triple_then [OF SetStateRTS_in] triple_then [OF Activate_in] triple_ret)
  then show "triple (\<lambda>tr. qp_type qp = ty \<and> qp_in ty P (qp_ptr qp) IBV_QPS_INIT tr)
      (thenv (if ty = IBV_QPT_RC then SetStateRTS P qp peer else Activate P qp) (ret qp))
      (\<lambda>qp. qp_in ty P (qp_ptr qp) IBV_QPS_RTS) (legal ty P)"
    by (rule triple_weaken) simp_all
qed

text \<open>
  C27: On every platform, the calls that create a queue pair of either type and make it ready to
  send are in order: it is moved through INIT and RTR to RTS, each time with exactly the
  attributes the transition requires, and a failure at any point is followed by no further move.
  If the program returns, the queue pair is ready to send.
\<close>

theorem queue_pair_order:
  assumes "legal ty P tr" "ready_qp P ib ty ms mr peer tr = (r, tr')"
  shows "legal ty P tr' \<and> (\<forall>qp. r = Inr qp \<longrightarrow> qp_at P tr' (qp_ptr qp) = IBV_QPS_RTS)"
  using triple_run [OF ready_qp_in assms] by (auto simp: qp_in_def split: sum.splits)

text \<open>A platform on which every call succeeds.\<close>

definition good_wc :: wc where
  "good_wc = \<lparr>wc_status = 0, wc_id = 7, wc_byte_len = 64, wc_slid = 3, wc_src_qp = 70\<rparr>"

definition good_platform :: platform where
  "good_platform = \<lparr>p_int = (\<lambda>tr c. case c of Poll_cq _ _ \<Rightarrow> 1 | _ \<Rightarrow> 0), p_ptr = (\<lambda>tr c. length tr + 1), p_wc = (\<lambda>tr c. good_wc),
     p_bytes = (\<lambda>tr c. []), p_byte = (\<lambda>tr c. 0), p_attr = (\<lambda>tr c. qp_attr0\<lparr>qp_state := IBV_QPS_INIT\<rparr>),
     p_lid = (\<lambda>tr c. 3), p_time = (\<lambda>tr c. (0, 0)), p_lkey = (\<lambda>m. 5), p_rkey = (\<lambda>m. 6), p_qp_num = (\<lambda>q. 70)\<rparr>"

definition sample_ib :: Infiniband where
  "sample_ib = \<lparr>ib_ctx = 1, ib_pd = 2, ib_mr = 3, ib_raw_mem = 4096, ib_raw_mem_size = 1024, addr_handlers = (\<lambda>_. 0)\<rparr>"

definition sample_peer :: QueuePairInfo where
  "sample_peer = \<lparr>qpi_lid = 3, qpi_qpn = 70, qpi_psn = 33, qpi_rkey = 9, qpi_vaddr = 4096\<rparr>"

theorem queue_pair_order_witness:
  "\<exists>qp tr'. ready_qp good_platform sample_ib IBV_QPT_RC 128 128 sample_peer [] = (Inr qp, tr')
    \<and> legal IBV_QPT_RC good_platform tr' \<and> qp_at good_platform tr' (qp_ptr qp) = IBV_QPS_RTS"
proof -
  obtain qp tr' where r: "ready_qp good_platform sample_ib IBV_QPT_RC 128 128 sample_peer [] = (Inr qp, tr')"
    by (simp add: ready_qp_def QueuePair_new_def SetStateRTS_def SetStateRTR_def GetState_def vprog_defs good_platform_def
        qp_attr0_def)
  moreover have "legal IBV_QPT_RC good_platform []"
    by simp
  ultimately show ?thesis
    using queue_pair_order [of IBV_QPT_RC good_platform "[]"] by blast
qed

section \<open>Waiting for completions\<close>

lemma spin_ready:
  assumes "\<And>i. i < k \<Longrightarrow> \<exists>x. m (replicate i c @ tr) = (Inr x, c # replicate i c @ tr) \<and> \<not> ready x"
    "m (replicate k c @ tr) = (Inr y, c # replicate k c @ tr)" "ready y" "k < n"
  shows "spin n m ready tr = (Inr y, replicate (Suc k) c @ tr)"
  using assms
proof (induction k arbitrary: n tr)
  case 0
  then show ?case
    by (cases n) (simp_all add: bindv_def ret_def)
next
  case (Suc k)
  obtain n' where n: "n = Suc n'"
    using Suc.prems(4) by (cases n) auto
  have rep: "replicate i c @ c # tr = c # replicate i c @ tr" for i
    by (simp add: replicate_app_Cons_same)
  obtain x where "m tr = (Inr x, c # tr)" "\<not> ready x"
    using Suc.prems(1) [of 0] by auto
  moreover have "spin n' m ready (c # tr) = (Inr y, replicate (Suc k) c @ c # tr)"
    using Suc.prems(1) [of "Suc i" for i] Suc.prems(2-4) n by (intro Suc.IH) (simp_all add: rep)
  ultimately show ?case
    by (simp add: n bindv_def rep)
qed

text \<open>
  \<^verbatim>\<open>Receive\<close> returns: if the receive queue is empty for the first \<open>k\<close> polls and the next poll
  finds a successful completion, it returns the buffer of that completion with the message
  length and the peer address filled in, after exactly \<open>k + 1\<close> polls.
\<close>

lemma Receive_returns:
  assumes "\<forall>i<k. p_int P (replicate i (Poll_cq (rcq qp) 1) @ tr) (Poll_cq (rcq qp) 1) = 0"
    and "0 < p_int P (replicate k (Poll_cq (rcq qp) 1) @ tr) (Poll_cq (rcq qp) 1)"
    and "p_wc P (replicate k (Poll_cq (rcq qp) 1) @ tr) (Poll_cq (rcq qp) 1) = w" "wc_status w = 0" "k < fuel"
  shows "Receive P fuel qp bufs tr =
    (Inr (Some (unat (wc_id w)), bufs(unat (wc_id w) := (bufs (unat (wc_id w)))\<lparr>msg_len := wc_byte_len w,
       peer_addr := \<lparr>ib_port = 1, addr_lid = wc_slid w, addr_qpn = wc_src_qp w\<rparr>\<rparr>)),
     replicate (Suc k) (Poll_cq (rcq qp) 1) @ tr)"
  unfolding Receive_def
proof (rule spin_ready [where k = k])
  show "\<exists>x. TryReceive P qp bufs (replicate i (Poll_cq (rcq qp) 1) @ tr) =
      (Inr x, Poll_cq (rcq qp) 1 # replicate i (Poll_cq (rcq qp) 1) @ tr) \<and> \<not> (case x of (b, _) \<Rightarrow> b \<noteq> None)"
    if "i < k" for i
    using assms(1) that by (simp add: TryReceive_def PollCQ_def vprog_defs)
qed (use assms in \<open>simp_all add: TryReceive_def PollCQ_def vprog_defs kPort_def Let_def\<close>)

lemma Receive_returns_example:
  "fst (Receive good_platform 1 \<lparr>qp_type = IBV_QPT_UD, qp_ptr = 9, scq = 10, rcq = 11, psn = 33\<rparr>
     (\<lambda>_. \<lparr>buf = 0, buf_size = 64, msg_len = 0, buf_mr = 1, peer_addr = blank_address, is_recv = True\<rparr>) []) \<noteq> Inl Out_of_fuel"
  using Receive_returns [of 0 good_platform "\<lparr>qp_type = IBV_QPT_UD, qp_ptr = 9, scq = 10, rcq = 11, psn = 33\<rparr>" "[]" good_wc 1]
  by (simp add: good_platform_def good_wc_def)

text \<open>
  C28: \<^verbatim>\<open>PostSendAndWait\<close> does not notice that polling fails: when every poll of the send queue
  reports an error it posts the request and then polls for ever, and never returns or throws.
\<close>

theorem PostSendAndWait_spins:
  assumes "\<forall>tr. p_int P tr (Poll_cq (scq qp) 1) < 0" "PostSendAndWait P fuel qp b bf len peer ib tr = (r, tr')"
    and "PostSend P qp b bf len peer ib tr = (Inr ib', tr1)" "qp_type qp = IBV_QPT_UD"
  shows "r = Inl Out_of_fuel \<and> tr' = replicate fuel (Poll_cq (scq qp) 1) @ tr1"
proof -
  have "spin n (ask (\<lambda>tr c. (p_int P tr c, p_wc P tr c)) (Poll_cq (scq qp) 1)) (\<lambda>(r, _). \<not> r < 1) t =
      (Inl Out_of_fuel, replicate n (Poll_cq (scq qp) 1) @ t)" for n t
  proof (induction n arbitrary: t)
    case (Suc n)
    have "p_int P t (Poll_cq (scq qp) 1) < 1"
      using assms(1) [rule_format, of t] by simp
    with Suc show ?case
      by (simp add: vprog_defs replicate_app_Cons_same)
  qed (simp add: fail_def)
  with assms(2-4) show ?thesis
    by (simp add: PostSendAndWait_def vprog_defs)
qed

definition failing_polls :: platform where
  "failing_polls = good_platform\<lparr>p_int := (\<lambda>tr c. case c of Poll_cq _ _ \<Rightarrow> - 1 | _ \<Rightarrow> 0)\<rparr>"

theorem PostSendAndWait_spins_witness:
  "fst (PostSendAndWait failing_polls 1000 \<lparr>qp_type = IBV_QPT_UD, qp_ptr = 9, scq = 10, rcq = 11, psn = 33\<rparr> 7
     \<lparr>buf = 0, buf_size = 64, msg_len = 0, buf_mr = 1, peer_addr = blank_address, is_recv = False\<rparr> 24 blank_address sample_ib [])
   = Inl Out_of_fuel"
proof -
  let ?q = "\<lparr>qp_type = IBV_QPT_UD, qp_ptr = 9, scq = 10, rcq = 11, psn = 33\<rparr>"
  let ?b = "\<lparr>buf = 0, buf_size = 64, msg_len = 0, buf_mr = 1, peer_addr = blank_address, is_recv = False\<rparr>"
  have neg: "\<forall>tr. p_int failing_polls tr (Poll_cq (scq ?q) 1) < 0"
    by (simp add: failing_polls_def)
  obtain ib' tr1 where post: "PostSend failing_polls ?q 7 ?b 24 blank_address sample_ib [] = (Inr ib', tr1)"
    by (simp add: PostSend_def GetAddrHandler_def vprog_defs failing_polls_def good_platform_def sample_ib_def)
  show ?thesis
    using PostSendAndWait_spins [OF neg prod.collapse [symmetric] post] by simp
qed

end
