(* ===== verification/Replication.thy ===== *)
theory Replication
  imports Write_Log Infiniband
begin

text \<open>
  The replication of a tablet, the Infiniband part of \<^verbatim>\<open>src/tablet.cc\<close>: the constructor and the
  destructor, the connection of the queue pairs of a master tablet and its backups, and the
  \<^verbatim>\<open>Sync\<close> that writes the merged modifications of a request into the memory of the backups.

  The elements of \<^verbatim>\<open>std::array\<close> members are accessed without a check, so an index outside the
  array is \<open>Undefined_behaviour\<close>. The tablet holds a reference to the index manager, which is an
  argument of the methods that read it.
\<close>

section \<open>The tablet and its connections\<close>

definition kMaxIBQueueDepth :: nat where
  "kMaxIBQueueDepth = 128"

definition kNumScatters :: nat where
  "kNumScatters = 16"

record Tablet =
  tb_info :: TabletInfo
  tb_nvm :: nat
  tb_ib :: Infiniband
  tb_mr :: nat
  tb_qps :: "QueuePair list"

definition checked :: "'a option \<Rightarrow> 'a vprog" where
  "checked x = (case x of None \<Rightarrow> fail Undefined_behaviour | Some v \<Rightarrow> ret v)"

lemma checked_Inr: "checked x tr = (Inr y, tr') \<longleftrightarrow> x = Some y \<and> tr' = tr"
  by (auto simp: checked_def ret_def fail_def split: option.splits)

text \<open>One round of the constructor's loop: a new queue pair and the description its peer needs.\<close>

definition Tablet_new_qp :: "platform \<Rightarrow> Infiniband \<Rightarrow> nat \<Rightarrow> nat \<Rightarrow> nat
    \<Rightarrow> TabletInfo \<times> QueuePair list \<Rightarrow> (TabletInfo \<times> QueuePair list) vprog" where
  "Tablet_new_qp P ib mr nvm i = (\<lambda>(info, qps).
     bindv (QueuePair_new P ib IBV_QPT_RC kMaxIBQueueDepth kMaxIBQueueDepth) (\<lambda>qp.
     bindv (GetLid P ib kPort) (\<lambda>lid.
     bindv (checked (array_upd (qpis info) i (\<lambda>_.
              \<lparr>qpi_lid = lid, qpi_qpn = p_qp_num P (qp_ptr qp), qpi_psn = kDefaultPsn, qpi_rkey = p_rkey P mr,
               qpi_vaddr = of_nat nvm\<rparr>))) (\<lambda>qs.
     ret (info\<lparr>qpis := qs\<rparr>, qps @ [qp])))))"

definition Tablet_new :: "platform \<Rightarrow> Config \<Rightarrow> TabletInfo \<Rightarrow> nat \<Rightarrow> bool \<Rightarrow> Tablet vprog" where
  "Tablet_new P cfg info0 nvm backup =
     bindv (Infiniband_new P 1024) (\<lambda>ib.
     bindv (ask (p_ptr P) (Reg_mr (ib_pd ib) nvm kNVMTabletSize {IBV_ACCESS_LOCAL_WRITE, IBV_ACCESS_REMOTE_WRITE})) (\<lambda>mr.
     thenv (assertv (mr \<noteq> 0)) (
     bindv (forv [0..<kNumReplicas cfg] (Tablet_new_qp P ib mr nvm) (info0\<lparr>is_backup := backup\<rparr>, [])) (\<lambda>(info, qps).
     ret \<lparr>tb_info = info, tb_nvm = nvm, tb_ib = ib, tb_mr = mr, tb_qps = qps\<rparr>))))"

definition Tablet_delete :: "platform \<Rightarrow> Tablet \<Rightarrow> unit vprog" where
  "Tablet_delete P tb =
     thenv (forv (rev (tb_qps tb)) (\<lambda>qp _. QueuePair_delete P qp) ()) (
     bindv (ask (p_int P) (Dereg_mr (tb_mr tb))) (\<lambda>err.
     thenv (assertv (err = 0)) (
     Infiniband_delete P (tb_ib tb))))"

text \<open>
  The loop of a backup that looks for itself among the backups of its master; \<open>n\<close> rounds are left
  after which the bound \<^verbatim>\<open>kNumReplicas\<close> is reached.
\<close>

fun find_replica :: "platform \<Rightarrow> Tablet \<Rightarrow> nat \<Rightarrow> TabletInfo \<Rightarrow> nat \<Rightarrow> nat \<Rightarrow> unit vprog" where
  "find_replica P tb t mi i 0 = ret ()"
| "find_replica P tb t mi i (Suc n) =
     bindv (checked (array_get (backups mi) i)) (\<lambda>b.
     if b = t
     then bindv (checked (array_get (tb_qps tb) 0)) (\<lambda>qp.
          bindv (checked (array_get (qpis mi) i)) (\<lambda>peer. SetStateRTR P qp peer))
     else thenv (assertv (n \<noteq> 0)) (find_replica P tb t mi (Suc i) n))"

definition connect_backup :: "platform \<Rightarrow> IndexManager \<Rightarrow> Tablet \<Rightarrow> nat \<Rightarrow> unit vprog" where
  "connect_backup P im tb i =
     bindv (checked (array_get (backups (tb_info tb)) i)) (\<lambda>b.
     bindv (checked (GetTablet im b)) (\<lambda>bi.
     thenv (assertv (is_backup bi)) (
     bindv (checked (array_get (tb_qps tb) i)) (\<lambda>qp.
     bindv (checked (array_get (qpis bi) 0)) (\<lambda>peer. SetStateRTS P qp peer)))))"

definition SettingupQPConnect :: "platform \<Rightarrow> Config \<Rightarrow> Tablet \<Rightarrow> nat \<Rightarrow> IndexManager \<Rightarrow> Tablet vprog" where
  "SettingupQPConnect P cfg tb t im =
     bindv (checked (GetTablet im t)) (\<lambda>info.
     let tb = tb\<lparr>tb_info := info\<rparr> in
     thenv (if is_backup info
            then bindv (checked (GetTablet im (master info))) (\<lambda>mi.
                 thenv (assertv (\<not> is_backup mi)) (find_replica P tb t mi 0 (kNumReplicas cfg)))
            else forv [0..<kNumReplicas cfg] (\<lambda>i _. connect_backup P im tb i) ()) (
     ret tb))"

section \<open>Sync\<close>

text \<open>The work request for one modification.\<close>

definition sync_wr :: "platform \<Rightarrow> Tablet \<Rightarrow> QueuePairInfo \<Rightarrow> Modification \<Rightarrow> send_wr" where
  "sync_wr P tb q m = \<lparr>wr_id = 1,
     sg_list = [\<lparr>sge_addr = src m, sge_length = len m, sge_lkey = p_lkey P (tb_mr tb)\<rparr>],
     opcode = IBV_WR_RDMA_WRITE, send_flags = {IBV_SEND_INLINE},
     dest = Rdma (qpi_vaddr q + ucast (des m)) (qpi_rkey q)\<rparr>"

text \<open>
  The chain of work requests for one backup. The loop over the modifications ends with a
  \<^verbatim>\<open>break\<close>, so it is left after the first one; the last request of the chain is signalled.
\<close>

definition sync_chain :: "platform \<Rightarrow> Tablet \<Rightarrow> QueuePairInfo \<Rightarrow> Modification list \<Rightarrow> send_wr list option" where
  "sync_chain P tb q ms =
     (case ms of
        [] \<Rightarrow> None
      | m # _ \<Rightarrow> let wr = sync_wr P tb q m in Some [wr\<lparr>send_flags := insert IBV_SEND_SIGNALED (send_flags wr)\<rparr>])"

definition sync_backup :: "platform \<Rightarrow> IndexManager \<Rightarrow> Tablet \<Rightarrow> Modification list \<Rightarrow> nat \<Rightarrow> unit vprog" where
  "sync_backup P im tb ms k =
     bindv (checked (array_get (backups (tb_info tb)) k)) (\<lambda>b.
     bindv (checked (GetTablet im b)) (\<lambda>bi.
     thenv (assertv (is_backup bi)) (
     bindv (checked (array_get (qpis bi) 0)) (\<lambda>q.
     bindv (checked (sync_chain P tb q ms)) (\<lambda>wrs.
     bindv (checked (array_get (tb_qps tb) k)) (\<lambda>qp.
     bindv (ask (p_int P) (Post_send (qp_ptr qp) wrs)) (\<lambda>err.
     if err \<noteq> 0 then fail (Transport_exception err) else ret ())))))))"

definition sync_wait :: "platform \<Rightarrow> nat \<Rightarrow> QueuePair \<Rightarrow> unit vprog" where
  "sync_wait P fuel qp =
     bindv (spin fuel (ask (\<lambda>tr c. (p_int P tr c, p_wc P tr c)) (Poll_cq (scq qp) 1)) (\<lambda>(r, _). r = 1)) (\<lambda>(_, wc).
     if wc_status wc \<noteq> 0 then fail (Transport_exception (wc_status wc)) else ret ())"

definition Sync :: "platform \<Rightarrow> nat \<Rightarrow> IndexManager \<Rightarrow> Tablet \<Rightarrow> Modification list \<Rightarrow> Modification list vprog" where
  "Sync P fuel im tb mods =
     (if mods = [] then ret mods
      else
        bindv (case MergeModifications mods of None \<Rightarrow> fail Assertion_failed | Some ms \<Rightarrow> ret ms) (\<lambda>ms.
        thenv (forv [0..<length (backups (tb_info tb))] (\<lambda>k _. sync_backup P im tb ms k) ()) (
        thenv (forv (tb_qps tb) (\<lambda>qp _. sync_wait P fuel qp) ()) (
        ret ms))))"

section \<open>The effect on the memory of a backup\<close>

text \<open>
  An RDMA write copies the segment of the local memory to the remote address. Both memories are
  given from their base address on.
\<close>

definition rdma_write_mem :: "u64 \<Rightarrow> mem \<Rightarrow> u64 \<Rightarrow> send_wr \<Rightarrow> mem \<Rightarrow> mem" where
  "rdma_write_mem lbase lmem rbase wr rmem =
     (let g = hd (sg_list wr)
      in write_bytes rmem (unat (remote_addr (dest wr) - rbase)) (read_bytes lmem (unat (sge_addr g - lbase)) (unat (sge_length g))))"

definition rdma_writes_mem :: "u64 \<Rightarrow> mem \<Rightarrow> u64 \<Rightarrow> send_wr list \<Rightarrow> mem \<Rightarrow> mem" where
  "rdma_writes_mem lbase lmem rbase wrs rmem = fold (rdma_write_mem lbase lmem rbase) wrs rmem"

lemma rdma_writes_mem_simps [simp]:
  "rdma_writes_mem lbase lmem rbase [] rmem = rmem"
  "rdma_writes_mem lbase lmem rbase (w # ws) rmem = rdma_writes_mem lbase lmem rbase ws (rdma_write_mem lbase lmem rbase w rmem)"
  by (simp_all add: rdma_writes_mem_def)

lemma rdma_write_sync:
  assumes "src m = lbase + ucast (des m)" "sg_list w = sg_list (sync_wr P tb q m)" "dest w = dest (sync_wr P tb q m)"
    "unat (des m) + unat (len m) \<le> kNVMTabletSize"
  shows "rdma_write_mem lbase lmem (qpi_vaddr q) w rmem i = (if covers m i then lmem i else rmem i)"
  using assms by (auto simp: rdma_write_mem_def sync_wr_def covers_def write_bytes_def Let_def unat_ucast_u32)

text \<open>Copying ranges that cover every difference makes the two memories equal.\<close>

lemma rdma_writes_sync:
  assumes "\<And>m. m \<in> set ms \<Longrightarrow> src m = lbase + ucast (des m) \<and> unat (des m) + unat (len m) \<le> kNVMTabletSize"
  shows "rdma_writes_mem lbase lmem (qpi_vaddr q) (map (sync_wr P tb q) ms) rmem i =
    (if \<exists>m\<in>set ms. covers m i then lmem i else rmem i)"
  using assms
proof (induction ms arbitrary: rmem)
  case (Cons m ms)
  then have "rdma_write_mem lbase lmem (qpi_vaddr q) (sync_wr P tb q m) rmem i = (if covers m i then lmem i else rmem i)"
    by (intro rdma_write_sync) simp_all
  with Cons show ?case
    by simp
qed simp

lemma in_range_no_wrap: "in_range s m \<Longrightarrow> no_wrap m"
  by (simp add: in_range_def no_wrap_def kNVMTabletSize_def)

lemma logged_merge:
  assumes "logged (set_modifications s []) s'" "modifications s' \<noteq> []"
  shows "\<exists>ys. MergeModifications (modifications s') = Some ys \<and> ys \<noteq> []
    \<and> (\<forall>m\<in>set ys. src m = nvm_base s + ucast (des m) \<and> unat (des m) + unat (len m) \<le> kNVMTabletSize)
    \<and> (\<forall>i. nvm_data s' i \<noteq> nvm_data s i \<longrightarrow> (\<exists>m\<in>set ys. covers m i))"
proof -
  have ms: "\<forall>m\<in>set (modifications s'). in_range s m"
      "\<forall>i. nvm_data s' i \<noteq> nvm_data s i \<longrightarrow> (\<exists>m\<in>set (modifications s'). covers m i)"
    using assms(1) by (auto simp: logged_def set_modifications_def in_range_def)
  have nw: "no_wrap m" if "m \<in> set (modifications s')" for m
    using that ms(1) in_range_no_wrap by blast
  obtain ys where ys: "MergeModifications (modifications s') = Some ys" "ys \<noteq> []"
    using MergeModifications_nonempty [OF assms(2)] nw by blast
  show ?thesis
  proof (intro exI conjI ballI allI impI, rule ys(1), rule ys(2))
    fix y
    assume y: "y \<in> set ys"
    show "src y = nvm_base s + ucast (des y)"
      using ms(1) by (intro MergeModifications_source [OF ys(1) nw _ y]) (auto simp: in_range_def)
    obtain m' where "m' \<in> set (modifications s')" "unat (des y) + unat (len y) = unat (des m') + unat (len m')"
      using MergeModifications_end [OF ys(1) nw y] by blast
    with ms(1) show "unat (des y) + unat (len y) \<le> kNVMTabletSize"
      by (auto simp: in_range_def)
  next
    fix i
    assume "nvm_data s' i \<noteq> nvm_data s i"
    then show "\<exists>y\<in>set ys. covers y i"
      using ms(2) MergeModifications_covers [OF ys(1) nw] by blast
  qed
qed

text \<open>The operations of a tablet that a request can ask for.\<close>

definition operates :: "Allocator \<Rightarrow> Request \<Rightarrow> Allocator \<Rightarrow> bool" where
  "operates s r s' \<longleftrightarrow> (\<exists>st. Tablet.Put s r [] = Some (st, s') \<or> Tablet.Add s r [] = Some (st, s') \<or> Del s r [] = Some (st, s')
     \<or> (\<exists>v. Get s r [] = Some (st, v, s')))"

lemma operates_logged: "operates s r s' \<Longrightarrow> logged (set_modifications s []) s'"
  unfolding operates_def using Put_logged Add_logged Del_logged Get_logged by (metis logged_refl)

text \<open>
  C29: The modification list of a request is enough for replication: whatever a \<^verbatim>\<open>Put\<close>, \<^verbatim>\<open>Add\<close>,
  \<^verbatim>\<open>Del\<close> or \<^verbatim>\<open>Get\<close> did, its merged modifications are ranges inside the tablet, and writing them all
  to a backup that held the tablet as it was before makes it equal to the tablet after it.
\<close>

theorem merged_modifications_replicate:
  assumes "operates s r s'" "modifications s' \<noteq> []"
  shows "\<exists>ys. MergeModifications (modifications s') = Some ys
    \<and> (\<forall>m\<in>set ys. unat (des m) + unat (len m) \<le> kNVMTabletSize)
    \<and> rdma_writes_mem (nvm_base s) (nvm_data s') (qpi_vaddr q) (map (sync_wr P tb q) ys) (nvm_data s) = nvm_data s'"
proof -
  obtain ys where ys: "MergeModifications (modifications s') = Some ys"
    "\<forall>m\<in>set ys. src m = nvm_base s + ucast (des m) \<and> unat (des m) + unat (len m) \<le> kNVMTabletSize"
    "\<forall>i. nvm_data s' i \<noteq> nvm_data s i \<longrightarrow> (\<exists>m\<in>set ys. covers m i)"
    using logged_merge [OF operates_logged [OF assms(1)] assms(2)] by blast
  have "rdma_writes_mem (nvm_base s) (nvm_data s') (qpi_vaddr q) (map (sync_wr P tb q) ys) (nvm_data s) = nvm_data s'"
    by (rule ext) (use ys(3) in \<open>auto simp: rdma_writes_sync [OF bspec [OF ys(2)]] dest: not_sym\<close>)
  with ys show ?thesis
    by blast
qed

text \<open>
  A tablet with one object, of a 9-byte key and a 5-byte value, at offset 1000 in bucket 0, and a
  request that shortens its value: the length and the value are changed 19 bytes apart.
\<close>

definition sample_mem :: mem where
  "sample_mem i = (if i = 67108864 then 232 else if i = 67108865 then 3 else if i = 1004 then 9 else if i = 1006 then 5
     else if 1016 \<le> i \<and> i < 1025 then 7 else 0)"

definition sample_tablet :: Allocator where
  "sample_tablet = \<lparr>nvm_base = 4096, nvm_data = sample_mem, cnt_writes = 0, modifications = []\<rparr>"

definition sample_shorten :: Request where
  "sample_shorten = Request_New PUT (replicate 9 7) [5] 0"

definition shortened :: Allocator where
  "shortened = (log_write (log_write sample_tablet 1006 [1, 0]) 1025 [5])\<lparr>cnt_writes := 1\<rparr>"

lemma sample_Put: "Tablet.Put sample_tablet sample_shorten [] = Some (OK, shortened)"
proof -
  have u: "[67108864..<67108868] = [67108864, 67108865, 67108866, 67108867 :: nat]" "[1004..<1006] = [1004, 1005 :: nat]"
    "[1006..<1008] = [1006, 1007 :: nat]" "[1016..<1025] = [1016, 1017, 1018, 1019, 1020, 1021, 1022, 1023, 1024 :: nat]"
    by (simp_all add: upt_rec)
  have r: "Read32 sample_tablet 67108864 = Some 1000" "Read16 sample_tablet 1004 = Some 9" "Read16 sample_tablet 1006 = Some 5"
    by (simp_all add: Read32_def Read16_def Read_def ensure_def in_tablet_def kNVMTabletSize_def sample_tablet_def read_bytes_def u
        sample_mem_def word_of_le_def)
  have k: "Key sample_shorten = replicate 9 7" "slot_of sample_shorten = 67108864" "key_len sample_shorten = 9"
      "val_len sample_shorten = 1" "Val sample_shorten = [5]" "req_type sample_shorten = PUT"
    by (simp_all add: sample_shorten_def Request_New_def Key_def Val_def slot_of_def kSize_def)
  have n: "replicate 9 (7 :: u8) = [7, 7, 7, 7, 7, 7, 7, 7, 7]"
    by (simp add: numeral_eq_Suc)
  have c: "Memcmp sample_tablet 1016 (replicate 9 7) = Some False"
    by (simp add: Memcmp_def ensure_def in_tablet_def kNVMTabletSize_def sample_tablet_def read_bytes_def u sample_mem_def n)
  have m: "set_modifications sample_tablet [] = sample_tablet"
    by (simp add: set_modifications_def sample_tablet_def)
  have f: "find_loop sample_tablet sample_shorten 67108864 1000 = Some (67108864, 1000)"
    by (subst find_loop.simps) (simp add: key_matches_def r k c)
  have b: "le_bytes 2 (1 :: u16) = [1, 0]"
    by (simp add: le_bytes_def upt_rec)
  show ?thesis
    by (simp add: Tablet.Put_def m k r f Let_def ensure_def Write_def Memcpy_in_def in_tablet_def kNVMTabletSize_def b shortened_def
        log_write_def) (simp add: sample_tablet_def)
qed

lemma shortened_modifications:
  "modifications shortened = [\<lparr>des = 1006, len = 2, src = 5102\<rparr>, \<lparr>des = 1025, len = 1, src = 5121\<rparr>]"
  by (simp add: shortened_def log_write_def sample_tablet_def)

lemma shortened_merged:
  "MergeModifications [\<lparr>des = 1006, len = 2, src = 5102\<rparr>, \<lparr>des = 1025, len = 1, src = 5121\<rparr>] =
     Some [\<lparr>des = 1006, len = 2, src = 5102\<rparr>, \<lparr>des = 1025, len = 1, src = 5121\<rparr>]"
  by code_simp

lemma sample_operates: "operates sample_tablet sample_shorten shortened"
  unfolding operates_def using sample_Put by blast

definition sample_backup :: TabletInfo where
  "sample_backup = \<lparr>tablet_id = 1, server_id = 1, is_backup = True, qpis = [sample_peer], backups = [0]\<rparr>"

definition sample_handle :: Tablet where
  "sample_handle = \<lparr>tb_info = sample_backup\<lparr>is_backup := False, backups := [1]\<rparr>, tb_nvm = 4096, tb_ib = sample_ib, tb_mr = 3,
     tb_qps = [\<lparr>qp_type = IBV_QPT_RC, qp_ptr = 9, scq = 10, rcq = 11, psn = 33\<rparr>]\<rparr>"

definition sample_index :: IndexManager where
  "sample_index = \<lparr>key_tablet_map = [0, 1], im_tablets = [sample_backup, sample_backup], im_servers = []\<rparr>"

theorem merged_modifications_replicate_witness:
  "rdma_writes_mem 4096 (nvm_data shortened) (qpi_vaddr sample_peer)
     (map (sync_wr good_platform sample_handle sample_peer) [\<lparr>des = 1006, len = 2, src = 5102\<rparr>, \<lparr>des = 1025, len = 1, src = 5121\<rparr>]) sample_mem
   = nvm_data shortened"
  using merged_modifications_replicate [OF sample_operates, where q = sample_peer and P = good_platform and tb = sample_handle]
  by (simp add: shortened_modifications shortened_merged sample_tablet_def)

section \<open>What Sync writes\<close>

definition posts :: "history \<Rightarrow> vcall list" where
  "posts tr = filter (\<lambda>c. case c of Post_send _ _ \<Rightarrow> True | _ \<Rightarrow> False) tr"

lemma posts_Cons [simp]:
  "posts (Post_send q wrs # tr) = Post_send q wrs # posts tr" "posts (Poll_cq cq n # tr) = posts tr"
  by (simp_all add: posts_def)

text \<open>The queue pair description of the \<open>k\<close>-th backup, and the request posted for it.\<close>

definition backup_peer :: "IndexManager \<Rightarrow> Tablet \<Rightarrow> nat \<Rightarrow> QueuePairInfo" where
  "backup_peer im tb k = qpis (im_tablets im ! (backups (tb_info tb) ! k)) ! 0"

definition sync_post :: "platform \<Rightarrow> IndexManager \<Rightarrow> Tablet \<Rightarrow> Modification \<Rightarrow> nat \<Rightarrow> send_wr" where
  "sync_post P im tb m k = (sync_wr P tb (backup_peer im tb k) m)\<lparr>send_flags := {IBV_SEND_SIGNALED, IBV_SEND_INLINE}\<rparr>"

lemma sync_backup_posts:
  "triple (\<lambda>tr. posts tr = X) (sync_backup P im tb (m # ms) k)
     (\<lambda>_ tr. posts tr = Post_send (qp_ptr (tb_qps tb ! k)) [sync_post P im tb m k] # X) (\<lambda>_. True)"
  by (auto simp: triple_def sync_backup_def checked_def vprog_defs array_get_def GetTablet_def sync_chain_def sync_post_def
      backup_peer_def sync_wr_def Let_def)

lemma forv_posts:
  assumes "\<And>k X. triple (\<lambda>tr. posts tr = X) (f k ()) (\<lambda>_ tr. posts tr = g k @ X) C"
  shows "triple (\<lambda>tr. posts tr = X) (forv ks f ()) (\<lambda>_ tr. posts tr = concat (map g (rev ks)) @ X) C"
proof (induction ks arbitrary: X)
  case (Cons k ks)
  show ?case
    using triple_bind [OF assms [of X k] Cons [of "g k @ X"]] by simp
qed (simp add: triple_ret)

lemma sync_wait_posts:
  "triple (\<lambda>tr. posts tr = X) (sync_wait P fuel qp) (\<lambda>_ tr. posts tr = [] @ X) (\<lambda>_. True)"
  unfolding sync_wait_def
  by (rule triple_bind [OF triple_spin [OF triple_ask]]) (auto intro!: triple_if triple_fail triple_ret split: prod.splits)

lemma Sync_posts:
  assumes "MergeModifications mods = Some (m # ms)" "mods \<noteq> []"
  shows "triple (\<lambda>tr. posts tr = X) (Sync P fuel im tb mods)
    (\<lambda>_ tr. posts tr = concat (map (\<lambda>k. [Post_send (qp_ptr (tb_qps tb ! k)) [sync_post P im tb m k]])
       (rev [0..<length (backups (tb_info tb))])) @ X) (\<lambda>_. True)"
proof -
  have "triple (\<lambda>tr. posts tr = Y) (forv (tb_qps tb) (\<lambda>qp _. sync_wait P fuel qp) ())
      (\<lambda>_ tr. posts tr = concat (map (\<lambda>_. []) (rev (tb_qps tb))) @ Y) (\<lambda>_. True)" for Y
    by (rule forv_posts) (rule sync_wait_posts)
  then have wait: "triple (\<lambda>tr. posts tr = Y) (forv (tb_qps tb) (\<lambda>qp _. sync_wait P fuel qp) ()) (\<lambda>_ tr. posts tr = Y) (\<lambda>_. True)" for Y
    by (simp add: map_replicate_const)
  have "Sync P fuel im tb mods = thenv (forv [0..<length (backups (tb_info tb))] (\<lambda>k _. sync_backup P im tb (m # ms) k) ())
      (thenv (forv (tb_qps tb) (\<lambda>qp _. sync_wait P fuel qp) ()) (ret (m # ms)))"
    using assms by (simp add: Sync_def bindv_def ret_def)
  moreover have "triple (\<lambda>tr. posts tr = X) (forv ks (\<lambda>k _. sync_backup P im tb (m # ms) k) ())
      (\<lambda>_ tr. posts tr = concat (map (\<lambda>k. [Post_send (qp_ptr (tb_qps tb ! k)) [sync_post P im tb m k]]) (rev ks)) @ X) (\<lambda>_. True)" for ks
    by (rule forv_posts) (use sync_backup_posts in simp)
  ultimately show ?thesis
    by (simp only:) (intro triple_then [OF _ triple_then [OF wait triple_ret]]; assumption?; simp)
qed

text \<open>
  C30: \<^verbatim>\<open>Sync\<close> of the modifications of a request, on whatever platform it returns, has posted exactly
  one RDMA write to each backup, and that write carries the first merged range only: a backup that
  held the tablet as it was before agrees with the tablet on that range and keeps the old byte
  everywhere else. So it is complete exactly when all changed bytes are in the first range.
\<close>

theorem Sync_copies_first_range:
  assumes "operates s r s'" "modifications s' \<noteq> []"
    and "Sync P fuel im tb (modifications s') tr = (Inr ms', tr')"
  shows "\<exists>m ms. MergeModifications (modifications s') = Some (m # ms)
    \<and> posts tr' = rev (map (\<lambda>k. Post_send (qp_ptr (tb_qps tb ! k)) [sync_post P im tb m k])
        [0..<length (backups (tb_info tb))]) @ posts tr
    \<and> (\<forall>k. \<forall>i. rdma_writes_mem (nvm_base s) (nvm_data s') (qpi_vaddr (backup_peer im tb k)) [sync_post P im tb m k] (nvm_data s) i =
         (if covers m i then nvm_data s' i else nvm_data s i))"
proof -
  obtain ys where ys: "MergeModifications (modifications s') = Some ys" "ys \<noteq> []"
    "\<forall>m\<in>set ys. src m = nvm_base s + ucast (des m) \<and> unat (des m) + unat (len m) \<le> kNVMTabletSize"
    using logged_merge [OF operates_logged [OF assms(1)] assms(2)] by blast
  then obtain m ms where m: "ys = m # ms"
    by (cases ys) auto
  have "posts tr' = rev (map (\<lambda>k. Post_send (qp_ptr (tb_qps tb ! k)) [sync_post P im tb m k])
      [0..<length (backups (tb_info tb))]) @ posts tr"
    using triple_run [OF Sync_posts [OF ys(1) [unfolded m] assms(2)] refl assms(3)] by (simp add: concat_map_singleton rev_map)
  moreover have "rdma_write_mem (nvm_base s) (nvm_data s') (qpi_vaddr (backup_peer im tb k)) (sync_post P im tb m k) (nvm_data s) i =
      (if covers m i then nvm_data s' i else nvm_data s i)" for k i
    using ys(3) by (intro rdma_write_sync [where P = P and tb = tb]) (simp_all add: m sync_post_def sync_wr_def)
  ultimately show ?thesis
    using ys(1) m by auto
qed

text \<open>The new value of the shortened object does not reach the backup.\<close>

theorem Sync_copies_first_range_witness:
  "\<exists>wr tr'. Sync good_platform 1 sample_index sample_handle (modifications shortened) [] =
      (Inr [\<lparr>des = 1006, len = 2, src = 5102\<rparr>, \<lparr>des = 1025, len = 1, src = 5121\<rparr>], tr')
    \<and> posts tr' = [Post_send 9 [wr]]
    \<and> rdma_writes_mem 4096 (nvm_data shortened) (qpi_vaddr sample_peer) [wr] sample_mem 1006 = 1
    \<and> rdma_writes_mem 4096 (nvm_data shortened) (qpi_vaddr sample_peer) [wr] sample_mem 1025 = 0
    \<and> nvm_data shortened 1006 = 1 \<and> nvm_data shortened 1025 = 5"
proof -
  obtain tr' where run: "Sync good_platform 1 sample_index sample_handle (modifications shortened) [] =
      (Inr [\<lparr>des = 1006, len = 2, src = 5102\<rparr>, \<lparr>des = 1025, len = 1, src = 5121\<rparr>], tr')"
    unfolding Sync_def shortened_modifications shortened_merged
    by (simp add: sample_handle_def sample_index_def sample_backup_def sync_backup_def sync_wait_def sync_chain_def checked_def
        vprog_defs good_platform_def good_wc_def GetTablet_def array_get_def Let_def)
  have d: "nvm_data shortened 1006 = 1" "nvm_data shortened 1025 = 5" "sample_mem 1025 = 0"
    by (simp_all add: shortened_def log_write_def sample_tablet_def write_bytes_def sample_mem_def)
  have p: "backup_peer sample_index sample_handle 0 = sample_peer"
    by (simp add: backup_peer_def sample_index_def sample_handle_def sample_backup_def)
  let ?wr = "sync_post good_platform sample_index sample_handle \<lparr>des = 1006, len = 2, src = 5102\<rparr> 0"
  have h: "length (backups (tb_info sample_handle)) = 1" "qp_ptr (tb_qps sample_handle ! 0) = 9"
    by (simp_all add: sample_handle_def)
  have c: "posts tr' = [Post_send 9 [?wr]]"
    and w: "\<forall>k i. rdma_writes_mem 4096 (nvm_data shortened) (qpi_vaddr (backup_peer sample_index sample_handle k))
        [sync_post good_platform sample_index sample_handle \<lparr>des = 1006, len = 2, src = 5102\<rparr> k] sample_mem i =
       (if covers \<lparr>des = 1006, len = 2, src = 5102\<rparr> i then nvm_data shortened i else sample_mem i)"
    using Sync_copies_first_range [OF sample_operates _ run]
    by (simp_all add: shortened_modifications shortened_merged h sample_tablet_def posts_def del: rdma_writes_mem_simps)
  show ?thesis
    using run c d w [THEN spec, of 0, unfolded p, THEN spec, of 1006] w [THEN spec, of 0, unfolded p, THEN spec, of 1025]
    by (intro exI [of _ ?wr] exI [of _ tr']) (simp add: covers_def del: rdma_writes_mem_simps)
qed

section \<open>The links between a master and its backups\<close>

lemma checked_Some [simp]: "checked (Some x) = ret x"
  by (simp add: checked_def)

lemma vprog_units [simp]: "bindv (ret x) f = f x" "thenv (ret x) m = m" "assertv True = ret ()" "thenv m (ret ()) = m" "bindv m ret = m"
  by (auto simp: fun_eq_iff bindv_def thenv_def ret_def assertv_def split: prod.splits sum.splits)

lemma forv_cong_set: "(\<And>i s. i \<in> set is \<Longrightarrow> f i s = g i s) \<Longrightarrow> forv is f s = forv is g s"
proof (induction "is" arbitrary: s)
  case (Cons i "is")
  then have "forv is f = forv is g"
    by (simp add: fun_eq_iff)
  with Cons.prems show ?case
    by simp
qed simp

lemma forv_singleton [simp]: "forv [i] f s = f i s"
  by (auto simp: fun_eq_iff bindv_def ret_def split: prod.splits sum.splits)

lemma find_replica_found:
  assumes "i \<le> j" "j < i + n" "i + n \<le> length (backups mi)" "length (qpis mi) = length (backups mi)" "tb_qps tb \<noteq> []"
    "distinct (backups mi)"
  shows "find_replica P tb (backups mi ! j) mi i n = SetStateRTR P (tb_qps tb ! 0) (qpis mi ! j)"
  using assms
proof (induction n arbitrary: i)
  case (Suc n)
  have "i < length (backups mi)" "j < length (backups mi)"
    using Suc.prems by simp_all
  then have eq: "backups mi ! i = backups mi ! j \<longleftrightarrow> i = j"
    using Suc.prems(6) by (simp add: nth_eq_iff_index_eq)
  show ?case
  proof (cases "i = j")
    case True
    then show ?thesis
      using Suc.prems by simp
  next
    case False
    then have "n \<noteq> 0" "Suc i \<le> j"
      using Suc.prems by auto
    then show ?thesis
      using Suc.IH [of "Suc i"] Suc.prems eq False by simp
  qed
qed simp

lemma distinct_mapI: "distinct (map f xs) \<Longrightarrow> distinct xs"
  by (simp add: distinct_map)

lemma wired_tablets:
  assumes "wf_index cfg im" "wired cfg im i k" "i < kNumServers cfg" "k < kNumTabletsPerServer cfg"
    and t: "t = CalcTabletId cfg i 0 k" "ti = im_tablets im ! t"
  shows "GetTablet im t = Some ti" "\<not> is_backup ti" "length (backups ti) = kNumReplicas cfg" "distinct (backups ti)"
    "j < kNumReplicas cfg \<Longrightarrow> GetTablet im (backups ti ! j) = Some (im_tablets im ! (backups ti ! j))"
    "j < kNumReplicas cfg \<Longrightarrow> is_backup (im_tablets im ! (backups ti ! j))"
    "j < kNumReplicas cfg \<Longrightarrow> master (im_tablets im ! (backups ti ! j)) = t"
proof -
  let ?b = "\<lambda>j. CalcTabletId cfg ((i + j) mod kNumServers cfg) j k"
  have len: "length (im_tablets im) = kNumTabletAndBackups cfg"
    using assms(1) by (simp add: wf_index_def)
  have b: "backups ti = map ?b [1..<kNumReplicas cfg + 1]"
    and w: "\<not> is_backup ti" "\<forall>b\<in>set (backups ti). is_backup (im_tablets im ! b) \<and> master (im_tablets im ! b) = t"
      "distinct (map (\<lambda>b. server_id (im_tablets im ! b)) (backups ti))"
    using assms(2) by (auto simp: wired_def Let_def t simp del: upt_Suc)
  show "\<not> is_backup ti" "length (backups ti) = kNumReplicas cfg" "distinct (backups ti)"
    using w(1) b distinct_mapI [OF w(3)] by simp_all
  show "GetTablet im t = Some ti"
    using CalcTabletId_less [of i cfg 0 k] assms(3,4) by (simp add: GetTablet_def t len)
  fix j
  assume j: "j < kNumReplicas cfg"
  have "(i + Suc j) mod kNumServers cfg < kNumServers cfg"
    using assms(3) by (intro mod_less_divisor) simp
  then have "backups ti ! j < length (im_tablets im)"
    using CalcTabletId_less [of "(i + Suc j) mod kNumServers cfg" cfg "Suc j" k] assms(4) j
    by (simp add: b len del: upt_Suc)
  then show "GetTablet im (backups ti ! j) = Some (im_tablets im ! (backups ti ! j))"
    by (simp add: GetTablet_def)
  have "backups ti ! j \<in> set (backups ti)"
    using j \<open>length (backups ti) = kNumReplicas cfg\<close> by simp
  then show "is_backup (im_tablets im ! (backups ti ! j))" "master (im_tablets im ! (backups ti ! j)) = t"
    using w(2) by blast+
qed

text \<open>
  C31: In a complete index the connection of a master tablet and of its backups fits together: the
  \<open>j\<close>-th queue pair of the master is made ready to send to the first queue pair of its \<open>j\<close>-th
  backup, whose first queue pair is made ready to receive from exactly the \<open>j\<close>-th queue pair of
  that master. No assertion fails and no array is left.
\<close>

theorem replication_links:
  assumes "wf_index cfg im" "wired cfg im i k" "i < kNumServers cfg" "k < kNumTabletsPerServer cfg"
    and "t = CalcTabletId cfg i 0 k" "ti = im_tablets im ! t"
    and "\<forall>info\<in>set (im_tablets im). length (qpis info) = kNumReplicas cfg" "length (tb_qps tb) = kNumReplicas cfg"
  shows "SettingupQPConnect P cfg tb t im =
      thenv (forv [0..<kNumReplicas cfg] (\<lambda>j _. SetStateRTS P (tb_qps tb ! j) (qpis (im_tablets im ! (backups ti ! j)) ! 0)) ())
        (ret (tb\<lparr>tb_info := ti\<rparr>))
    \<and> (\<forall>j<kNumReplicas cfg. SettingupQPConnect P cfg tb (backups ti ! j) im =
        thenv (SetStateRTR P (tb_qps tb ! 0) (qpis ti ! j)) (ret (tb\<lparr>tb_info := im_tablets im ! (backups ti ! j)\<rparr>)))"
proof -
  note w = wired_tablets [OF assms(1-6)]
  have qp: "length (qpis x) = kNumReplicas cfg" if "GetTablet im b = Some x" for b x
    using that assms(7) by (auto simp: GetTablet_def array_get_def split: if_splits)
  have "connect_backup P im (tb\<lparr>tb_info := ti\<rparr>) j = SetStateRTS P (tb_qps tb ! j) (qpis (im_tablets im ! (backups ti ! j)) ! 0)"
    if "j < kNumReplicas cfg" for j
    using that qp [OF w(5) [OF that]] assms(8) w by (simp add: connect_backup_def)
  then have "forv [0..<kNumReplicas cfg] (\<lambda>j _. connect_backup P im (tb\<lparr>tb_info := ti\<rparr>) j) () =
      forv [0..<kNumReplicas cfg] (\<lambda>j _. SetStateRTS P (tb_qps tb ! j) (qpis (im_tablets im ! (backups ti ! j)) ! 0)) ()"
    by (intro forv_cong_set) simp
  then have "SettingupQPConnect P cfg tb t im =
      thenv (forv [0..<kNumReplicas cfg] (\<lambda>j _. SetStateRTS P (tb_qps tb ! j) (qpis (im_tablets im ! (backups ti ! j)) ! 0)) ())
        (ret (tb\<lparr>tb_info := ti\<rparr>))"
    by (simp add: SettingupQPConnect_def w(1,2) Let_def)
  moreover have "SettingupQPConnect P cfg tb (backups ti ! j) im =
        thenv (SetStateRTR P (tb_qps tb ! 0) (qpis ti ! j)) (ret (tb\<lparr>tb_info := im_tablets im ! (backups ti ! j)\<rparr>))"
    if "j < kNumReplicas cfg" for j
  proof -
    have "find_replica P (tb\<lparr>tb_info := x\<rparr>) (backups ti ! j) ti 0 (kNumReplicas cfg) = SetStateRTR P (tb_qps tb ! 0) (qpis ti ! j)" for x
      using find_replica_found [of 0 j "kNumReplicas cfg" ti "tb\<lparr>tb_info := x\<rparr>" P] that w(3,4) qp [OF w(1)] assms(8) by (cases "tb_qps tb") simp_all
    then show ?thesis
      using that w by (simp add: SettingupQPConnect_def Let_def)
  qed
  ultimately show ?thesis
    by blast
qed

text \<open>The index of two servers with one master and one backup tablet each.\<close>

definition pair_tablet :: "nat \<Rightarrow> nat \<Rightarrow> bool \<Rightarrow> nat \<Rightarrow> TabletInfo" where
  "pair_tablet t sv b other = \<lparr>tablet_id = t, server_id = sv, is_backup = b, qpis = [sample_peer\<lparr>qpi_qpn := of_nat t\<rparr>], backups = [other]\<rparr>"

definition pair_index :: IndexManager where
  "pair_index = \<lparr>key_tablet_map = [0, 2],
     im_tablets = [pair_tablet 0 0 False 3, pair_tablet 1 0 True 2, pair_tablet 2 1 False 1, pair_tablet 3 1 True 0],
     im_servers = map (\<lambda>i. \<lparr>info_id = i, active = True, addr = '''', ib_addr = blank_address, tablets = [2 * i, 2 * i + 1]\<rparr>) [0, 1]\<rparr>"

theorem replication_links_witness:
  "SettingupQPConnect good_platform nvds_config sample_handle 0 pair_index =
      thenv (SetStateRTS good_platform (tb_qps sample_handle ! 0) (sample_peer\<lparr>qpi_qpn := 3\<rparr>)) (ret (sample_handle\<lparr>tb_info := pair_tablet 0 0 False 3\<rparr>))
   \<and> SettingupQPConnect good_platform nvds_config sample_handle 3 pair_index =
      thenv (SetStateRTR good_platform (tb_qps sample_handle ! 0) (sample_peer\<lparr>qpi_qpn := 0\<rparr>)) (ret (sample_handle\<lparr>tb_info := pair_tablet 3 1 True 0\<rparr>))"
proof -
  have n: "kNumReplicas nvds_config = 1" "kNumServers nvds_config = 2" "kNumTabletsPerServer nvds_config = 1"
    by (simp_all add: nvds_config_def)
  have c: "CalcTabletId nvds_config i j k = 2 * i + j + k" for i j k
    by (simp add: CalcTabletId_def kNumTabletAndBackupsPerServer_def n)
  note size_defs = kNumTablets_def kNumTabletAndBackups_def kNumTabletAndBackupsPerServer_def n
  have wf: "wf_index nvds_config pair_index"
    by (simp add: wf_index_def pair_index_def pair_tablet_def size_defs)
  have wi: "wired nvds_config pair_index 0 0"
    by (simp add: wired_def c n pair_index_def pair_tablet_def master_def Let_def)
  have q: "\<forall>info\<in>set (im_tablets pair_index). length (qpis info) = kNumReplicas nvds_config"
    "length (tb_qps sample_handle) = kNumReplicas nvds_config"
    by (simp_all add: pair_index_def pair_tablet_def n sample_handle_def)
  have t: "im_tablets pair_index ! 0 = pair_tablet 0 0 False 3" "im_tablets pair_index ! 3 = pair_tablet 3 1 True 0"
    by (simp_all add: pair_index_def)
  have b: "backups (pair_tablet 0 0 False 3) = [3]" "qpis (pair_tablet 0 0 False 3) ! 0 = sample_peer\<lparr>qpi_qpn := 0\<rparr>"
    "qpis (pair_tablet 3 (Suc 0) True 0) ! 0 = sample_peer\<lparr>qpi_qpn := 3\<rparr>"
    by (simp_all add: pair_tablet_def)
  show ?thesis
    using replication_links [OF wf wi _ _ refl refl q, of good_platform] by (simp add: n c t b del: forv.simps)
qed

end
