(* ===== verification/Server.thy ===== *)
theory Server
  imports Replication Wire Coordinator
begin

text \<open>
  The server of \<^verbatim>\<open>src/server.h\<close> and \<^verbatim>\<open>src/server.cc\<close>: construction, joining the cluster, the polling
  loop that fills the receive queue and dispatches requests, and the rounds of the workers. The
  buffers of the two pools and of the work queues are linked through one field, \<open>sv_next\<close>. The
  contents of a receive buffer is written by the hardware, so reading it is a call to the
  platform; filling a send buffer is a \<open>Copy_to\<close>.

  The loops of the poller and of the workers never end. \<open>Poll\<close> and \<open>Serve\<close> are the two threads as
  programs with control points: from a control point a thread runs up to the next one, with one
  operation on a list that it shares with other threads (each is atomic under the lock of its list);
  between two control points any other thread may run. A worker that finds its queue empty stays
  where it is.
\<close>

section \<open>The server\<close>

definition NVMDevice_tablets :: nat where
  "NVMDevice_tablets = 36"

definition kNVMDeviceSize :: "Config \<Rightarrow> nat" where
  "kNVMDeviceSize cfg = 40 + kNVMTabletSize * kNumTabletAndBackupsPerServer cfg"

record Server =
  sv_id :: nat
  sv_active :: bool
  sv_nvm_size :: u64
  sv_nvm :: nat
  sv_index :: IndexManager
  sv_ib :: Infiniband
  sv_addr :: Address
  sv_bufs :: "nat \<Rightarrow> Buffer"
  sv_next :: nexts
  sv_send_root :: "nat option"
  sv_recv_root :: "nat option"
  sv_qp :: QueuePair
  sv_queues :: "WorkQueue list"
  sv_tablets :: "Tablet list"
  sv_heaps :: "Allocator list"
  sv_num_recv :: nat

text \<open>The buffer objects of the two pools are numbered from 0 and from \<^verbatim>\<open>kMaxIBQueueDepth\<close> on.\<close>

definition pool_bufs :: "(nat \<Rightarrow> Buffer option) \<Rightarrow> (nat \<Rightarrow> Buffer) \<Rightarrow> nat \<Rightarrow> Buffer" where
  "pool_bufs f g b = (case f b of Some x \<Rightarrow> x | None \<Rightarrow> g b)"

definition blank_buffer :: Buffer where
  "blank_buffer = \<lparr>buf = 0, buf_size = 0, msg_len = 0, buf_mr = 0, peer_addr = blank_address, is_recv = False\<rparr>"

text \<open>
  One round of the loop over the tablets: the tablet is constructed on its part of the memory,
  which its allocator formats, and a master tablet gets a worker with an empty queue.
\<close>

definition Server_new_tablet :: "platform \<Rightarrow> Config \<Rightarrow> TabletInfo \<Rightarrow> nat \<Rightarrow> (nat \<Rightarrow> mem) \<Rightarrow> nat
    \<Rightarrow> Tablet list \<times> Allocator list \<times> WorkQueue list \<Rightarrow> (Tablet list \<times> Allocator list \<times> WorkQueue list) vprog" where
  "Server_new_tablet P cfg info0 nvm mem0 i = (\<lambda>(ts, hs, qs).
     let ptr = nvm + NVMDevice_tablets + i * kNVMTabletSize in
     bindv (checked (Format \<lparr>nvm_base = of_nat ptr, nvm_data = mem0 i, cnt_writes = 0, modifications = []\<rparr>)) (\<lambda>h.
     bindv (Tablet_new P cfg info0 ptr (kNumTabletsPerServer cfg \<le> i)) (\<lambda>t.
     ret (ts @ [t], hs @ [h], if i < kNumTabletsPerServer cfg then qs @ [WorkQueue_init] else qs))))"

definition Server_new :: "platform \<Rightarrow> Config \<Rightarrow> nat \<Rightarrow> TabletInfo \<Rightarrow> IndexManager \<Rightarrow> (nat \<Rightarrow> mem) \<Rightarrow> nat \<Rightarrow> u64 \<Rightarrow> Server vprog" where
  "Server_new P cfg page info0 im0 mem0 nvm nvm_size =
     bindv (Infiniband_new P 1024) (\<lambda>ib.
     bindv (RegisteredBuffers_new P page 0 (ib_pd ib) kSendBufSize kMaxIBQueueDepth False (\<lambda>_. None)) (\<lambda>(sb, sroot, nx).
     bindv (RegisteredBuffers_new P page kMaxIBQueueDepth (ib_pd ib) kRecvBufSize kMaxIBQueueDepth True nx) (\<lambda>(rb, rroot, nx).
     bindv (QueuePair_new P ib IBV_QPT_UD kMaxIBQueueDepth kMaxIBQueueDepth) (\<lambda>qp.
     thenv (Activate P qp) (
     bindv (GetLid P ib kPort) (\<lambda>lid.
     bindv (forv [0..<kNumTabletAndBackupsPerServer cfg] (Server_new_tablet P cfg info0 nvm mem0) ([], [], [])) (\<lambda>(ts, hs, qs).
     ret \<lparr>sv_id = 0, sv_active = False, sv_nvm_size = nvm_size, sv_nvm = nvm, sv_index = im0, sv_ib = ib,
          sv_addr = \<lparr>ib_port = int kPort, addr_lid = lid, addr_qpn = p_qp_num P (qp_ptr qp)\<rparr>,
          sv_bufs = pool_bufs sb (pool_bufs rb (\<lambda>_. blank_buffer)), sv_next = nx, sv_send_root = sroot, sv_recv_root = rroot,
          sv_qp = qp, sv_queues = qs, sv_tablets = ts, sv_heaps = hs, sv_num_recv = 0\<rparr>)))))))"

text \<open>
  The thread of a worker never ends, so deleting a worker destroys a running \<^verbatim>\<open>std::thread\<close>, which
  terminates the program.
\<close>

definition Server_delete :: "platform \<Rightarrow> Config \<Rightarrow> Server \<Rightarrow> unit vprog" where
  "Server_delete P cfg sv =
     thenv (forv (rev [0..<kNumTabletAndBackupsPerServer cfg]) (\<lambda>i _.
              bindv (checked (array_get (sv_tablets sv) i)) (\<lambda>t.
              thenv (Tablet_delete P t) (
              if i < kNumTabletsPerServer cfg then fail (Exited ''std::terminate'') else ret ()))) ()) (
     QueuePair_delete P (sv_qp sv))"

section \<open>Joining\<close>

text \<open>
  The session runs over a connection of type \<open>'c\<close>; \<open>conn\<close> is \<^const>\<open>None\<close> when the coordinator cannot
  be reached. An error of the connection is caught and makes \<^verbatim>\<open>Join\<close> return \<^const>\<open>False\<close>; a body
  that is not the expected JSON throws another exception, which is not.
\<close>

definition join_qpis :: "Config \<Rightarrow> Server \<Rightarrow> QueuePairInfo list option" where
  "join_qpis cfg sv = map_option concat (map_all (\<lambda>i. do {
     t \<leftarrow> array_get (sv_tablets sv) i;
     map_all (\<lambda>j. array_get (qpis (tb_info t)) j) [0..<kNumReplicas cfg] }) [0..<kNumTabletAndBackupsPerServer cfg])"

definition join_tablet :: "platform \<Rightarrow> Config \<Rightarrow> ServerInfo \<Rightarrow> nat \<Rightarrow> Server \<Rightarrow> Server vprog" where
  "join_tablet P cfg si i sv =
     bindv (checked (array_get (tablets si) i)) (\<lambda>tid.
     bindv (checked (array_get (sv_tablets sv) i)) (\<lambda>t.
     bindv (SettingupQPConnect P cfg t tid (sv_index sv)) (\<lambda>t.
     ret (sv\<lparr>sv_tablets := (sv_tablets sv)[i := t]\<rparr>))))"

definition json_or_throw :: "'a option \<Rightarrow> 'a vprog" where
  "json_or_throw x = (case x of None \<Rightarrow> fail (Exited ''json'') | Some v \<Rightarrow> ret v)"

definition join_accept :: "platform \<Rightarrow> Config \<Rightarrow> ('s, 'j) coord_env \<Rightarrow> TabletInfo \<Rightarrow> Message \<Rightarrow> Server \<Rightarrow> Server vprog" where
  "join_accept P cfg E old msg sv =
     thenv (assertv (sender_type (header msg) = sender_code COORDINATOR)) (
     thenv (assertv (msg_type (header msg) = type_code RES_JOIN)) (
     bindv (json_or_throw (json_parse E (body msg))) (\<lambda>j.
     bindv (json_or_throw (at_nat (jlib E) j ''id'')) (\<lambda>id.
     bindv (json_or_throw (get_member (jlib E) j ''index_manager'' \<bind> from_json_IndexManager (jlib E) old)) (\<lambda>im.
     let sv = sv\<lparr>sv_id := id, sv_index := im, sv_active := True\<rparr> in
     bindv (checked (GetServer im id)) (\<lambda>si.
     forv [0..<kNumTabletAndBackupsPerServer cfg] (join_tablet P cfg si) sv))))))"

definition Server_Join :: "platform \<Rightarrow> Config \<Rightarrow> ('s, 'j) coord_env \<Rightarrow> TabletInfo
    \<Rightarrow> (nat \<Rightarrow> 'c \<Rightarrow> (u8 list \<times> 'c) option) \<Rightarrow> (u8 list \<Rightarrow> 'c \<Rightarrow> 'c option) \<Rightarrow> 'c option \<Rightarrow> Server \<Rightarrow> (bool \<times> Server) vprog" where
  "Server_Join P cfg E old rd wr conn sv =
     (case conn of
        None \<Rightarrow> ret (False, sv)
      | Some c \<Rightarrow>
          bindv (checked (join_qpis cfg sv)) (\<lambda>qs.
          case SendMessage wr (join_request E (sv_nvm_size sv) (sv_addr sv) qs) c of
            None \<Rightarrow> ret (False, sv)
          | Some c \<Rightarrow>
              (case RecvMessage rd c of
                 None \<Rightarrow> ret (False, sv)
               | Some (msg, c) \<Rightarrow> bindv (join_accept P cfg E old msg sv) (\<lambda>sv. ret (True, sv)))))"

text \<open>Not implemented in the source: each is an assertion that fails.\<close>

definition Server_Leave :: "unit vprog" where
  "Server_Leave = assertv False"

definition Server_Listening :: "unit vprog" where
  "Server_Listening = assertv False"

definition Server_HandleRecvMessage :: "Message \<Rightarrow> unit vprog" where
  "Server_HandleRecvMessage msg = assertv False"

definition Server_HandleSendMessage :: "Message \<Rightarrow> unit vprog" where
  "Server_HandleSendMessage msg = assertv False"

section \<open>Polling and dispatching\<close>

definition recv_alloc :: "Server \<Rightarrow> nat option \<times> Server" where
  "recv_alloc sv = (case Pool_Alloc (sv_recv_root sv, sv_next sv) of (b, root, nx) \<Rightarrow> (b, sv\<lparr>sv_recv_root := root, sv_next := nx\<rparr>))"

definition send_alloc :: "Server \<Rightarrow> nat option \<times> Server" where
  "send_alloc sv = (case Pool_Alloc (sv_send_root sv, sv_next sv) of (b, root, nx) \<Rightarrow> (b, sv\<lparr>sv_send_root := root, sv_next := nx\<rparr>))"

definition recv_free :: "nat \<Rightarrow> Server \<Rightarrow> Server" where
  "recv_free b sv = (case Pool_Free b (sv_recv_root sv, sv_next sv) of (root, nx) \<Rightarrow> sv\<lparr>sv_recv_root := root, sv_next := nx\<rparr>)"

definition send_free :: "nat \<Rightarrow> Server \<Rightarrow> Server" where
  "send_free b sv = (case Pool_Free b (sv_send_root sv, sv_next sv) of (root, nx) \<Rightarrow> sv\<lparr>sv_send_root := root, sv_next := nx\<rparr>)"

definition Poll_fill_one :: "platform \<Rightarrow> Server \<Rightarrow> Server vprog" where
  "Poll_fill_one P sv = (case recv_alloc sv of (b, sv) \<Rightarrow>
     (case b of
        None \<Rightarrow> fail Assertion_failed
      | Some b \<Rightarrow> thenv (PostReceive P (sv_qp sv) b (sv_bufs sv b)) (ret sv)))"

definition Worker_Enqueue :: "nat \<Rightarrow> nat \<Rightarrow> Server \<Rightarrow> Server option" where
  "Worker_Enqueue w work sv = do {
     q \<leftarrow> array_get (sv_queues sv) w;
     (q, nx) \<leftarrow> Enqueue work (q, sv_next sv);
     Some (sv\<lparr>sv_queues := (sv_queues sv)[w := q], sv_next := nx\<rparr>)
   }"

definition request_hash :: "u8 list \<Rightarrow> u64" where
  "request_hash bs = word_of_le (take 8 (drop (kIBUDPadding + 8) bs))"

definition Dispatch :: "platform \<Rightarrow> Config \<Rightarrow> nat \<Rightarrow> Server \<Rightarrow> Server vprog" where
  "Dispatch P cfg work sv =
     bindv (ask (p_bytes P) (Os (Load_bytes (of_nat (buf (sv_bufs sv work))) (buf_size (sv_bufs sv work))))) (\<lambda>bs.
     bindv (checked (GetTabletId (sv_index sv) (request_hash bs))) (\<lambda>id.
     bindv (checked (Worker_Enqueue (id mod kNumTabletAndBackupsPerServer cfg) work sv)) (\<lambda>sv.
     ret (sv\<lparr>sv_num_recv := sv_num_recv sv + 1\<rparr>))))"

text \<open>
  The control points of the poller: \<open>n\<close> receives are left to be posted before the loop; in the
  loop, a request is received and dispatched, a send is completed, and a receive is posted.
\<close>

datatype poll_pc = Poll_fill nat | Poll_receive | Poll_sent | Poll_refill

fun Poll :: "platform \<Rightarrow> Config \<Rightarrow> poll_pc \<Rightarrow> Server \<Rightarrow> (poll_pc \<times> Server) vprog" where
  "Poll P cfg (Poll_fill 0) sv = ret (Poll_receive, sv)"
| "Poll P cfg (Poll_fill (Suc n)) sv = bindv (Poll_fill_one P sv) (\<lambda>sv. ret (Poll_fill n, sv))"
| "Poll P cfg Poll_receive sv =
     bindv (TryReceive P (sv_qp sv) (sv_bufs sv)) (\<lambda>(b, bufs).
     bindv (case b of None \<Rightarrow> ret (sv\<lparr>sv_bufs := bufs\<rparr>) | Some b \<Rightarrow> Dispatch P cfg b (sv\<lparr>sv_bufs := bufs\<rparr>)) (\<lambda>sv.
     ret (Poll_sent, sv)))"
| "Poll P cfg Poll_sent sv =
     bindv (TrySend P (sv_qp sv) (sv_bufs sv)) (\<lambda>(b, bufs).
     ret (Poll_refill, case b of None \<Rightarrow> sv\<lparr>sv_bufs := bufs\<rparr> | Some b \<Rightarrow> send_free b (sv\<lparr>sv_bufs := bufs\<rparr>)))"
| "Poll P cfg Poll_refill sv =
     (case recv_alloc sv of (b, sv) \<Rightarrow>
        (case b of
           None \<Rightarrow> ret (Poll_receive, sv)
         | Some b \<Rightarrow> thenv (PostReceive P (sv_qp sv) b (sv_bufs sv b)) (ret (Poll_receive, sv))))"

section \<open>Workers\<close>

text \<open>\<^verbatim>\<open>Sync\<close> in the \<^verbatim>\<open>try\<close> block of the worker: a transport exception is logged.\<close>

definition log_transport :: "'a vprog \<Rightarrow> unit vprog" where
  "log_transport m = (\<lambda>tr. case m tr of
     (Inr _, tr') \<Rightarrow> (Inr (), tr')
   | (Inl (Transport_exception e), tr') \<Rightarrow> (Inr (), tr')
   | (Inl f, tr') \<Rightarrow> (Inl f, tr'))"

definition response_bytes :: "Response \<Rightarrow> nat \<Rightarrow> u8 list option" where
  "response_bytes r n = (if 4 + length (resp_val r) \<le> n
     then Some ([resp_type r, resp_status r] @ le_bytes 2 (resp_val_len r) @ resp_val r) else None)"

text \<open>The work on one request, from the request in its buffer to the posted response.\<close>

definition Serve_work :: "platform \<Rightarrow> nat \<Rightarrow> nat \<Rightarrow> nat \<Rightarrow> nat \<Rightarrow> Server \<Rightarrow> Server vprog" where
  "Serve_work P fuel w work sb sv =
     bindv (ask (p_bytes P) (Os (Load_bytes (of_nat (buf (sv_bufs sv work))) (buf_size (sv_bufs sv work))))) (\<lambda>bs.
     bindv (checked (MakeRequest bs)) (\<lambda>v.
     bindv (checked (array_get (sv_heaps sv) w)) (\<lambda>h.
     bindv (checked (array_get (sv_tablets sv) w)) (\<lambda>t.
     bindv (case serve_op h v of None \<Rightarrow> fail Assertion_failed | Some x \<Rightarrow> ret x) (\<lambda>(resp, h).
     let sv = sv\<lparr>sv_heaps := (sv_heaps sv)[w := h]\<rparr> in
     bindv (checked (response_bytes resp (buf_size (sv_bufs sv sb)))) (\<lambda>rbs.
     thenv (exec (Os (Copy_to (of_nat (buf (sv_bufs sv sb))) rbs))) (
     thenv (log_transport (Sync P fuel (sv_index sv) t (modifications h))) (
     bindv (PostSend P (sv_qp sv) sb (sv_bufs sv sb) (of_nat (Response_Len resp)) (peer_addr (sv_bufs sv work)) (sv_ib sv)) (\<lambda>ib.
     ret (sv\<lparr>sv_ib := ib\<rparr>))))))))))"

text \<open>
  The control points of a worker: it has no work; it has a request and needs a send buffer; it has
  both; it has posted the response and still holds the buffer of the request.
\<close>

datatype serve_pc = Serve_poll | Serve_alloc nat | Serve_reply nat nat | Serve_free nat

fun Serve :: "platform \<Rightarrow> nat \<Rightarrow> nat \<Rightarrow> serve_pc \<Rightarrow> Server \<Rightarrow> (serve_pc \<times> Server) vprog" where
  "Serve P fuel w Serve_poll sv =
     bindv (checked (array_get (sv_queues sv) w)) (\<lambda>q.
     case Dequeue (q, sv_next sv) of (work, q, nx) \<Rightarrow>
       let sv = sv\<lparr>sv_queues := (sv_queues sv)[w := q], sv_next := nx\<rparr> in
       ret (case work of None \<Rightarrow> Serve_poll | Some work \<Rightarrow> Serve_alloc work, sv))"
| "Serve P fuel w (Serve_alloc work) sv =
     (case send_alloc sv of (sb, sv) \<Rightarrow>
        (case sb of None \<Rightarrow> fail Assertion_failed | Some sb \<Rightarrow> ret (Serve_reply work sb, sv)))"
| "Serve P fuel w (Serve_reply work sb) sv =
     bindv (Serve_work P fuel w work sb sv) (\<lambda>sv. ret (Serve_free work, sv))"
| "Serve P fuel w (Serve_free work) sv = ret (Serve_poll, recv_free work sv)"

end
