(* ===== verification/Buffer_Flow.thy ===== *)
theory Buffer_Flow
  imports Server "HOL-Library.Multiset"
begin

text \<open>
  The buffers of a running server. The poller and the workers run \<open>Poll\<close> and \<open>Serve\<close> from control
  point to control point, in any order; they take buffers from the pools and the queues, hand them
  to the hardware and put them back. What the hardware has is read off the history of calls: the
  receives and sends that were posted and have not completed.
\<close>

section \<open>What the hardware has\<close>

text \<open>The numbers of the buffers of the receives and of the sends of a queue pair that are posted and not completed.\<close>

fun posted :: "platform \<Rightarrow> QueuePair \<Rightarrow> history \<Rightarrow> nat multiset" where
  "posted P qp [] = {#}"
| "posted P qp (c # tr) =
     (case c of
        Post_recv q wrs \<Rightarrow> if q = qp_ptr qp \<and> p_int P tr c = 0
          then posted P qp tr + mset (map (\<lambda>wr. unat (rwr_id wr)) wrs) else posted P qp tr
      | Poll_cq cq n \<Rightarrow> if cq = rcq qp \<and> 0 < p_int P tr c
          then posted P qp tr - {#unat (wc_id (p_wc P tr c))#} else posted P qp tr
      | _ \<Rightarrow> posted P qp tr)"

fun in_flight :: "platform \<Rightarrow> QueuePair \<Rightarrow> history \<Rightarrow> nat multiset" where
  "in_flight P qp [] = {#}"
| "in_flight P qp (c # tr) =
     (case c of
        Post_send q wrs \<Rightarrow> if q = qp_ptr qp \<and> p_int P tr c = 0
          then in_flight P qp tr + mset (map (\<lambda>wr. unat (wr_id wr)) wrs) else in_flight P qp tr
      | Poll_cq cq n \<Rightarrow> if cq = scq qp \<and> 0 < p_int P tr c
          then in_flight P qp tr - {#unat (wc_id (p_wc P tr c))#} else in_flight P qp tr
      | _ \<Rightarrow> in_flight P qp tr)"

text \<open>
  What the code relies on of the hardware: a completion has the number of a work request that was
  posted to the queue and has not completed yet.
\<close>

definition completes_posted :: "platform \<Rightarrow> QueuePair \<Rightarrow> bool" where
  "completes_posted P qp \<longleftrightarrow>
     (\<forall>tr n. (0 < p_int P tr (Poll_cq (rcq qp) n) \<longrightarrow> unat (wc_id (p_wc P tr (Poll_cq (rcq qp) n))) \<in># posted P qp tr)
       \<and> (0 < p_int P tr (Poll_cq (scq qp) n) \<longrightarrow> unat (wc_id (p_wc P tr (Poll_cq (scq qp) n))) \<in># in_flight P qp tr))"

section \<open>The running server\<close>

record running =
  rn_sv :: Server
  rn_tr :: history
  rn_poll :: poll_pc
  rn_serve :: "nat \<Rightarrow> serve_pc"

text \<open>
  A thread runs from its control point to the next. A step that fails an assertion or throws ends
  the server and is no step.
\<close>

inductive running_step :: "platform \<Rightarrow> Config \<Rightarrow> nat \<Rightarrow> running \<Rightarrow> running \<Rightarrow> bool" for P cfg fuel where
  poller: "Poll P cfg (rn_poll c) (rn_sv c) (rn_tr c) = (Inr (pc, sv), tr) \<Longrightarrow>
     running_step P cfg fuel c (c\<lparr>rn_sv := sv, rn_tr := tr, rn_poll := pc\<rparr>)"
| worker: "w < length (sv_queues (rn_sv c)) \<Longrightarrow> Serve P fuel w (rn_serve c w) (rn_sv c) (rn_tr c) = (Inr (pc, sv), tr) \<Longrightarrow>
     running_step P cfg fuel c (c\<lparr>rn_sv := sv, rn_tr := tr, rn_serve := (rn_serve c)(w := pc)\<rparr>)"

text \<open>
  A server as its constructor leaves it: both pools full, all queues empty, and a queue pair with
  two completion queues that are not those of the tablets.
\<close>

definition own_queues :: "Server \<Rightarrow> bool" where
  "own_queues sv \<longleftrightarrow> rcq (sv_qp sv) \<noteq> scq (sv_qp sv)
     \<and> (\<forall>t\<in>set (sv_tablets sv). \<forall>qp\<in>set (tb_qps t). qp_ptr qp \<noteq> qp_ptr (sv_qp sv)
          \<and> scq qp \<noteq> rcq (sv_qp sv) \<and> scq qp \<noteq> scq (sv_qp sv))"

definition fresh_server :: "Server \<Rightarrow> bool" where
  "fresh_server sv \<longleftrightarrow>
     (\<exists>nx nx'. RegisteredBuffers_init 0 kMaxIBQueueDepth nx = (sv_send_root sv, nx')
        \<and> RegisteredBuffers_init kMaxIBQueueDepth kMaxIBQueueDepth nx' = (sv_recv_root sv, sv_next sv))
     \<and> (\<forall>q\<in>set (sv_queues sv). q = WorkQueue_init)"

inductive running_from :: "platform \<Rightarrow> Config \<Rightarrow> nat \<Rightarrow> Server \<Rightarrow> history \<Rightarrow> running \<Rightarrow> bool" for P cfg fuel sv tr where
  start: "running_from P cfg fuel sv tr
     \<lparr>rn_sv = sv, rn_tr = tr, rn_poll = Poll_fill kMaxIBQueueDepth, rn_serve = (\<lambda>_. Serve_poll)\<rparr>"
| step: "running_from P cfg fuel sv tr c \<Longrightarrow> running_step P cfg fuel c c' \<Longrightarrow> running_from P cfg fuel sv tr c'"

section \<open>Lists\<close>

text \<open>\<open>buffer_lists sv R S Q\<close>: the pools of receive and send buffers and the queues of the workers.\<close>

definition buffer_lists :: "Server \<Rightarrow> nat list \<Rightarrow> nat list \<Rightarrow> (nat \<Rightarrow> nat list) \<Rightarrow> bool" where
  "buffer_lists sv R S Q \<longleftrightarrow>
     pool_list (sv_recv_root sv, sv_next sv) R \<and> pool_list (sv_send_root sv, sv_next sv) S
   \<and> (\<forall>w<length (sv_queues sv). queue_list (sv_queues sv ! w, sv_next sv) (Q w))"

lemma listsD:
  assumes "buffer_lists sv R S Q"
  shows "pool_list (sv_recv_root sv, sv_next sv) R" "pool_list (sv_send_root sv, sv_next sv) S"
    "w < length (sv_queues sv) \<Longrightarrow> queue_list (sv_queues sv ! w, sv_next sv) (Q w)"
  using assms by (simp_all add: buffer_lists_def)

text \<open>What no step changes.\<close>

definition same_queues :: "Server \<Rightarrow> Server \<Rightarrow> bool" where
  "same_queues sv sv' \<longleftrightarrow> sv_qp sv' = sv_qp sv \<and> sv_tablets sv' = sv_tablets sv
     \<and> length (sv_queues sv') = length (sv_queues sv)"

lemma pool_frame: "pool_list (r, nx) L \<Longrightarrow> (\<And>b. b \<in> set L \<Longrightarrow> nx' b = nx b) \<Longrightarrow> pool_list (r, nx') L"
  by (auto simp: pool_list_def chain_cong [of L nx nx'])

lemma queue_frame:
  assumes "queue_list (q, nx) L" "\<And>b. b \<in> set L \<Longrightarrow> nx' b = nx b"
  shows "queue_list (q, nx') L"
proof -
  have "chain nx p (butlast L) r = chain nx' p (butlast L) r" for p r
    using assms(2) by (intro chain_cong) (auto dest: in_set_butlastD)
  with assms(1) show ?thesis
    by (simp add: queue_list_def split: if_splits)
qed

lemma Enqueue_frame:
  assumes "Enqueue w (q, nx) = Some (q', nx')" "queue_list (q, nx) L" "b \<notin> set L"
  shows "nx' b = nx b"
proof (cases "L = []")
  case True
  then show ?thesis
    using assms(1,2) by (simp add: Enqueue_def queue_list_def)
next
  case False
  then have "wq_tail q = Some (last L)"
    using assms(2) by (simp add: queue_list_def)
  moreover have "b \<noteq> last L"
    using assms(3) False by auto
  ultimately show ?thesis
    using assms(1) by (auto simp: Enqueue_def split: if_splits)
qed

lemma Pool_Alloc_cases:
  assumes "pool_list (r, nx) L" "Pool_Alloc (r, nx) = (b, r', nx')"
  shows "b = (if L = [] then None else Some (hd L))" "pool_list (r', nx') (tl L)" "nx' = nx"
  using Pool_Alloc_list [OF assms(1)] assms(2) by (cases L; simp)+

lemma recv_alloc_lists:
  assumes "buffer_lists sv R S Q" "recv_alloc sv = (b, sv')"
  shows "b = (if R = [] then None else Some (hd R))" "buffer_lists sv' (tl R) S Q" "same_queues sv sv'" "sv_bufs sv' = sv_bufs sv"
proof -
  obtain r nx where e: "Pool_Alloc (sv_recv_root sv, sv_next sv) = (b, r, nx)" "sv' = sv\<lparr>sv_recv_root := r, sv_next := nx\<rparr>"
    using assms(2) by (auto simp: recv_alloc_def split: prod.splits)
  note pa = Pool_Alloc_cases [OF listsD(1) [OF assms(1)] e(1)]
  show "b = (if R = [] then None else Some (hd R))" "same_queues sv sv'" "sv_bufs sv' = sv_bufs sv"
    using pa by (simp_all add: e(2) same_queues_def)
  show "buffer_lists sv' (tl R) S Q"
    using pa assms(1) by (simp add: e(2) buffer_lists_def)
qed

lemma send_alloc_lists:
  assumes "buffer_lists sv R S Q" "send_alloc sv = (b, sv')"
  shows "b = (if S = [] then None else Some (hd S))" "buffer_lists sv' R (tl S) Q" "same_queues sv sv'"
proof -
  obtain r nx where e: "Pool_Alloc (sv_send_root sv, sv_next sv) = (b, r, nx)" "sv' = sv\<lparr>sv_send_root := r, sv_next := nx\<rparr>"
    using assms(2) by (auto simp: send_alloc_def split: prod.splits)
  note pa = Pool_Alloc_cases [OF listsD(2) [OF assms(1)] e(1)]
  show "b = (if S = [] then None else Some (hd S))" "same_queues sv sv'"
    using pa by (simp_all add: e(2) same_queues_def)
  show "buffer_lists sv' R (tl S) Q"
    using pa assms(1) by (simp add: e(2) buffer_lists_def)
qed

text \<open>A buffer that is in none of the lists.\<close>

definition unlisted :: "Server \<Rightarrow> nat list \<Rightarrow> nat list \<Rightarrow> (nat \<Rightarrow> nat list) \<Rightarrow> nat \<Rightarrow> bool" where
  "unlisted sv R S Q b \<longleftrightarrow> b \<notin> set R \<and> b \<notin> set S \<and> (\<forall>w<length (sv_queues sv). b \<notin> set (Q w))"

lemma lists_relink:
  assumes "buffer_lists sv R S Q" "unlisted sv R S Q b" "nx = (sv_next sv)(b := p)"
  shows "pool_list (sv_recv_root sv, nx) R" "pool_list (sv_send_root sv, nx) S"
    "w < length (sv_queues sv) \<Longrightarrow> queue_list (sv_queues sv ! w, nx) (Q w)"
proof -
  have nx: "nx x = sv_next sv x" if "x \<noteq> b" for x
    using that assms(3) by simp
  show "pool_list (sv_recv_root sv, nx) R"
    by (rule pool_frame [OF listsD(1) [OF assms(1)] nx]) (use assms(2) in \<open>auto simp: unlisted_def\<close>)
  show "pool_list (sv_send_root sv, nx) S"
    by (rule pool_frame [OF listsD(2) [OF assms(1)] nx]) (use assms(2) in \<open>auto simp: unlisted_def\<close>)
  show "w < length (sv_queues sv) \<Longrightarrow> queue_list (sv_queues sv ! w, nx) (Q w)"
    by (rule queue_frame [OF listsD(3) [OF assms(1)] nx]) (use assms(2) in \<open>auto simp: unlisted_def\<close>)
qed

lemma recv_free_lists:
  assumes "buffer_lists sv R S Q" "unlisted sv R S Q b"
  shows "buffer_lists (recv_free b sv) (b # R) S Q" "same_queues sv (recv_free b sv)"
proof -
  have "pool_list (Some b, (sv_next sv)(b := sv_recv_root sv)) (b # R)"
    using Pool_Free_list [OF listsD(1) [OF assms(1)]] assms(2) by (simp add: Pool_Free_def unlisted_def)
  then show "buffer_lists (recv_free b sv) (b # R) S Q"
    using lists_relink [OF assms refl] by (simp add: buffer_lists_def recv_free_def Pool_Free_def)
qed (simp add: same_queues_def recv_free_def Pool_Free_def)

lemma send_free_lists:
  assumes "buffer_lists sv R S Q" "unlisted sv R S Q b"
  shows "buffer_lists (send_free b sv) R (b # S) Q" "same_queues sv (send_free b sv)"
proof -
  have "pool_list (Some b, (sv_next sv)(b := sv_send_root sv)) (b # S)"
    using Pool_Free_list [OF listsD(2) [OF assms(1)]] assms(2) by (simp add: Pool_Free_def unlisted_def)
  then show "buffer_lists (send_free b sv) R (b # S) Q"
    using lists_relink [OF assms refl] by (simp add: buffer_lists_def send_free_def Pool_Free_def)
qed (simp add: same_queues_def send_free_def Pool_Free_def)

lemma enqueue_lists:
  assumes l: "buffer_lists sv R S Q" and b: "b \<notin> set (Q w)" and w: "w < length (sv_queues sv)"
    and dis: "\<And>x. x \<in> set (Q w) \<Longrightarrow> x \<notin> set R \<and> x \<notin> set S \<and> (\<forall>v<length (sv_queues sv). v \<noteq> w \<longrightarrow> x \<notin> set (Q v))"
  shows "\<exists>sv'. Worker_Enqueue w b sv = Some sv' \<and> buffer_lists sv' R S (Q(w := Q w @ [b])) \<and> same_queues sv sv'"
proof -
  note ql = listsD(3) [OF l w]
  obtain q nx where e: "Enqueue b (sv_queues sv ! w, sv_next sv) = Some (q, nx)" "queue_list (q, nx) (Q w @ [b])"
    using Enqueue_list [OF ql b] by auto
  note fr = Enqueue_frame [OF e(1) ql]
  let ?sv = "sv\<lparr>sv_queues := (sv_queues sv)[w := q], sv_next := nx\<rparr>"
  have "pool_list (sv_recv_root sv, nx) R"
    by (rule pool_frame [OF listsD(1) [OF l]]) (use fr dis in blast)
  moreover have "pool_list (sv_send_root sv, nx) S"
    by (rule pool_frame [OF listsD(2) [OF l]]) (use fr dis in blast)
  moreover have "queue_list ((sv_queues sv)[w := q] ! v, nx) ((Q(w := Q w @ [b])) v)" if v: "v < length (sv_queues sv)" for v
  proof (cases "v = w")
    case False
    have "queue_list (sv_queues sv ! v, nx) (Q v)"
      by (rule queue_frame [OF listsD(3) [OF l v]]) (use fr dis v False in blast)
    with False show ?thesis
      by simp
  qed (use w e(2) in simp)
  ultimately have "buffer_lists ?sv R S (Q(w := Q w @ [b]))"
    by (simp add: buffer_lists_def)
  moreover have "Worker_Enqueue w b sv = Some ?sv"
    using w e(1) by (simp add: Worker_Enqueue_def)
  ultimately show ?thesis
    by (auto simp: same_queues_def)
qed

lemma dequeue_lists:
  assumes l: "buffer_lists sv R S Q" and w: "w < length (sv_queues sv)" and d: "Dequeue (sv_queues sv ! w, sv_next sv) = (b, q, nx)"
  shows "b = (if Q w = [] then None else Some (hd (Q w)))"
    "buffer_lists (sv\<lparr>sv_queues := (sv_queues sv)[w := q], sv_next := nx\<rparr>) R S (Q(w := tl (Q w)))"
proof -
  note ql = Dequeue_list [OF listsD(3) [OF l w]]
  have q: "queue_list (q, nx) (tl (Q w))" "nx = sv_next sv"
    using ql(2,3) d by simp_all
  show "b = (if Q w = [] then None else Some (hd (Q w)))"
    using ql(1) d by (cases "Q w") simp_all
  have "queue_list ((sv_queues sv)[w := q] ! v, nx) ((Q(w := tl (Q w))) v)" if "v < length (sv_queues sv)" for v
    using that listsD(3) [OF l that] q by (cases "v = w") simp_all
  then show "buffer_lists (sv\<lparr>sv_queues := (sv_queues sv)[w := q], sv_next := nx\<rparr>) R S (Q(w := tl (Q w)))"
    using l q(2) by (simp add: buffer_lists_def)
qed

lemma lists_bufs [simp]: "buffer_lists (sv\<lparr>sv_bufs := x\<rparr>) R S Q = buffer_lists sv R S Q"
  by (simp add: buffer_lists_def)

section \<open>Calls that do not concern the queue pair\<close>

definition calm :: "QueuePair \<Rightarrow> vcall \<Rightarrow> bool" where
  "calm qp c = (case c of
     Post_recv q wrs \<Rightarrow> q \<noteq> qp_ptr qp | Post_send q wrs \<Rightarrow> q \<noteq> qp_ptr qp
   | Poll_cq cq n \<Rightarrow> cq \<noteq> rcq qp \<and> cq \<noteq> scq qp | _ \<Rightarrow> True)"

definition calms :: "QueuePair \<Rightarrow> 'a vprog \<Rightarrow> bool" where
  "calms qp m \<longleftrightarrow> (\<forall>tr. \<exists>cs. snd (m tr) = cs @ tr \<and> list_all (calm qp) cs)"

named_theorems calm_intros

lemma calms_ret [calm_intros]: "calms qp (ret x)"
  by (simp add: calms_def ret_def)

lemma calms_fail [calm_intros]: "calms qp (fail e)"
  by (simp add: calms_def fail_def)

lemma calms_ask [calm_intros]: "calm qp c \<Longrightarrow> calms qp (ask f c)"
  by (simp add: calms_def ask_def)

lemma calms_bind [calm_intros]:
  assumes "calms qp m" "\<And>x. calms qp (f x)"
  shows "calms qp (bindv m f)"
  unfolding calms_def
proof
  fix tr
  obtain r cs where m: "m tr = (r, cs @ tr)" "list_all (calm qp) cs"
    using assms(1) unfolding calms_def by (metis prod.collapse)
  show "\<exists>cs. snd (bindv m f tr) = cs @ tr \<and> list_all (calm qp) cs"
  proof (cases r)
    case (Inr x)
    obtain ds where "snd (f x (cs @ tr)) = ds @ cs @ tr" "list_all (calm qp) ds"
      using assms(2) [of x] unfolding calms_def by blast
    then show ?thesis
      using m Inr by (intro exI [of _ "ds @ cs"]) (simp add: bindv_def)
  qed (use m in \<open>simp add: bindv_def\<close>)
qed

lemma calms_then [calm_intros]: "calms qp m \<Longrightarrow> calms qp n \<Longrightarrow> calms qp (thenv m n)"
  unfolding thenv_def by (rule calms_bind)

lemma calms_assert [calm_intros]: "calms qp (assertv b)"
  by (simp add: assertv_def calms_ret calms_fail)

lemma calms_checked [calm_intros]: "calms qp (checked x)"
  by (simp add: checked_def calms_ret calms_fail split: option.split)

lemma calms_for: "(\<And>i s. i \<in> set is \<Longrightarrow> calms qp (f i s)) \<Longrightarrow> calms qp (forv is f s)"
  by (induction "is" arbitrary: s) (simp_all add: calms_ret calms_bind)

lemma calms_spin [calm_intros]: "calms qp m \<Longrightarrow> calms qp (spin n m ready)"
  by (induction n) (auto intro!: calm_intros split: if_splits)

text \<open>Such calls leave what the hardware has of the queue pair.\<close>

definition has :: "platform \<Rightarrow> QueuePair \<Rightarrow> history \<Rightarrow> nat multiset \<times> nat multiset" where
  "has P qp tr = (posted P qp tr, in_flight P qp tr)"

lemma calm_has: "calm qp c \<Longrightarrow> has P qp (c # tr) = has P qp tr"
  by (cases c) (auto simp: calm_def has_def)

lemma calms_has:
  assumes "calms qp m" "m tr = (r, tr')"
  shows "has P qp tr' = has P qp tr"
proof -
  obtain cs where "tr' = cs @ tr" "list_all (calm qp) cs"
    using assms unfolding calms_def by (metis snd_conv)
  then show ?thesis
    by (induction cs arbitrary: tr') (auto simp: calm_has)
qed

text \<open>The writes to the backups go over the queue pairs of the tablet.\<close>

lemma calms_Sync:
  assumes "\<And>q. q \<in> set (tb_qps tb) \<Longrightarrow> qp_ptr q \<noteq> qp_ptr qp \<and> scq q \<noteq> rcq qp \<and> scq q \<noteq> scq qp"
  shows "calms qp (Sync P fuel im tb ms)"
proof -
  have "calms qp (sync_wait P fuel q)" if "q \<in> set (tb_qps tb)" for q
    unfolding sync_wait_def using assms [OF that]
    by (intro calm_intros) (auto simp: calm_def intro!: calm_intros split: prod.splits)
  moreover have post: "calms qp (bindv (checked (array_get (tb_qps tb) k)) (\<lambda>q.
     bindv (ask (p_int P) (Post_send (qp_ptr q) wrs)) (\<lambda>err.
     if err \<noteq> 0 then fail (Transport_exception err) else ret ())))" for k wrs
  proof (cases "k < length (tb_qps tb)")
    case True
    then have "calm qp (Post_send (qp_ptr (tb_qps tb ! k)) wrs)"
      using assms by (simp add: calm_def)
    then show ?thesis
      using True by (auto simp: checked_def bindv_def ret_def ask_def fail_def calms_def)
  next
    case False
    then show ?thesis
      by (simp add: checked_def array_get_def bindv_def fail_def calms_def)
  qed
  moreover have "calms qp (sync_backup P im tb ms k)" for ms k
    unfolding sync_backup_def
    by (rule calms_bind [OF calms_checked], rule calms_bind [OF calms_checked], rule calms_then [OF calms_assert],
        rule calms_bind [OF calms_checked], rule calms_bind [OF calms_checked], rule post)
  ultimately show ?thesis
    unfolding Sync_def by (auto intro!: calm_intros calms_for split: option.splits)
qed

lemma calms_log: "calms qp m \<Longrightarrow> calms qp (log_transport m)"
proof -
  have "snd (log_transport m tr) = snd (m tr)" for tr
    by (simp add: log_transport_def split: prod.splits sum.splits failure.splits)
  then show "calms qp m \<Longrightarrow> ?thesis"
    by (simp add: calms_def)
qed

lemma calms_GetAddrHandler [calm_intros]: "calms qp (GetAddrHandler P a ib)"
  unfolding GetAddrHandler_def by (auto intro!: calm_intros simp: calm_def)

section \<open>What the pieces of the threads do\<close>

lemma PostReceive_run:
  assumes "PostReceive P qp b bf tr = (Inr u, tr')" "b < 2 ^ 64"
  shows "has P qp tr' = (add_mset b (posted P qp tr), in_flight P qp tr)"
  using assms by (auto simp: PostReceive_def run_Inr has_def fail_def unat_of_nat take_bit_nat_eq_self split: if_splits)

lemma PostSend_run:
  assumes "PostSend P qp b bf n a ib tr = (Inr ib', tr')" "b < 2 ^ 64"
  shows "has P qp tr' = (posted P qp tr, add_mset b (in_flight P qp tr))"
proof -
  obtain ah ib1 tr1 c where "GetAddrHandler P a ib tr = (Inr (ah, ib1), tr1)" "tr' = c # tr1" "p_int P tr1 c = 0"
    "c = Post_send (qp_ptr qp) [\<lparr>wr_id = of_nat b,
                sg_list = [\<lparr>sge_addr = of_nat (buf bf), sge_length = n, sge_lkey = p_lkey P (buf_mr bf)\<rparr>],
                opcode = IBV_WR_SEND,
                send_flags = {IBV_SEND_SIGNALED} \<union> (if unat n \<le> kMaxInlineData then {IBV_SEND_INLINE} else {}),
                dest = Ud ah (addr_qpn a) 0\<rparr>]"
    using assms(1) by (auto simp: PostSend_def run_Inr fail_def split: if_splits)
  moreover from this(1) have "has P qp tr1 = has P qp tr"
    by (rule calms_has [OF calms_GetAddrHandler])
  ultimately show ?thesis
    using assms(2) by (simp add: has_def unat_of_nat take_bit_nat_eq_self)
qed

lemma PollCQ_run:
  assumes "PollCQ P cq 1 bufs tr = (Inr (b, bufs'), tr')"
  shows "tr' = Poll_cq cq 1 # tr"
    "b = (if 0 < p_int P tr (Poll_cq cq 1) then Some (unat (wc_id (p_wc P tr (Poll_cq cq 1)))) else None)"
  using assms by (auto simp: PollCQ_def run_Inr fail_def Let_def split: if_splits)

lemma Dispatch_run:
  assumes "Dispatch P cfg b sv tr = (Inr sv', tr')"
  obtains w sv1 where "w < length (sv_queues sv)" "Worker_Enqueue w b sv = Some sv1" "sv' = sv1\<lparr>sv_num_recv := sv_num_recv sv1 + 1\<rparr>"
    "\<And>qp. has P qp tr' = has P qp tr"
proof -
  obtain c w sv1 where r: "tr' = Os c # tr" "Worker_Enqueue w b sv = Some sv1" "sv' = sv1\<lparr>sv_num_recv := sv_num_recv sv1 + 1\<rparr>"
    using assms by (auto simp: Dispatch_def run_Inr checked_Inr)
  from r(2) have "w < length (sv_queues sv)"
    by (auto simp: Worker_Enqueue_def array_get_def split: if_splits)
  then show thesis
    using that r by (simp add: calm_has calm_def)
qed

text \<open>The work on a request posts the send buffer and leaves the lists alone.\<close>

lemma Serve_work_run:
  assumes "Serve_work P fuel w work sb sv tr = (Inr sv', tr')" "own_queues sv" "sb < 2 ^ 64"
  shows "has P (sv_qp sv) tr' = (posted P (sv_qp sv) tr, add_mset sb (in_flight P (sv_qp sv) tr))"
    "buffer_lists sv' R S Q = buffer_lists sv R S Q" "same_queues sv sv'"
proof -
  let ?qp = "sv_qp sv"
  obtain bs v h t resp h' rbs tr1 tr2 ib where
    t: "array_get (sv_tablets sv) w = Some t" and
    tr: "tr1 = Os (Copy_to (of_nat (buf (sv_bufs sv sb))) rbs) #
          Os (Load_bytes (of_nat (buf (sv_bufs sv work))) (buf_size (sv_bufs sv work))) # tr"
      "log_transport (Sync P fuel (sv_index sv) t (modifications h')) tr1 = (Inr (), tr2)"
      "PostSend P ?qp sb (sv_bufs sv sb) (of_nat (Response_Len resp)) (peer_addr (sv_bufs sv work)) (sv_ib sv) tr2 = (Inr ib, tr')"
    and sv': "sv' = sv\<lparr>sv_heaps := (sv_heaps sv)[w := h'], sv_ib := ib\<rparr>"
    using assms(1) by (auto simp: Serve_work_def run_Inr checked_Inr Let_def fail_def split: option.splits)
  have "t \<in> set (sv_tablets sv)"
    using t by (auto simp: array_get_def split: if_splits)
  then have "calms ?qp (log_transport (Sync P fuel (sv_index sv) t (modifications h')))"
    using assms(2) by (intro calms_log calms_Sync) (auto simp: own_queues_def)
  from calms_has [OF this tr(2)] have "has P ?qp tr2 = has P ?qp tr"
    by (simp add: tr(1) calm_has calm_def)
  with PostSend_run [OF tr(3) assms(3)] show "has P ?qp tr' = (posted P ?qp tr, add_mset sb (in_flight P ?qp tr))"
    by (simp add: has_def)
  show "buffer_lists sv' R S Q = buffer_lists sv R S Q" "same_queues sv sv'"
    by (simp_all add: sv' buffer_lists_def same_queues_def)
qed

section \<open>Every buffer is in one place\<close>

text \<open>The receive buffer a worker holds and the send buffer it fills.\<close>

fun works :: "serve_pc \<Rightarrow> nat multiset" where
  "works Serve_poll = {#}"
| "works (Serve_alloc work) = {#work#}"
| "works (Serve_reply work sb) = {#work#}"
| "works (Serve_free work) = {#work#}"

fun fills :: "serve_pc \<Rightarrow> nat multiset" where
  "fills (Serve_reply work sb) = {#sb#}"
| "fills _ = {#}"

text \<open>
  \<open>owned P c R S Q\<close>: the pools are \<open>R\<close> and \<open>S\<close>, the queues of the workers \<open>Q\<close>; each receive buffer is
  once in the pool, a queue, the hands of a worker or the receive queue of the hardware, each send
  buffer once in the pool, the hands of a worker or the send queue.
\<close>

definition owned :: "platform \<Rightarrow> running \<Rightarrow> nat list \<Rightarrow> nat list \<Rightarrow> (nat \<Rightarrow> nat list) \<Rightarrow> bool" where
  "owned P c R S Q \<longleftrightarrow>
     buffer_lists (rn_sv c) R S Q
   \<and> mset R + (\<Sum>w<length (sv_queues (rn_sv c)). mset (Q w) + works (rn_serve c w)) + posted P (sv_qp (rn_sv c)) (rn_tr c)
       = mset [kMaxIBQueueDepth..<2 * kMaxIBQueueDepth]
   \<and> mset S + (\<Sum>w<length (sv_queues (rn_sv c)). fills (rn_serve c w)) + in_flight P (sv_qp (rn_sv c)) (rn_tr c)
       = mset [0..<kMaxIBQueueDepth]"

lemma sum_two:
  fixes f :: "nat \<Rightarrow> nat"
  assumes "v < n" "w < n" "v \<noteq> w"
  shows "f v + f w \<le> (\<Sum>i<n. f i)"
proof -
  have "sum f {v, w} \<le> sum f {..<n}"
    using assms by (intro sum_mono2) auto
  with assms(3) show ?thesis
    by simp
qed

lemma sum_one: "w < n \<Longrightarrow> f w \<le> (\<Sum>i<n. f i)" for f :: "nat \<Rightarrow> nat"
  by (intro member_le_sum) auto

lemma sum_at:
  fixes f g :: "nat \<Rightarrow> 'a multiset"
  assumes "w < n" "\<And>v. v \<noteq> w \<Longrightarrow> g v = f v"
  shows "(\<Sum>v<n. g v) + f w = (\<Sum>v<n. f v) + g w"
proof -
  have "(\<Sum>v<n. h v) = h w + (\<Sum>v\<in>{..<n} - {w}. h v)" for h :: "nat \<Rightarrow> 'a multiset"
    using assms(1) by (intro sum.remove) auto
  moreover have "(\<Sum>v\<in>{..<n} - {w}. g v) = (\<Sum>v\<in>{..<n} - {w}. f v)"
    using assms(2) by (intro sum.cong) auto
  ultimately show ?thesis
    by (metis (no_types, lifting) add.assoc add.commute)
qed

lemma count_range: "count (mset [a..<b]) x = (if a \<le> x \<and> x < b then 1 else 0)"
  by (simp add: count_mset_0_iff distinct_count_atmost_1 [THEN iffD1, rule_format])

text \<open>The number of times a buffer is somewhere.\<close>

definition recv_count :: "platform \<Rightarrow> running \<Rightarrow> nat list \<Rightarrow> (nat \<Rightarrow> nat list) \<Rightarrow> nat \<Rightarrow> nat" where
  "recv_count P c R Q x = count (mset R) x
     + (\<Sum>w<length (sv_queues (rn_sv c)). count (mset (Q w)) x + count (works (rn_serve c w)) x)
     + count (posted P (sv_qp (rn_sv c)) (rn_tr c)) x"

definition send_count :: "platform \<Rightarrow> running \<Rightarrow> nat list \<Rightarrow> nat \<Rightarrow> nat" where
  "send_count P c S x = count (mset S) x + (\<Sum>w<length (sv_queues (rn_sv c)). count (fills (rn_serve c w)) x)
     + count (in_flight P (sv_qp (rn_sv c)) (rn_tr c)) x"

lemma owned_count:
  assumes "owned P c R S Q"
  shows "recv_count P c R Q x = (if kMaxIBQueueDepth \<le> x \<and> x < 2 * kMaxIBQueueDepth then 1 else 0)"
    "send_count P c S x = (if x < kMaxIBQueueDepth then 1 else 0)"
proof -
  have "count (mset R + (\<Sum>w<length (sv_queues (rn_sv c)). mset (Q w) + works (rn_serve c w)) + posted P (sv_qp (rn_sv c)) (rn_tr c)) x
      = count (mset [kMaxIBQueueDepth..<2 * kMaxIBQueueDepth]) x"
    using assms unfolding owned_def by (elim conjE) (rule arg_cong)
  then show "recv_count P c R Q x = (if kMaxIBQueueDepth \<le> x \<and> x < 2 * kMaxIBQueueDepth then 1 else 0)"
    unfolding recv_count_def by (simp only: count_union count_sum count_range)
  have "count (mset S + (\<Sum>w<length (sv_queues (rn_sv c)). fills (rn_serve c w)) + in_flight P (sv_qp (rn_sv c)) (rn_tr c)) x
      = count (mset [0..<kMaxIBQueueDepth]) x"
    using assms unfolding owned_def by (elim conjE) (rule arg_cong)
  then show "send_count P c S x = (if x < kMaxIBQueueDepth then 1 else 0)"
    unfolding send_count_def by (simp only: count_union count_sum count_range) simp
qed

lemma recv_count_ge:
  fixes c :: running
  defines "n \<equiv> length (sv_queues (rn_sv c))"
  shows "count (mset R) x + count (posted P (sv_qp (rn_sv c)) (rn_tr c)) x \<le> recv_count P c R Q x"
    "w < n \<Longrightarrow> count (mset R) x + count (mset (Q w)) x + count (works (rn_serve c w)) x + count (posted P (sv_qp (rn_sv c)) (rn_tr c)) x
       \<le> recv_count P c R Q x"
    "v < n \<Longrightarrow> w < n \<Longrightarrow> v \<noteq> w \<Longrightarrow> count (mset (Q v)) x + count (works (rn_serve c v)) x
       + count (mset (Q w)) x + count (works (rn_serve c w)) x \<le> recv_count P c R Q x"
  using sum_one [of w n "\<lambda>w. count (mset (Q w)) x + count (works (rn_serve c w)) x"]
    sum_two [of v n w "\<lambda>w. count (mset (Q w)) x + count (works (rn_serve c w)) x"]
  by (simp_all add: recv_count_def n_def)

lemma send_count_ge:
  fixes c :: running
  defines "n \<equiv> length (sv_queues (rn_sv c))"
  shows "count (mset S) x + count (in_flight P (sv_qp (rn_sv c)) (rn_tr c)) x \<le> send_count P c S x"
    "w < n \<Longrightarrow> count (mset S) x + count (fills (rn_serve c w)) x + count (in_flight P (sv_qp (rn_sv c)) (rn_tr c)) x
       \<le> send_count P c S x"
  using sum_one [of w n "\<lambda>w. count (fills (rn_serve c w)) x"] by (simp_all add: send_count_def n_def)

lemma in_count: "b \<in># M \<Longrightarrow> 1 \<le> count M b" "b \<in> set L \<Longrightarrow> 1 \<le> count (mset L) b" "count (mset L) b < 1 \<Longrightarrow> b \<notin> set L"
  by (simp_all add: Suc_le_eq count_mset_gt_0 count_eq_zero_iff)

text \<open>What is in the hands of the hardware or of a worker is in no list, and no buffer is in two lists.\<close>

lemma owned_range:
  assumes "owned P c R S Q"
  shows "1 \<le> recv_count P c R Q b \<Longrightarrow> kMaxIBQueueDepth \<le> b \<and> b < 2 * kMaxIBQueueDepth"
    "1 \<le> send_count P c S b \<Longrightarrow> b < kMaxIBQueueDepth" "recv_count P c R Q b \<le> 1" "send_count P c S b \<le> 1"
  using owned_count [OF assms, of b] by (simp_all split: if_splits)

lemma owned_elsewhere:
  assumes "owned P c R S Q"
  shows "b \<in># posted P (sv_qp (rn_sv c)) (rn_tr c) \<Longrightarrow> unlisted (rn_sv c) R S Q b"
    "w < length (sv_queues (rn_sv c)) \<Longrightarrow> b \<in># works (rn_serve c w) \<Longrightarrow> unlisted (rn_sv c) R S Q b"
    "b \<in># in_flight P (sv_qp (rn_sv c)) (rn_tr c) \<Longrightarrow> unlisted (rn_sv c) R S Q b"
    "w < length (sv_queues (rn_sv c)) \<Longrightarrow> b \<in> set (Q w) \<Longrightarrow>
       b \<notin> set R \<and> b \<notin> set S \<and> (\<forall>v<length (sv_queues (rn_sv c)). v \<noteq> w \<longrightarrow> b \<notin> set (Q v))"
proof -
  let ?n = "length (sv_queues (rn_sv c))" and ?r = "recv_count P c R Q b" and ?s = "send_count P c S b"
  note r = owned_range [OF assms, of b] and rc = recv_count_ge [where R = R and x = b and P = P and c = c and Q = Q] and sc = send_count_ge [where S = S and x = b and P = P and c = c]
  have S: "b \<notin> set S" if "1 \<le> ?r"
    using r(1) [OF that] r(2) sc(1) in_count(2) [of b S] by fastforce
  have R: "b \<notin> set R" "w < ?n \<Longrightarrow> b \<notin> set (Q w)" if "1 \<le> ?s" for w
  proof -
    have z: "?r < 1"
      using r(1) r(2) [OF that] by linarith
    show "b \<notin> set R"
      using z rc(1) by (intro in_count(3)) linarith
    show "b \<notin> set (Q w)" if "w < ?n"
      using z rc(2) [OF that] by (intro in_count(3)) linarith
  qed
  show "unlisted (rn_sv c) R S Q b" if b: "b \<in># posted P (sv_qp (rn_sv c)) (rn_tr c)"
  proof -
    note p = in_count(1) [OF b]
    have "b \<notin> set R"
      using rc(1) p r(3) by (intro in_count(3)) linarith
    moreover have "1 \<le> ?r"
      using rc(1) p by linarith
    moreover have "b \<notin> set (Q v)" if "v < ?n" for v
      using rc(2) [OF that] p r(3) by (intro in_count(3)) linarith
    ultimately show ?thesis
      using S by (simp add: unlisted_def)
  qed
  show "unlisted (rn_sv c) R S Q b" if w: "w < ?n" and b: "b \<in># works (rn_serve c w)"
  proof -
    note p = in_count(1) [OF b] and rw = rc(2) [OF w]
    have "b \<notin> set R" "b \<notin> set (Q w)"
      using rw p r(3) by (intro in_count(3); linarith)+
    moreover have "1 \<le> ?r"
      using rw p by linarith
    moreover have "b \<notin> set (Q v)" if "v < ?n" "v \<noteq> w" for v
      using rc(3) [OF that(1) w that(2)] p r(3) by (intro in_count(3)) linarith
    ultimately show ?thesis
      using S by (auto simp: unlisted_def)
  qed
  show "unlisted (rn_sv c) R S Q b" if b: "b \<in># in_flight P (sv_qp (rn_sv c)) (rn_tr c)"
  proof -
    note p = in_count(1) [OF b]
    have "b \<notin> set S"
      using sc(1) p r(4) by (intro in_count(3)) linarith
    moreover have "1 \<le> ?s"
      using sc(1) p by linarith
    ultimately show ?thesis
      using R by (simp add: unlisted_def)
  qed
  show "b \<notin> set R \<and> b \<notin> set S \<and> (\<forall>v<?n. v \<noteq> w \<longrightarrow> b \<notin> set (Q v))" if w: "w < ?n" and b: "b \<in> set (Q w)"
  proof -
    note p = in_count(2) [OF b] and rw = rc(2) [OF w]
    have "b \<notin> set R"
      using rw p r(3) by (intro in_count(3)) linarith
    moreover have "1 \<le> ?r"
      using rw p by linarith
    moreover have "b \<notin> set (Q v)" if "v < ?n" "v \<noteq> w" for v
      using rc(3) [OF that(1) w that(2)] p r(3) by (intro in_count(3)) linarith
    ultimately show ?thesis
      using S by simp
  qed
qed

section \<open>The steps keep it so\<close>

lemma ownedI:
  assumes "owned P c R S Q" "same_queues (rn_sv c) (rn_sv c')" "buffer_lists (rn_sv c') R' S' Q'"
    and "has P (sv_qp (rn_sv c)) (rn_tr c') = (pst, fl)"
    and "mset R' + (\<Sum>w<length (sv_queues (rn_sv c)). mset (Q' w) + works (rn_serve c' w)) + pst =
      mset R + (\<Sum>w<length (sv_queues (rn_sv c)). mset (Q w) + works (rn_serve c w)) + posted P (sv_qp (rn_sv c)) (rn_tr c)"
    and "mset S' + (\<Sum>w<length (sv_queues (rn_sv c)). fills (rn_serve c' w)) + fl =
      mset S + (\<Sum>w<length (sv_queues (rn_sv c)). fills (rn_serve c w)) + in_flight P (sv_qp (rn_sv c)) (rn_tr c)"
  shows "owned P c' R' S' Q'"
  using assms by (simp add: owned_def same_queues_def has_def)

lemma owned_lists: "owned P c R S Q \<Longrightarrow> buffer_lists (rn_sv c) R S Q"
  by (simp add: owned_def)

lemma buffer_number: "b < 2 * kMaxIBQueueDepth \<Longrightarrow> b < 2 ^ 64"
  by (simp add: kMaxIBQueueDepth_def)

lemma post_step:
  assumes o: "owned P c R S Q" and a: "recv_alloc (rn_sv c) = (Some b, sv)"
    and p: "PostReceive P (sv_qp sv) b bf (rn_tr c) = (Inr u, tr)"
    and c': "rn_sv c' = sv" "rn_tr c' = tr" "rn_serve c' = rn_serve c"
  shows "R \<noteq> []" "owned P c' (tl R) S Q" "same_queues (rn_sv c) sv"
proof -
  note al = recv_alloc_lists [OF owned_lists [OF o] a]
  show "R \<noteq> []" "same_queues (rn_sv c) sv"
    using al(1,3) by (auto split: if_splits)
  then have R: "mset R = add_mset b (mset (tl R))" "b \<in> set R"
    using al(1) by (cases R; simp)+
  have qp: "sv_qp sv = sv_qp (rn_sv c)"
    using al(3) by (simp add: same_queues_def)
  have "1 \<le> recv_count P c R Q b"
    using in_count(2) [OF R(2)] recv_count_ge(1) [where R = R and x = b and P = P and c = c and Q = Q] by linarith
  then have "b < 2 ^ 64"
    using owned_range(1) [OF o] buffer_number by blast
  note h = PostReceive_run [OF p [unfolded qp] this]
  show "owned P c' (tl R) S Q"
    by (rule ownedI [OF o _ _ h [folded c'(2)]]) (use al c' R(1) in simp_all)
qed

lemma dispatch_step:
  assumes o: "owned P c R S Q" and q: "own_queues (rn_sv c)" "completes_posted P (sv_qp (rn_sv c))"
    and t: "TryReceive P (sv_qp (rn_sv c)) (sv_bufs (rn_sv c)) (rn_tr c) = (Inr (Some b, bufs), tr1)"
    and d: "Dispatch P cfg b ((rn_sv c)\<lparr>sv_bufs := bufs\<rparr>) tr1 = (Inr sv, tr)"
    and c': "rn_sv c' = sv" "rn_tr c' = tr" "rn_serve c' = rn_serve c"
  shows "\<exists>w. owned P c' R S (Q(w := Q w @ [b]))" "same_queues (rn_sv c) sv"
proof -
  let ?qp = "sv_qp (rn_sv c)" and ?n = "length (sv_queues (rn_sv c))"
  note pr = PollCQ_run [OF t [unfolded TryReceive_def]]
  have b: "b \<in># posted P ?qp (rn_tr c)" and h1: "has P ?qp tr1 = (posted P ?qp (rn_tr c) - {#b#}, in_flight P ?qp (rn_tr c))"
    using pr q by (auto simp: completes_posted_def own_queues_def has_def split: if_splits)
  obtain w sv1 where w: "w < ?n" "Worker_Enqueue w b ((rn_sv c)\<lparr>sv_bufs := bufs\<rparr>) = Some sv1"
    "sv = sv1\<lparr>sv_num_recv := sv_num_recv sv1 + 1\<rparr>" "has P ?qp tr = has P ?qp tr1"
    by (rule Dispatch_run [OF d]) simp
  have u: "unlisted (rn_sv c) R S Q b"
    by (rule owned_elsewhere(1) [OF o b])
  have "buffer_lists ((rn_sv c)\<lparr>sv_bufs := bufs\<rparr>) R S Q"
    using owned_lists [OF o] by simp
  then have "\<exists>sv'. Worker_Enqueue w b ((rn_sv c)\<lparr>sv_bufs := bufs\<rparr>) = Some sv' \<and> buffer_lists sv' R S (Q(w := Q w @ [b]))
      \<and> same_queues ((rn_sv c)\<lparr>sv_bufs := bufs\<rparr>) sv'"
  proof (rule enqueue_lists)
    show "b \<notin> set (Q w)" "w < length (sv_queues ((rn_sv c)\<lparr>sv_bufs := bufs\<rparr>))"
      using u w(1) by (simp_all add: unlisted_def)
    show "x \<notin> set R \<and> x \<notin> set S \<and> (\<forall>v<length (sv_queues ((rn_sv c)\<lparr>sv_bufs := bufs\<rparr>)). v \<noteq> w \<longrightarrow> x \<notin> set (Q v))"
      if "x \<in> set (Q w)" for x
      using owned_elsewhere(4) [OF o w(1) that] by simp
  qed
  then have e: "buffer_lists sv1 R S (Q(w := Q w @ [b]))" "same_queues (rn_sv c) sv1"
    by (simp_all add: w(2) same_queues_def)
  show sq: "same_queues (rn_sv c) sv"
    using e(2) by (simp add: w(3) same_queues_def)
  have "(\<Sum>v<?n. mset ((Q(w := Q w @ [b])) v) + works (rn_serve c v)) + (mset (Q w) + works (rn_serve c w)) =
      (\<Sum>v<?n. mset (Q v) + works (rn_serve c v)) + (mset (Q w @ [b]) + works (rn_serve c w))"
    using sum_at [OF w(1), of "\<lambda>v. mset ((Q(w := Q w @ [b])) v) + works (rn_serve c v)" "\<lambda>v. mset (Q v) + works (rn_serve c v)"] by simp
  then have "(\<Sum>v<?n. mset ((Q(w := Q w @ [b])) v) + works (rn_serve c v)) = add_mset b (\<Sum>v<?n. mset (Q v) + works (rn_serve c v))"
    by simp
  then have "owned P c' R S (Q(w := Q w @ [b]))"
    using b by (intro ownedI [OF o _ _ h1 [folded w(4), folded c'(2)]]) (use sq e(1) c' in \<open>simp_all add: w(3) buffer_lists_def\<close>)
  then show "\<exists>w. owned P c' R S (Q(w := Q w @ [b]))"
    by blast
qed

lemma sent_step:
  assumes o: "owned P c R S Q" and q: "own_queues (rn_sv c)" "completes_posted P (sv_qp (rn_sv c))"
    and t: "TrySend P (sv_qp (rn_sv c)) (sv_bufs (rn_sv c)) (rn_tr c) = (Inr (Some b, bufs), tr)"
    and c': "rn_sv c' = send_free b ((rn_sv c)\<lparr>sv_bufs := bufs\<rparr>)" "rn_tr c' = tr" "rn_serve c' = rn_serve c"
  shows "owned P c' R (b # S) Q" "same_queues (rn_sv c) (rn_sv c')"
proof -
  let ?qp = "sv_qp (rn_sv c)"
  note pr = PollCQ_run [OF t [unfolded TrySend_def]]
  have b: "b \<in># in_flight P ?qp (rn_tr c)" and h: "has P ?qp tr = (posted P ?qp (rn_tr c), in_flight P ?qp (rn_tr c) - {#b#})"
    using pr q by (auto simp: completes_posted_def own_queues_def has_def split: if_splits)
  have u: "unlisted ((rn_sv c)\<lparr>sv_bufs := bufs\<rparr>) R S Q b"
    using owned_elsewhere(3) [OF o b] by (simp add: unlisted_def)
  have "buffer_lists ((rn_sv c)\<lparr>sv_bufs := bufs\<rparr>) R S Q"
    using owned_lists [OF o] by simp
  note f = send_free_lists [OF this u]
  show sq: "same_queues (rn_sv c) (rn_sv c')"
    using f(2) by (simp add: c'(1) same_queues_def)
  show "owned P c' R (b # S) Q"
    using b by (intro ownedI [OF o sq _ h [folded c'(2)]]) (use f(1) c' in simp_all)
qed

text \<open>A poll that finds nothing.\<close>

lemma idle_step:
  assumes o: "owned P c R S Q" and t: "PollCQ P cq 1 (sv_bufs (rn_sv c)) (rn_tr c) = (Inr (None, bufs), tr)"
    and c': "rn_sv c' = (rn_sv c)\<lparr>sv_bufs := bufs\<rparr>" "rn_tr c' = tr" "rn_serve c' = rn_serve c"
  shows "owned P c' R S Q" "same_queues (rn_sv c) (rn_sv c')"
proof -
  show sq: "same_queues (rn_sv c) (rn_sv c')"
    by (simp add: c'(1) same_queues_def)
  have "has P (sv_qp (rn_sv c)) tr = (posted P (sv_qp (rn_sv c)) (rn_tr c), in_flight P (sv_qp (rn_sv c)) (rn_tr c))"
    using PollCQ_run [OF t] by (auto simp: has_def split: if_splits)
  then show "owned P c' R S Q"
    by (intro ownedI [OF o sq]) (use owned_lists [OF o] c' in simp_all)
qed

text \<open>The sums over the workers when one of them moves.\<close>

lemma worker_sums:
  fixes w n :: nat and Q :: "nat \<Rightarrow> nat list"
  assumes "w < n"
  shows "(\<Sum>v<n. mset ((Q(w := L)) v) + works ((ws(w := pc)) v)) + (mset (Q w) + works (ws w))
      = (\<Sum>v<n. mset (Q v) + works (ws v)) + (mset L + works pc)"
    "(\<Sum>v<n. fills ((ws(w := pc)) v)) + fills (ws w) = (\<Sum>v<n. fills (ws v)) + fills pc"
  using sum_at [OF assms, of "\<lambda>v. mset ((Q(w := L)) v) + works ((ws(w := pc)) v)" "\<lambda>v. mset (Q v) + works (ws v)"]
    sum_at [OF assms, of "\<lambda>v. fills ((ws(w := pc)) v)" "\<lambda>v. fills (ws v)"] by simp_all

lemma take_step:
  assumes o: "owned P c R S Q" and w: "w < length (sv_queues (rn_sv c))" "rn_serve c w = Serve_poll"
    and s: "Serve P fuel w Serve_poll (rn_sv c) (rn_tr c) = (Inr (pc, sv), tr)"
    and c': "rn_sv c' = sv" "rn_tr c' = tr" "rn_serve c' = (rn_serve c)(w := pc)"
  shows "owned P c' R S (Q(w := tl (Q w)))" "same_queues (rn_sv c) sv" "Q w = [] \<Longrightarrow> pc = Serve_poll"
proof -
  let ?n = "length (sv_queues (rn_sv c))"
  obtain b q nx where d: "Dequeue (sv_queues (rn_sv c) ! w, sv_next (rn_sv c)) = (b, q, nx)"
    by (cases "Dequeue (sv_queues (rn_sv c) ! w, sv_next (rn_sv c))")
  have e: "pc = (case b of None \<Rightarrow> Serve_poll | Some work \<Rightarrow> Serve_alloc work)" "tr = rn_tr c"
    "sv = (rn_sv c)\<lparr>sv_queues := (sv_queues (rn_sv c))[w := q], sv_next := nx\<rparr>"
    using s w(1) d by (auto simp: checked_def run_Inr Let_def)
  note dq = dequeue_lists [OF owned_lists [OF o] w(1) d]
  show sq: "same_queues (rn_sv c) sv" "Q w = [] \<Longrightarrow> pc = Serve_poll"
    using e dq(1) by (simp_all add: same_queues_def)
  note sums = worker_sums(1) [OF w(1), of Q "tl (Q w)" "rn_serve c" pc] worker_sums(2) [OF w(1), of "rn_serve c" pc]
  have "mset (tl (Q w)) + works pc = mset (Q w)" "fills pc = {#}"
    using e(1) dq(1) by (cases "Q w"; simp)+
  with sums have "(\<Sum>v<?n. mset ((Q(w := tl (Q w))) v) + works (((rn_serve c)(w := pc)) v)) = (\<Sum>v<?n. mset (Q v) + works (rn_serve c v))"
      "(\<Sum>v<?n. fills (((rn_serve c)(w := pc)) v)) = (\<Sum>v<?n. fills (rn_serve c v))"
    by (simp_all add: w(2))
  then show "owned P c' R S (Q(w := tl (Q w)))"
    using sq dq(2) by (intro ownedI [OF o]) (simp_all add: c' e(2,3) has_def)
qed

lemma alloc_step:
  assumes o: "owned P c R S Q" and w: "w < length (sv_queues (rn_sv c))" "rn_serve c w = Serve_alloc work"
    and s: "Serve P fuel w (Serve_alloc work) (rn_sv c) (rn_tr c) = (Inr (pc, sv), tr)"
    and c': "rn_sv c' = sv" "rn_tr c' = tr" "rn_serve c' = (rn_serve c)(w := pc)"
  shows "owned P c' R (tl S) Q" "same_queues (rn_sv c) sv"
proof -
  let ?n = "length (sv_queues (rn_sv c))"
  obtain sb where a: "send_alloc (rn_sv c) = (Some sb, sv)" "pc = Serve_reply work sb" "tr = rn_tr c"
    using s by (auto simp: run_Inr fail_def split: prod.splits option.splits)
  note al = send_alloc_lists [OF owned_lists [OF o] a(1)]
  show sq: "same_queues (rn_sv c) sv"
    by (rule al(3))
  have S: "mset S = add_mset sb (mset (tl S))"
    using al(1) by (cases S) simp_all
  note sums = worker_sums(1) [OF w(1), of Q "Q w" "rn_serve c" pc] worker_sums(2) [OF w(1), of "rn_serve c" pc]
  have "(\<Sum>v<?n. mset (Q v) + works (((rn_serve c)(w := pc)) v)) = (\<Sum>v<?n. mset (Q v) + works (rn_serve c v))"
      "(\<Sum>v<?n. fills (((rn_serve c)(w := pc)) v)) = add_mset sb (\<Sum>v<?n. fills (rn_serve c v))"
    using sums by (simp_all add: w(2) a(2))
  then show "owned P c' R (tl S) Q"
    using sq al(2) by (intro ownedI [OF o]) (simp_all add: c' a(3) has_def S)
qed

lemma reply_step:
  assumes o: "owned P c R S Q" and w: "w < length (sv_queues (rn_sv c))" "rn_serve c w = Serve_reply work sb"
    and q: "own_queues (rn_sv c)"
    and s: "Serve P fuel w (Serve_reply work sb) (rn_sv c) (rn_tr c) = (Inr (pc, sv), tr)"
    and c': "rn_sv c' = sv" "rn_tr c' = tr" "rn_serve c' = (rn_serve c)(w := pc)"
  shows "owned P c' R S Q" "same_queues (rn_sv c) sv"
proof -
  let ?n = "length (sv_queues (rn_sv c))" and ?qp = "sv_qp (rn_sv c)"
  have s': "Serve_work P fuel w work sb (rn_sv c) (rn_tr c) = (Inr sv, tr)" "pc = Serve_free work"
    using s by (auto simp: run_Inr)
  have "1 \<le> send_count P c S sb"
    using send_count_ge(2) [OF w(1), where S = S and x = sb and P = P] by (simp add: w(2))
  then have "sb < 2 ^ 64"
    using owned_range(2) [OF o, of sb] buffer_number [of sb] by linarith
  note r = Serve_work_run [OF s'(1) q this]
  show sq: "same_queues (rn_sv c) sv"
    by (rule r(3))
  note sums = worker_sums(1) [OF w(1), of Q "Q w" "rn_serve c" pc] worker_sums(2) [OF w(1), of "rn_serve c" pc]
  have "(\<Sum>v<?n. mset (Q v) + works (((rn_serve c)(w := pc)) v)) = (\<Sum>v<?n. mset (Q v) + works (rn_serve c v))"
      "(\<Sum>v<?n. fills (rn_serve c v)) = add_mset sb (\<Sum>v<?n. fills (((rn_serve c)(w := pc)) v))"
    using sums by (simp_all add: w(2) s'(2))
  then show "owned P c' R S Q"
    using sq r(2) owned_lists [OF o] by (intro ownedI [OF o _ _ r(1) [folded c'(2)]]) (simp_all add: c')
qed

lemma free_step:
  assumes o: "owned P c R S Q" and w: "w < length (sv_queues (rn_sv c))" "rn_serve c w = Serve_free work"
    and s: "Serve P fuel w (Serve_free work) (rn_sv c) (rn_tr c) = (Inr (pc, sv), tr)"
    and c': "rn_sv c' = sv" "rn_tr c' = tr" "rn_serve c' = (rn_serve c)(w := pc)"
  shows "owned P c' (work # R) S Q" "same_queues (rn_sv c) sv"
proof -
  let ?n = "length (sv_queues (rn_sv c))"
  have a: "sv = recv_free work (rn_sv c)" "pc = Serve_poll" "tr = rn_tr c"
    using s by (auto simp: run_Inr)
  have "unlisted (rn_sv c) R S Q work"
    by (rule owned_elsewhere(2) [OF o w(1)]) (simp add: w(2))
  note f = recv_free_lists [OF owned_lists [OF o] this]
  show sq: "same_queues (rn_sv c) sv"
    unfolding a(1) by (rule f(2))
  note sums = worker_sums(1) [OF w(1), of Q "Q w" "rn_serve c" pc] worker_sums(2) [OF w(1), of "rn_serve c" pc]
  have "(\<Sum>v<?n. mset (Q v) + works (rn_serve c v)) = add_mset work (\<Sum>v<?n. mset (Q v) + works (((rn_serve c)(w := pc)) v))"
      "(\<Sum>v<?n. fills (((rn_serve c)(w := pc)) v)) = (\<Sum>v<?n. fills (rn_serve c v))"
    using sums by (simp_all add: w(2) a(2))
  then show "owned P c' (work # R) S Q"
    using sq f(1) by (intro ownedI [OF o]) (simp_all add: c' a(1,3) has_def)
qed

text \<open>Until the receive queue is full the workers have nothing to do.\<close>

definition filling :: "running \<Rightarrow> nat list \<Rightarrow> (nat \<Rightarrow> nat list) \<Rightarrow> bool" where
  "filling c R Q \<longleftrightarrow> (\<forall>k. rn_poll c = Poll_fill k \<longrightarrow>
     length R = k \<and> (\<forall>w<length (sv_queues (rn_sv c)). Q w = [] \<and> rn_serve c w = Serve_poll))"

lemma fill_keeps:
  assumes o: "owned P c R S Q" and f: "filling c R Q" and pp: "rn_poll c = Poll_fill k"
    and s: "Poll P cfg (Poll_fill k) (rn_sv c) (rn_tr c) = (Inr (pc, sv), tr)"
    and c': "c' = c\<lparr>rn_sv := sv, rn_tr := tr, rn_poll := pc\<rparr>"
  shows "(\<exists>R S Q. owned P c' R S Q \<and> filling c' R Q) \<and> same_queues (rn_sv c) sv"
proof (cases k)
  case 0
  then have "sv = rn_sv c" "tr = rn_tr c" "pc = Poll_receive"
    using s by (simp_all add: ret_def)
  then show ?thesis
    using o by (auto simp: c' owned_def filling_def same_queues_def)
next
  case (Suc n)
  obtain b where a: "recv_alloc (rn_sv c) = (Some b, sv)" "PostReceive P (sv_qp sv) b (sv_bufs sv b) (rn_tr c) = (Inr (), tr)"
    "pc = Poll_fill n"
    using s Suc by (auto simp: Poll_fill_one_def run_Inr fail_def split: prod.splits option.splits)
  have "owned P c' (tl R) S Q" "same_queues (rn_sv c) sv"
    using post_step [OF o a(1,2), where c' = c'] by (simp_all add: c')
  moreover from this(2) have "filling c' (tl R) Q"
    using f pp Suc by (simp add: filling_def c' a(3) same_queues_def)
  ultimately show ?thesis
    by blast
qed

lemma receive_keeps:
  assumes o: "owned P c R S Q" and q: "own_queues (rn_sv c)" "completes_posted P (sv_qp (rn_sv c))"
    and s: "Poll P cfg Poll_receive (rn_sv c) (rn_tr c) = (Inr (pc, sv), tr)"
    and c': "rn_sv c' = sv" "rn_tr c' = tr" "rn_serve c' = rn_serve c"
  shows "(\<exists>R S Q. owned P c' R S Q) \<and> same_queues (rn_sv c) sv \<and> pc = Poll_sent"
proof -
  obtain b bufs tr1 where t: "TryReceive P (sv_qp (rn_sv c)) (sv_bufs (rn_sv c)) (rn_tr c) = (Inr (b, bufs), tr1)"
    and d: "(case b of None \<Rightarrow> ret ((rn_sv c)\<lparr>sv_bufs := bufs\<rparr>) | Some b \<Rightarrow> Dispatch P cfg b ((rn_sv c)\<lparr>sv_bufs := bufs\<rparr>)) tr1 = (Inr sv, tr)"
    and pc: "pc = Poll_sent"
    using s by (auto simp: run_Inr)
  have "(\<exists>R S Q. owned P c' R S Q) \<and> same_queues (rn_sv c) sv"
  proof (cases b)
    case None
    then have "sv = (rn_sv c)\<lparr>sv_bufs := bufs\<rparr>" "tr = tr1"
      using d by (simp_all add: ret_def)
    then show ?thesis
      using idle_step [OF o t [unfolded TryReceive_def None], of c'] by (auto simp: c')
  next
    case (Some x)
    then show ?thesis
      using dispatch_step [OF o q t [unfolded Some], of cfg sv tr c'] d by (auto simp: c')
  qed
  then show ?thesis
    by (simp add: pc)
qed

lemma sent_keeps:
  assumes o: "owned P c R S Q" and q: "own_queues (rn_sv c)" "completes_posted P (sv_qp (rn_sv c))"
    and s: "Poll P cfg Poll_sent (rn_sv c) (rn_tr c) = (Inr (pc, sv), tr)"
    and c': "rn_sv c' = sv" "rn_tr c' = tr" "rn_serve c' = rn_serve c"
  shows "(\<exists>R S Q. owned P c' R S Q) \<and> same_queues (rn_sv c) sv \<and> pc = Poll_refill"
proof -
  obtain b bufs where t: "TrySend P (sv_qp (rn_sv c)) (sv_bufs (rn_sv c)) (rn_tr c) = (Inr (b, bufs), tr)"
    and d: "sv = (case b of None \<Rightarrow> (rn_sv c)\<lparr>sv_bufs := bufs\<rparr> | Some b \<Rightarrow> send_free b ((rn_sv c)\<lparr>sv_bufs := bufs\<rparr>))"
    and pc: "pc = Poll_refill"
    using s by (auto simp: run_Inr)
  have "(\<exists>R S Q. owned P c' R S Q) \<and> same_queues (rn_sv c) sv"
  proof (cases b)
    case None
    then show ?thesis
      using idle_step [OF o t [unfolded TrySend_def None], of c'] d by (auto simp: c')
  next
    case (Some x)
    then show ?thesis
      using sent_step [OF o q t [unfolded Some], of c'] d by (auto simp: c')
  qed
  then show ?thesis
    by (simp add: pc)
qed

lemma refill_keeps:
  assumes o: "owned P c R S Q" and s: "Poll P cfg Poll_refill (rn_sv c) (rn_tr c) = (Inr (pc, sv), tr)"
    and c': "rn_sv c' = sv" "rn_tr c' = tr" "rn_serve c' = rn_serve c"
  shows "(\<exists>R S Q. owned P c' R S Q) \<and> same_queues (rn_sv c) sv \<and> pc = Poll_receive"
proof -
  obtain b sv1 where a: "recv_alloc (rn_sv c) = (b, sv1)"
    by fastforce
  show ?thesis
  proof (cases b)
    case None
    then have e: "sv = sv1" "tr = rn_tr c" "pc = Poll_receive"
      using s a by (simp_all add: ret_def)
    note al = recv_alloc_lists [OF owned_lists [OF o] a]
    have "R = []"
      using al(1) None by (simp split: if_splits)
    then have "owned P c' R S Q"
      using al(2,3) by (intro ownedI [OF o]) (simp_all add: c' e has_def)
    then show ?thesis
      using al(3) e by blast
  next
    case (Some x)
    then have e: "PostReceive P (sv_qp sv) x (sv_bufs sv x) (rn_tr c) = (Inr (), tr)" "sv = sv1" "pc = Poll_receive"
      using s a by (auto simp: run_Inr)
    then show ?thesis
      using post_step [OF o a [unfolded Some, folded e(2)] e(1), of c'] by (auto simp: c')
  qed
qed

lemma poller_keeps:
  assumes o: "owned P c R S Q" and f: "filling c R Q" and q: "own_queues (rn_sv c)" "completes_posted P (sv_qp (rn_sv c))"
    and s: "Poll P cfg (rn_poll c) (rn_sv c) (rn_tr c) = (Inr (pc, sv), tr)"
    and c': "c' = c\<lparr>rn_sv := sv, rn_tr := tr, rn_poll := pc\<rparr>"
  shows "(\<exists>R S Q. owned P c' R S Q \<and> filling c' R Q) \<and> same_queues (rn_sv c) sv"
proof (cases "\<exists>k. rn_poll c = Poll_fill k")
  case True
  then show ?thesis
    using fill_keeps [OF o f _ _ c'] s by fastforce
next
  case False
  then have "(\<exists>R S Q. owned P c' R S Q) \<and> same_queues (rn_sv c) sv \<and> (\<nexists>k. pc = Poll_fill k)"
    using receive_keeps [OF o q, of cfg pc sv tr c'] sent_keeps [OF o q, of cfg pc sv tr c'] refill_keeps [OF o, of cfg pc sv tr c'] s
    by (cases "rn_poll c") (auto simp: c')
  then show ?thesis
    by (auto simp: filling_def c')
qed

lemma worker_keeps:
  assumes o: "owned P c R S Q" and f: "filling c R Q" and q: "own_queues (rn_sv c)"
    and w: "w < length (sv_queues (rn_sv c))" and s: "Serve P fuel w (rn_serve c w) (rn_sv c) (rn_tr c) = (Inr (pc, sv), tr)"
    and c': "c' = c\<lparr>rn_sv := sv, rn_tr := tr, rn_serve := (rn_serve c)(w := pc)\<rparr>"
  shows "(\<exists>R S Q. owned P c' R S Q \<and> filling c' R Q) \<and> same_queues (rn_sv c) sv"
proof (cases "rn_serve c w = Serve_poll")
  case True
  note t = take_step [OF o w True s [unfolded True], of c']
  have "owned P c' R S (Q(w := tl (Q w)))" "same_queues (rn_sv c) sv" "Q w = [] \<Longrightarrow> pc = Serve_poll"
    using t by (simp_all add: c')
  moreover from this f have "filling c' R (Q(w := tl (Q w)))"
    by (auto simp: filling_def c' same_queues_def)
  ultimately show ?thesis
    by blast
next
  case False
  have "(\<exists>R S Q. owned P c' R S Q) \<and> same_queues (rn_sv c) sv"
  proof (cases "rn_serve c w")
    case (Serve_alloc x)
    then show ?thesis
      using alloc_step [OF o w Serve_alloc s [unfolded Serve_alloc], of c'] by (auto simp: c')
  next
    case (Serve_reply x y)
    then show ?thesis
      using reply_step [OF o w Serve_reply q s [unfolded Serve_reply], of c'] by (auto simp: c')
  next
    case (Serve_free x)
    then show ?thesis
      using free_step [OF o w Serve_free s [unfolded Serve_free], of c'] by (auto simp: c')
  qed (use False in simp)
  moreover have "\<nexists>k. rn_poll c' = Poll_fill k"
    using f w False by (auto simp: filling_def c')
  ultimately show ?thesis
    by (auto simp: filling_def)
qed

lemma fresh_owned:
  assumes "fresh_server sv" "posted P (sv_qp sv) tr = {#}" "in_flight P (sv_qp sv) tr = {#}"
  shows "owned P \<lparr>rn_sv = sv, rn_tr = tr, rn_poll = pp, rn_serve = (\<lambda>_. Serve_poll)\<rparr>
    [kMaxIBQueueDepth..<2 * kMaxIBQueueDepth] [0..<kMaxIBQueueDepth] (\<lambda>_. [])"
proof -
  let ?n = kMaxIBQueueDepth
  have n: "0 < ?n" "2 * ?n = ?n + ?n"
    by (simp_all add: kMaxIBQueueDepth_def)
  obtain nx nx' where i: "RegisteredBuffers_init 0 ?n nx = (sv_send_root sv, nx')"
    "RegisteredBuffers_init ?n ?n nx' = (sv_recv_root sv, sv_next sv)" "\<forall>q\<in>set (sv_queues sv). q = WorkQueue_init"
    using assms(1) by (auto simp: fresh_server_def)
  have "pool_list (sv_recv_root sv, sv_next sv) [?n..<2 * ?n]"
    using Pool_init [OF n(1), of ?n nx'] by (simp add: i(2) n(2))
  moreover have "pool_list (sv_send_root sv, nx') [0..<?n]"
    using Pool_init [OF n(1), of 0 nx] by (simp add: i(1))
  then have "pool_list (sv_send_root sv, sv_next sv) [0..<?n]"
  proof (rule pool_frame)
    fix b
    assume "b \<in> set [0..<?n]"
    then show "sv_next sv b = nx' b"
      using arg_cong [OF i(2), of "\<lambda>p. snd p b"] by (simp add: RegisteredBuffers_init_def)
  qed
  moreover have "queue_list (sv_queues sv ! w, sv_next sv) []" if "w < length (sv_queues sv)" for w
    using that i(3) by (auto simp: queue_list_def WorkQueue_init_def dest!: nth_mem)
  ultimately show ?thesis
    using assms(2,3) by (simp add: owned_def buffer_lists_def)
qed

lemma enqueue_posted:
  assumes o: "owned P c R S Q" and w: "w < length (sv_queues (rn_sv c))" and b: "b \<in># posted P (sv_qp (rn_sv c)) (rn_tr c)"
  shows "Worker_Enqueue w b (rn_sv c) \<noteq> None"
proof -
  have "b \<notin> set (Q w)"
    using owned_elsewhere(1) [OF o b] w by (simp add: unlisted_def)
  from enqueue_lists [OF owned_lists [OF o] this w owned_elsewhere(4) [OF o w]] show ?thesis
    by auto
qed

lemma own_queues_same: "same_queues sv sv' \<Longrightarrow> own_queues sv' = own_queues sv"
  by (simp add: same_queues_def own_queues_def)

lemma running_owned:
  assumes "running_from P cfg fuel sv tr c" "fresh_server sv" "own_queues sv" "completes_posted P (sv_qp sv)"
    and "posted P (sv_qp sv) tr = {#}" "in_flight P (sv_qp sv) tr = {#}"
  shows "(\<exists>R S Q. owned P c R S Q \<and> filling c R Q) \<and> own_queues (rn_sv c) \<and> sv_qp (rn_sv c) = sv_qp sv"
  using assms(1)
proof induction
  case start
  show ?case
    using fresh_owned [OF assms(2,5,6)] assms(3) by (auto simp: filling_def intro!: exI)
next
  case (step c c')
  then obtain R S Q where c: "owned P c R S Q" "filling c R Q" "own_queues (rn_sv c)" "sv_qp (rn_sv c) = sv_qp sv"
    by blast
  have "(\<exists>R S Q. owned P c' R S Q \<and> filling c' R Q) \<and> same_queues (rn_sv c) (rn_sv c')"
    using step.hyps(2)
  proof cases
    case (poller pc sv' tr')
    then show ?thesis
      using poller_keeps [OF c(1-3) _ poller(2,1)] assms(4) c(4) by auto
  next
    case (worker w pc sv' tr')
    then show ?thesis
      using worker_keeps [OF c(1-3) worker(2,3,1)] by auto
  qed
  then show ?case
    using c(3,4) own_queues_same [of "rn_sv c" "rn_sv c'"] by (auto simp: same_queues_def)
qed

text \<open>
  C33: In a server that starts as its constructor leaves it, on hardware that completes only what was
  posted, however the poller and the workers interleave between the control points of \<^verbatim>\<open>Poll\<close> and
  \<^verbatim>\<open>Serve\<close>: every receive buffer is at every moment in exactly one place (the pool, the queue of one
  worker, the hands of one worker, or posted to the hardware), and so is every send buffer (the
  pool, the hands of one worker, or posted and not yet completed); none is lost or freed twice, and
  none is in a list while the hardware has it. The assertion of the initial filling of the receive
  queue never fails. Enqueueing a received buffer at an existing worker never dereferences a null
  pointer. The pool of send buffers is empty, so that the assertion of a worker that needs one
  fails, exactly when all 128 of them are with workers or on their way.
\<close>

theorem server_buffers:
  assumes "fresh_server sv" "own_queues sv" "completes_posted P (sv_qp sv)"
    and "posted P (sv_qp sv) tr = {#}" "in_flight P (sv_qp sv) tr = {#}" "running_from P cfg fuel sv tr c"
  shows "(\<exists>R S Q. owned P c R S Q)
    \<and> (\<forall>n. rn_poll c = Poll_fill (Suc n) \<longrightarrow> fst (recv_alloc (rn_sv c)) \<noteq> None)
    \<and> (\<forall>w<length (sv_queues (rn_sv c)). \<forall>b\<in>#posted P (sv_qp sv) (rn_tr c). Worker_Enqueue w b (rn_sv c) \<noteq> None)
    \<and> (fst (send_alloc (rn_sv c)) = None \<longleftrightarrow>
        (\<Sum>w<length (sv_queues (rn_sv c)). fills (rn_serve c w)) + in_flight P (sv_qp sv) (rn_tr c) = mset [0..<kMaxIBQueueDepth])"
proof -
  obtain R S Q where o: "owned P c R S Q" and f: "filling c R Q" and qp: "sv_qp (rn_sv c) = sv_qp sv"
    using running_owned [OF assms(6,1-5)] by blast
  note l = owned_lists [OF o]
  have "fst (recv_alloc (rn_sv c)) \<noteq> None" if "rn_poll c = Poll_fill (Suc n)" for n
    using recv_alloc_lists(1) [OF l, of "fst (recv_alloc (rn_sv c))" "snd (recv_alloc (rn_sv c))"] f that
    by (auto simp: filling_def)
  moreover have "Worker_Enqueue w b (rn_sv c) \<noteq> None"
    if w: "w < length (sv_queues (rn_sv c))" and b: "b \<in># posted P (sv_qp sv) (rn_tr c)" for w b
    using enqueue_posted [OF o w] b by (simp add: qp)
  moreover have "fst (send_alloc (rn_sv c)) = None \<longleftrightarrow> S = []"
    using send_alloc_lists(1) [OF l, of "fst (send_alloc (rn_sv c))" "snd (send_alloc (rn_sv c))"] by simp
  moreover have "S = [] \<longleftrightarrow>
      (\<Sum>w<length (sv_queues (rn_sv c)). fills (rn_serve c w)) + in_flight P (sv_qp sv) (rn_tr c) = mset [0..<kMaxIBQueueDepth]"
    using o unfolding owned_def qp by (metis (no_types, lifting) add.assoc add_cancel_right_left mset_zero_iff)
  ultimately show ?thesis
    using o by blast
qed

text \<open>A platform that completes the oldest receive and the oldest send of one queue pair when it is polled.\<close>

fun waiting :: "history \<Rightarrow> u64 list \<times> u64 list" where
  "waiting [] = ([], [])"
| "waiting (c # tr) =
     (case c of
        Post_recv q wrs \<Rightarrow> if q = 19 then (fst (waiting tr) @ map rwr_id wrs, snd (waiting tr)) else waiting tr
      | Post_send q wrs \<Rightarrow> if q = 19 then (fst (waiting tr), snd (waiting tr) @ map wr_id wrs) else waiting tr
      | Poll_cq cq n \<Rightarrow> if cq = 21 then (tl (fst (waiting tr)), snd (waiting tr))
          else if cq = 20 then (fst (waiting tr), tl (snd (waiting tr))) else waiting tr
      | _ \<Rightarrow> waiting tr)"

definition oldest :: "history \<Rightarrow> nat \<Rightarrow> u64 list" where
  "oldest tr cq = (if cq = 21 then fst (waiting tr) else if cq = 20 then snd (waiting tr) else [])"

definition fifo_platform :: platform where
  "fifo_platform = good_platform\<lparr>
     p_int := (\<lambda>tr c. case c of Poll_cq cq n \<Rightarrow> if oldest tr cq = [] then 0 else 1 | _ \<Rightarrow> 0),
     p_wc := (\<lambda>tr c. case c of Poll_cq cq n \<Rightarrow> good_wc\<lparr>wc_id := hd (oldest tr cq)\<rparr> | _ \<Rightarrow> good_wc)\<rparr>"

definition sample_qp :: QueuePair where
  "sample_qp = \<lparr>qp_type = IBV_QPT_UD, qp_ptr = 19, scq = 20, rcq = 21, psn = 33\<rparr>"

lemma fifo_simps [simp]:
  "p_int fifo_platform tr (Poll_cq cq n) = (if oldest tr cq = [] then 0 else 1)"
  "p_int fifo_platform tr (Post_recv q rs) = 0" "p_int fifo_platform tr (Post_send q ss) = 0"
  "wc_id (p_wc fifo_platform tr (Poll_cq cq n)) = hd (oldest tr cq)"
  "qp_ptr sample_qp = 19" "scq sample_qp = 20" "rcq sample_qp = 21"
  "oldest tr 21 = fst (waiting tr)" "oldest tr 20 = snd (waiting tr)"
  by (simp_all add: fifo_platform_def sample_qp_def oldest_def)

lemma fifo_waiting:
  "posted fifo_platform sample_qp tr = mset (map unat (fst (waiting tr)))
   \<and> in_flight fifo_platform sample_qp tr = mset (map unat (snd (waiting tr)))"
proof (induction tr)
  case (Cons c tr)
  have tl: "mset (map unat (tl xs)) = mset (map unat xs) - {#unat (hd xs)#}" if "xs \<noteq> []" for xs :: "u64 list"
    using that by (cases xs) simp_all
  show ?case
  proof (cases c)
    case (Poll_cq cq n)
    then show ?thesis
      using Cons.IH tl [of "fst (waiting tr)"] tl [of "snd (waiting tr)"]
      by auto
  qed (use Cons.IH in \<open>auto simp: multiset.map_comp comp_def\<close>)
qed simp

lemma fifo_completes: "completes_posted fifo_platform sample_qp"
  by (simp add: completes_posted_def fifo_waiting)

text \<open>A server with one worker; after its first step one receive is posted.\<close>

definition sample_server :: Server where
  "sample_server = \<lparr>sv_id = 0, sv_active = True, sv_nvm_size = 0, sv_nvm = 4096, sv_index = pair_index, sv_ib = sample_ib,
     sv_addr = blank_address, sv_bufs = (\<lambda>_. blank_buffer),
     sv_next = snd (RegisteredBuffers_init kMaxIBQueueDepth kMaxIBQueueDepth (snd (RegisteredBuffers_init 0 kMaxIBQueueDepth (\<lambda>_. None)))),
     sv_send_root = Some 0, sv_recv_root = Some kMaxIBQueueDepth, sv_qp = sample_qp,
     sv_queues = [WorkQueue_init], sv_tablets = [sample_handle], sv_heaps = [zero_tablet], sv_num_recv = 0\<rparr>"

theorem server_buffers_witness:
  "\<exists>c R S Q. rn_poll c = Poll_fill 127 \<and> posted fifo_platform sample_qp (rn_tr c) = {#kMaxIBQueueDepth#}
     \<and> owned fifo_platform c R S Q \<and> fst (send_alloc (rn_sv c)) \<noteq> None"
proof -
  let ?c = "\<lparr>rn_sv = sample_server, rn_tr = [], rn_poll = Poll_fill kMaxIBQueueDepth, rn_serve = (\<lambda>_. Serve_poll)\<rparr>"
  have sv: "fresh_server sample_server" "own_queues sample_server" "sv_qp sample_server = sample_qp"
    by (auto simp: fresh_server_def sample_server_def RegisteredBuffers_init_def own_queues_def sample_qp_def sample_handle_def)
  obtain s where s: "recv_alloc sample_server = (Some kMaxIBQueueDepth, s)" "sv_qp s = sample_qp"
    by (simp add: recv_alloc_def Pool_Alloc_def sample_server_def)
  obtain tr where p: "\<And>n. Poll fifo_platform nvds_config (Poll_fill (Suc n)) sample_server [] = (Inr (Poll_fill n, s), tr)"
    "posted fifo_platform sample_qp tr = {#kMaxIBQueueDepth#}" "in_flight fifo_platform sample_qp tr = {#}"
    using s by (simp add: Poll_fill_one_def PostReceive_def vprog_defs kMaxIBQueueDepth_def)
  let ?c' = "?c\<lparr>rn_sv := s, rn_tr := tr, rn_poll := Poll_fill 127\<rparr>"
  have "kMaxIBQueueDepth = Suc 127"
    by (simp add: kMaxIBQueueDepth_def)
  then have "running_step fifo_platform nvds_config 7 ?c ?c'"
    using p(1) [of 127] by (intro running_step.poller) (simp only: running.simps)
  then have "running_from fifo_platform nvds_config 7 sample_server [] ?c'"
    by (rule running_from.step [OF running_from.start])
  from server_buffers [OF sv(1,2) _ _ _ this] fifo_completes
  have "(\<exists>R S Q. owned fifo_platform ?c' R S Q) \<and> (fst (send_alloc s) = None \<longleftrightarrow>
      (\<Sum>w<length (sv_queues s). fills Serve_poll) + in_flight fifo_platform sample_qp tr = mset [0..<kMaxIBQueueDepth])"
    by (simp add: sv(3))
  then show ?thesis
    using p(2,3) by (intro exI [of _ ?c']) (auto simp: kMaxIBQueueDepth_def mset_set_empty_iff)
qed


end
