(* ===== verification/Spinlock.thy ===== *)
theory Spinlock
  imports Buffers
begin

text \<open>
  The lists of buffers under their spin locks (\<^verbatim>\<open>spinlock.h\<close>), one access to memory at a time. The
  threads of a server call \<^verbatim>\<open>Enqueue\<close>, \<^verbatim>\<open>Dequeue\<close>, \<^verbatim>\<open>Alloc\<close> and \<^verbatim>\<open>Free\<close>; every call takes the lock of
  its list, reads and writes the pointers of the list and the \<^verbatim>\<open>next\<close> fields of the buffers step by
  step, and releases the lock, while the other threads do the same with this list or another one.
  The links of all lists are in the same fields. The lists 0 and 1 are the pools of send and
  receive buffers, the others are the work queues of the workers.
\<close>

section \<open>Memory and accesses\<close>

record lists_mem =
  m_flag :: "nat \<Rightarrow> bool"
  m_head :: "nat \<Rightarrow> nat option"
  m_tail :: "nat \<Rightarrow> nat option"
  m_next :: nexts

text \<open>\<^verbatim>\<open>flag_.test_and_set\<close> of one turn of \<^verbatim>\<open>lock\<close>, and \<^verbatim>\<open>unlock\<close>.\<close>

definition Spinlock_test_and_set :: "nat \<Rightarrow> lists_mem \<Rightarrow> bool \<times> lists_mem" where
  "Spinlock_test_and_set i m = (m_flag m i, m\<lparr>m_flag := (m_flag m)(i := True)\<rparr>)"

definition Spinlock_unlock :: "nat \<Rightarrow> lists_mem \<Rightarrow> lists_mem" where
  "Spinlock_unlock i m = m\<lparr>m_flag := (m_flag m)(i := False)\<rparr>"

datatype list_call = Call_Enqueue nat | Call_Dequeue | Call_Alloc | Call_Free nat

text \<open>
  The places in the bodies of the four functions between two accesses, with the pointers that were
  read before.
\<close>

datatype pc =
  E_head nat | E_tail_first nat | E_head_first nat | E_tail nat | E_next nat "nat option" | E_tail_last nat
| D_head | D_head_again | D_tail "nat option" | D_ans_last | D_tail_null "nat option" | D_head_null "nat option"
| D_ans | D_head_load "nat option" | D_next "nat option" "nat option" | D_head_store "nat option" "nat option"
| A_root | A_test "nat option" | A_root_load "nat option" | A_next "nat option" "nat option" | A_root_store "nat option" "nat option"
| F_root nat | F_next nat "nat option" | F_root_store nat

primrec call_pc :: "list_call \<Rightarrow> pc" where
  "call_pc (Call_Enqueue w) = E_head w"
| "call_pc Call_Dequeue = D_head"
| "call_pc Call_Alloc = A_root"
| "call_pc (Call_Free b) = F_root b"

primrec call_of :: "pc \<Rightarrow> list_call" where
  "call_of (E_head w) = Call_Enqueue w"
| "call_of (E_tail_first w) = Call_Enqueue w"
| "call_of (E_head_first w) = Call_Enqueue w"
| "call_of (E_tail w) = Call_Enqueue w"
| "call_of (E_next w t) = Call_Enqueue w"
| "call_of (E_tail_last w) = Call_Enqueue w"
| "call_of D_head = Call_Dequeue"
| "call_of D_head_again = Call_Dequeue"
| "call_of (D_tail h) = Call_Dequeue"
| "call_of D_ans_last = Call_Dequeue"
| "call_of (D_tail_null a) = Call_Dequeue"
| "call_of (D_head_null a) = Call_Dequeue"
| "call_of D_ans = Call_Dequeue"
| "call_of (D_head_load a) = Call_Dequeue"
| "call_of (D_next a h) = Call_Dequeue"
| "call_of (D_head_store a n) = Call_Dequeue"
| "call_of A_root = Call_Alloc"
| "call_of (A_test r) = Call_Alloc"
| "call_of (A_root_load r) = Call_Alloc"
| "call_of (A_next r h) = Call_Alloc"
| "call_of (A_root_store r n) = Call_Alloc"
| "call_of (F_root b) = Call_Free b"
| "call_of (F_next b r) = Call_Free b"
| "call_of (F_root_store b) = Call_Free b"

definition load_next :: "nat option \<Rightarrow> lists_mem \<Rightarrow> (nat option \<Rightarrow> 'a) \<Rightarrow> ('a \<times> lists_mem) option" where
  "load_next p m f = (case p of None \<Rightarrow> None | Some b \<Rightarrow> Some (f (m_next m b), m))"

definition store_next :: "nat option \<Rightarrow> nat option \<Rightarrow> lists_mem \<Rightarrow> 'a \<Rightarrow> ('a \<times> lists_mem) option" where
  "store_next p v m x = (case p of None \<Rightarrow> None | Some b \<Rightarrow> Some (x, m\<lparr>m_next := (m_next m)(b := v)\<rparr>))"

abbreviation store_head :: "nat \<Rightarrow> nat option \<Rightarrow> lists_mem \<Rightarrow> 'a \<Rightarrow> ('a \<times> lists_mem) option" where
  "store_head i v m x \<equiv> Some (x, m\<lparr>m_head := (m_head m)(i := v)\<rparr>)"

abbreviation store_tail :: "nat \<Rightarrow> nat option \<Rightarrow> lists_mem \<Rightarrow> 'a \<Rightarrow> ('a \<times> lists_mem) option" where
  "store_tail i v m x \<equiv> Some (x, m\<lparr>m_tail := (m_tail m)(i := v)\<rparr>)"

text \<open>
  One access: the next place, or the returned pointer. A null pointer that is dereferenced is
  \<^const>\<open>None\<close>.
\<close>

text \<open>The work queue: \<^verbatim>\<open>Enqueue\<close> and \<^verbatim>\<open>Dequeue\<close>.\<close>

fun queue_access :: "nat \<Rightarrow> pc \<Rightarrow> lists_mem \<Rightarrow> ((pc + nat option) \<times> lists_mem) option" where
  "queue_access i (E_head w) m = Some (Inl (if m_head m i = None then E_tail_first w else E_tail w), m)"
| "queue_access i (E_tail_first w) m = store_tail i (Some w) m (Inl (E_head_first w))"
| "queue_access i (E_head_first w) m = store_head i (Some w) m (Inr None)"
| "queue_access i (E_tail w) m = Some (Inl (E_next w (m_tail m i)), m)"
| "queue_access i (E_next w t) m = store_next t (Some w) m (Inl (E_tail_last w))"
| "queue_access i (E_tail_last w) m = store_tail i (Some w) m (Inr None)"
| "queue_access i D_head m = Some (if m_head m i = None then Inr None else Inl D_head_again, m)"
| "queue_access i D_head_again m = Some (Inl (D_tail (m_head m i)), m)"
| "queue_access i (D_tail h) m = Some (Inl (if h = m_tail m i then D_ans_last else D_ans), m)"
| "queue_access i D_ans_last m = Some (Inl (D_tail_null (m_head m i)), m)"
| "queue_access i (D_tail_null a) m = store_tail i None m (Inl (D_head_null a))"
| "queue_access i (D_head_null a) m = store_head i None m (Inr a)"
| "queue_access i D_ans m = Some (Inl (D_head_load (m_head m i)), m)"
| "queue_access i (D_head_load a) m = Some (Inl (D_next a (m_head m i)), m)"
| "queue_access i (D_next a h) m = load_next h m (\<lambda>n. Inl (D_head_store a n))"
| "queue_access i (D_head_store a n) m = store_head i n m (Inr a)"
| "queue_access i _ m = None"

text \<open>The pool of buffers: \<^verbatim>\<open>Alloc\<close> and \<^verbatim>\<open>Free\<close>.\<close>

fun pool_access :: "nat \<Rightarrow> pc \<Rightarrow> lists_mem \<Rightarrow> ((pc + nat option) \<times> lists_mem) option" where
  "pool_access i A_root m = Some (Inl (A_test (m_head m i)), m)"
| "pool_access i (A_test r) m = Some (if m_head m i = None then Inr r else Inl (A_root_load r), m)"
| "pool_access i (A_root_load r) m = Some (Inl (A_next r (m_head m i)), m)"
| "pool_access i (A_next r h) m = load_next h m (\<lambda>n. Inl (A_root_store r n))"
| "pool_access i (A_root_store r n) m = store_head i n m (Inr r)"
| "pool_access i (F_root b) m = Some (Inl (F_next b (m_head m i)), m)"
| "pool_access i (F_next b r) m = store_next (Some b) r m (Inl (F_root_store b))"
| "pool_access i (F_root_store b) m = store_head i (Some b) m (Inr None)"
| "pool_access i _ m = None"

definition list_access :: "nat \<Rightarrow> pc \<Rightarrow> lists_mem \<Rightarrow> ((pc + nat option) \<times> lists_mem) option" where
  "list_access i p m = (case call_of p of
     Call_Enqueue w \<Rightarrow> queue_access i p m | Call_Dequeue \<Rightarrow> queue_access i p m
   | Call_Alloc \<Rightarrow> pool_access i p m | Call_Free b \<Rightarrow> pool_access i p m)"

text \<open>A call that is not interrupted.\<close>

primrec alone :: "nat \<Rightarrow> nat \<Rightarrow> pc \<Rightarrow> lists_mem \<Rightarrow> (nat option \<times> lists_mem) option" where
  "alone 0 i p m = None"
| "alone (Suc n) i p m = do { (x, m) \<leftarrow> list_access i p m; (case x of Inl p \<Rightarrow> alone n i p m | Inr r \<Rightarrow> Some (r, m)) }"

definition put_queue :: "nat \<Rightarrow> lists_mem \<Rightarrow> WorkQueue \<times> nexts \<Rightarrow> lists_mem" where
  "put_queue i m q = m\<lparr>m_head := (m_head m)(i := wq_head (fst q)), m_tail := (m_tail m)(i := wq_tail (fst q)), m_next := snd q\<rparr>"

definition queue_at :: "nat \<Rightarrow> lists_mem \<Rightarrow> WorkQueue \<times> nexts" where
  "queue_at i m = (\<lparr>wq_head = m_head m i, wq_tail = m_tail m i\<rparr>, m_next m)"

definition put_pool :: "nat \<Rightarrow> lists_mem \<Rightarrow> nat option \<times> nexts \<Rightarrow> lists_mem" where
  "put_pool i m p = m\<lparr>m_head := (m_head m)(i := fst p), m_next := snd p\<rparr>"

definition pool_at :: "nat \<Rightarrow> lists_mem \<Rightarrow> nat option \<times> nexts" where
  "pool_at i m = (m_head m i, m_next m)"

lemma list_access_simps [simp]:
  "list_access i (E_head w) m = Some (Inl (if m_head m i = None then E_tail_first w else E_tail w), m)"
  "list_access i (E_tail_first w) m = store_tail i (Some w) m (Inl (E_head_first w))"
  "list_access i (E_head_first w) m = store_head i (Some w) m (Inr None)"
  "list_access i (E_tail w) m = Some (Inl (E_next w (m_tail m i)), m)"
  "list_access i (E_next w t) m = store_next t (Some w) m (Inl (E_tail_last w))"
  "list_access i (E_tail_last w) m = store_tail i (Some w) m (Inr None)"
  "list_access i D_head m = Some (if m_head m i = None then Inr None else Inl D_head_again, m)"
  "list_access i D_head_again m = Some (Inl (D_tail (m_head m i)), m)"
  "list_access i (D_tail h) m = Some (Inl (if h = m_tail m i then D_ans_last else D_ans), m)"
  "list_access i D_ans_last m = Some (Inl (D_tail_null (m_head m i)), m)"
  "list_access i (D_tail_null a) m = store_tail i None m (Inl (D_head_null a))"
  "list_access i (D_head_null a) m = store_head i None m (Inr a)"
  "list_access i D_ans m = Some (Inl (D_head_load (m_head m i)), m)"
  "list_access i (D_head_load a) m = Some (Inl (D_next a (m_head m i)), m)"
  "list_access i (D_next a h) m = load_next h m (\<lambda>n. Inl (D_head_store a n))"
  "list_access i (D_head_store a n) m = store_head i n m (Inr a)"
  "list_access i A_root m = Some (Inl (A_test (m_head m i)), m)"
  "list_access i (A_test r) m = Some (if m_head m i = None then Inr r else Inl (A_root_load r), m)"
  "list_access i (A_root_load r) m = Some (Inl (A_next r (m_head m i)), m)"
  "list_access i (A_next r h) m = load_next h m (\<lambda>n. Inl (A_root_store r n))"
  "list_access i (A_root_store r n) m = store_head i n m (Inr r)"
  "list_access i (F_root b) m = Some (Inl (F_next b (m_head m i)), m)"
  "list_access i (F_next b r) m = store_next (Some b) r m (Inl (F_root_store b))"
  "list_access i (F_root_store b) m = store_head i (Some b) m (Inr None)"
  by (simp_all add: list_access_def)

lemma upd_same: "m_head m i = v \<Longrightarrow> m\<lparr>m_head := (m_head m)(i := v)\<rparr> = m"
  by (simp add: fun_upd_idem)

text \<open>
  Executed without interruption, the accesses of the four functions are the operations
  \<open>Enqueue\<close>, \<open>Dequeue\<close>, \<open>Pool_Alloc\<close> and \<open>Pool_Free\<close> on the list, and touch no other list.
\<close>

lemma calls_eq_operations:
  "alone 7 i (call_pc (Call_Enqueue w)) m = map_option (\<lambda>q. (None, put_queue i m q)) (Enqueue w (queue_at i m))
   \<and> alone 7 i (call_pc Call_Dequeue) m = Some (case Dequeue (queue_at i m) of (r, q) \<Rightarrow> (r, put_queue i m q))
   \<and> alone 7 i (call_pc Call_Alloc) m = Some (case Pool_Alloc (pool_at i m) of (r, p) \<Rightarrow> (r, put_pool i m p))
   \<and> alone 7 i (call_pc (Call_Free b)) m = Some (None, put_pool i m (Pool_Free b (pool_at i m)))"
  by (auto simp: eval_nat_numeral load_next_def store_next_def Enqueue_def Dequeue_def Pool_Alloc_def Pool_Free_def queue_at_def
      put_queue_def pool_at_def put_pool_def Let_def upd_same fun_upd_idem split: option.splits)

section \<open>Threads\<close>

text \<open>
  A thread is outside of the four functions, spins for the lock of a list, is inside of the
  function, or is about to release the lock and return.
\<close>

datatype thread = Outside | Spinning nat list_call | Inside nat pc | Leaving nat list_call "nat option"

text \<open>What a call returns and leaves of the list of buffers, in the order in which they are taken.\<close>

fun list_op :: "list_call \<Rightarrow> nat list \<Rightarrow> nat option \<times> nat list" where
  "list_op (Call_Enqueue w) bs = (None, bs @ [w])"
| "list_op Call_Dequeue bs = (case bs of [] \<Rightarrow> (None, []) | b # cs \<Rightarrow> (Some b, cs))"
| "list_op Call_Alloc bs = (case bs of [] \<Rightarrow> (None, []) | b # cs \<Rightarrow> (Some b, cs))"
| "list_op (Call_Free b) bs = (None, b # bs)"

fun call_arg :: "list_call \<Rightarrow> nat set" where
  "call_arg (Call_Enqueue w) = {w}"
| "call_arg (Call_Free b) = {b}"
| "call_arg _ = {}"

fun call_fits :: "nat \<Rightarrow> list_call \<Rightarrow> bool" where
  "call_fits i (Call_Enqueue w) \<longleftrightarrow> 2 \<le> i"
| "call_fits i Call_Dequeue \<longleftrightarrow> 2 \<le> i"
| "call_fits i Call_Alloc \<longleftrightarrow> i < 2"
| "call_fits i (Call_Free b) \<longleftrightarrow> i < 2"

fun thread_arg :: "thread \<Rightarrow> nat set" where
  "thread_arg Outside = {}"
| "thread_arg (Spinning i c) = call_arg c"
| "thread_arg (Inside i p) = call_arg (call_of p)"
| "thread_arg (Leaving i c r) = call_arg c"

text \<open>
  The state: the memory, the threads, the buffers each thread holds (the hardware counts as a
  thread that makes no calls), the returned calls of each list, in the order in which they
  released the lock, and the list of buffers these calls leave.
\<close>

record world =
  mem :: lists_mem
  threads :: "nat \<Rightarrow> thread"
  held :: "nat \<Rightarrow> nat set"
  calls :: "nat \<Rightarrow> (list_call \<times> nat option) list"
  content :: "nat \<Rightarrow> nat list"

text \<open>
  A thread puts a buffer only into a list while it holds the buffer. A buffer that is no argument
  of a call can be handed to another thread: it is posted to the hardware or completed by it.
\<close>

inductive wstep :: "nat \<Rightarrow> world \<Rightarrow> world \<Rightarrow> bool" where
  call: "threads s t = Outside \<Longrightarrow> call_fits i c \<Longrightarrow> call_arg c \<subseteq> held s t \<Longrightarrow>
    wstep t s (s\<lparr>threads := (threads s)(t := Spinning i c)\<rparr>)"
| spin: "threads s t = Spinning i c \<Longrightarrow> Spinlock_test_and_set i (mem s) = (True, m) \<Longrightarrow> wstep t s (s\<lparr>mem := m\<rparr>)"
| acquire: "threads s t = Spinning i c \<Longrightarrow> Spinlock_test_and_set i (mem s) = (False, m) \<Longrightarrow>
    wstep t s (s\<lparr>mem := m, threads := (threads s)(t := Inside i (call_pc c))\<rparr>)"
| proceed: "threads s t = Inside i p \<Longrightarrow> list_access i p (mem s) = Some (Inl p', m) \<Longrightarrow>
    wstep t s (s\<lparr>mem := m, threads := (threads s)(t := Inside i p')\<rparr>)"
| finish: "threads s t = Inside i p \<Longrightarrow> list_access i p (mem s) = Some (Inr r, m) \<Longrightarrow>
    wstep t s (s\<lparr>mem := m, threads := (threads s)(t := Leaving i (call_of p) r)\<rparr>)"
| release: "threads s t = Leaving i c r \<Longrightarrow>
    wstep t s \<lparr>mem = Spinlock_unlock i (mem s), threads = (threads s)(t := Outside),
      held = (held s)(t := held s t - call_arg c \<union> set_option r), calls = (calls s)(i := calls s i @ [(c, r)]),
      content = (content s)(i := snd (list_op c (content s i)))\<rparr>"
| hand: "b \<in> held s t \<Longrightarrow> b \<notin> thread_arg (threads s t) \<Longrightarrow>
    wstep t s (s\<lparr>held := (\<lambda>u. if u = t' then insert b (held s u) else held s u - {b})\<rparr>)"

text \<open>The start: two full pools, empty queues, no thread holds a buffer.\<close>

definition start_mem :: "nat \<Rightarrow> nexts \<Rightarrow> lists_mem" where
  "start_mem n nx = \<lparr>m_flag = (\<lambda>_. False), m_head = (\<lambda>_. None)(0 := fst (RegisteredBuffers_init 0 n nx), 1 := fst (RegisteredBuffers_init n n nx)),
     m_tail = (\<lambda>_. None), m_next = snd (RegisteredBuffers_init n n (snd (RegisteredBuffers_init 0 n nx)))\<rparr>"

definition start :: "nat \<Rightarrow> nexts \<Rightarrow> world" where
  "start n nx = \<lparr>mem = start_mem n nx, threads = (\<lambda>_. Outside), held = (\<lambda>_. {}), calls = (\<lambda>_. []),
     content = (\<lambda>_. [])(0 := [0..<n], 1 := [n..<2 * n])\<rparr>"

inductive reach :: "nat \<Rightarrow> nexts \<Rightarrow> world \<Rightarrow> bool" for n nx where
  init: "reach n nx (start n nx)"
| step: "reach n nx s \<Longrightarrow> wstep t s s' \<Longrightarrow> reach n nx s'"

section \<open>What holds inside of the functions\<close>

definition rep :: "nat \<Rightarrow> nat list \<Rightarrow> lists_mem \<Rightarrow> bool" where
  "rep i bs m \<longleftrightarrow> (if i < 2 then pool_list (pool_at i m) bs else queue_list (queue_at i m) bs)"

text \<open>\<open>bs\<close> is the list before the call.\<close>

fun pc_inv :: "nat \<Rightarrow> pc \<Rightarrow> nat list \<Rightarrow> lists_mem \<Rightarrow> bool" where
  "pc_inv i (E_head w) bs m \<longleftrightarrow> rep i bs m"
| "pc_inv i (E_tail_first w) bs m \<longleftrightarrow> bs = []"
| "pc_inv i (E_head_first w) bs m \<longleftrightarrow> bs = [] \<and> m_tail m i = Some w"
| "pc_inv i (E_tail w) bs m \<longleftrightarrow> rep i bs m \<and> bs \<noteq> []"
| "pc_inv i (E_next w t) bs m \<longleftrightarrow> rep i bs m \<and> bs \<noteq> [] \<and> t = Some (last bs)"
| "pc_inv i (E_tail_last w) bs m \<longleftrightarrow> distinct bs \<and> chain (m_next m) (m_head m i) bs (Some w)"
| "pc_inv i D_head bs m \<longleftrightarrow> rep i bs m"
| "pc_inv i D_head_again bs m \<longleftrightarrow> rep i bs m \<and> bs \<noteq> []"
| "pc_inv i (D_tail h) bs m \<longleftrightarrow> rep i bs m \<and> bs \<noteq> [] \<and> h = Some (hd bs)"
| "pc_inv i D_ans_last bs m \<longleftrightarrow> rep i bs m \<and> bs = [hd bs]"
| "pc_inv i (D_tail_null a) bs m \<longleftrightarrow> bs = [hd bs] \<and> a = Some (hd bs)"
| "pc_inv i (D_head_null a) bs m \<longleftrightarrow> bs = [hd bs] \<and> a = Some (hd bs)"
| "pc_inv i D_ans bs m \<longleftrightarrow> rep i bs m \<and> tl bs \<noteq> []"
| "pc_inv i (D_head_load a) bs m \<longleftrightarrow> rep i bs m \<and> tl bs \<noteq> [] \<and> a = Some (hd bs)"
| "pc_inv i (D_next a h) bs m \<longleftrightarrow> rep i bs m \<and> tl bs \<noteq> [] \<and> a = Some (hd bs) \<and> h = Some (hd bs)"
| "pc_inv i (D_head_store a n) bs m \<longleftrightarrow> rep i bs m \<and> tl bs \<noteq> [] \<and> a = Some (hd bs) \<and> n = m_next m (hd bs)"
| "pc_inv i A_root bs m \<longleftrightarrow> rep i bs m"
| "pc_inv i (A_test r) bs m \<longleftrightarrow> rep i bs m \<and> r = m_head m i"
| "pc_inv i (A_root_load r) bs m \<longleftrightarrow> rep i bs m \<and> bs \<noteq> [] \<and> r = Some (hd bs)"
| "pc_inv i (A_next r h) bs m \<longleftrightarrow> rep i bs m \<and> bs \<noteq> [] \<and> r = Some (hd bs) \<and> h = Some (hd bs)"
| "pc_inv i (A_root_store r n) bs m \<longleftrightarrow> rep i bs m \<and> bs \<noteq> [] \<and> r = Some (hd bs) \<and> n = m_next m (hd bs)"
| "pc_inv i (F_root b) bs m \<longleftrightarrow> rep i bs m"
| "pc_inv i (F_next b r) bs m \<longleftrightarrow> rep i bs m \<and> r = m_head m i"
| "pc_inv i (F_root_store b) bs m \<longleftrightarrow> distinct bs \<and> chain (m_next m) (m_next m b) bs None"

lemma rep_pool: "i < 2 \<Longrightarrow> rep i bs m \<longleftrightarrow> distinct bs \<and> chain (m_next m) (m_head m i) bs None"
  by (simp add: rep_def pool_list_def pool_at_def)

lemma rep_queue:
  "2 \<le> i \<Longrightarrow> rep i bs m \<longleftrightarrow> distinct bs \<and> (if bs = [] then m_head m i = None
     else chain (m_next m) (m_head m i) (butlast bs) (Some (last bs)) \<and> m_tail m i = Some (last bs))"
  by (simp add: rep_def queue_list_def queue_at_def)

lemma rep_head: "rep i bs m \<Longrightarrow> m_head m i = (case bs of [] \<Rightarrow> None | b # _ \<Rightarrow> Some b)"
  by (cases "i < 2"; cases bs) (auto simp: rep_pool rep_queue split: if_splits)

lemma rep_distinct: "rep i bs m \<Longrightarrow> distinct bs"
  by (cases "i < 2") (auto simp: rep_pool rep_queue)

text \<open>The invariants read the pointers of the list and the links of its buffers only.\<close>

lemma rep_cong:
  assumes "m_head m i = m_head m' i" "m_tail m i = m_tail m' i" "\<And>b. b \<in> set bs \<Longrightarrow> m_next m b = m_next m' b"
  shows "rep i bs m \<longleftrightarrow> rep i bs m'"
proof -
  have "chain (m_next m) p cs q \<longleftrightarrow> chain (m_next m') p cs q" if "set cs \<subseteq> set bs" for p cs q
    using that assms(3) by (intro chain_cong) blast
  then show ?thesis
    using assms(1,2) by (cases "i < 2") (auto simp: rep_pool rep_queue in_set_butlastD subset_iff)
qed

lemma pc_inv_cong:
  assumes "m_head m i = m_head m' i" "m_tail m i = m_tail m' i" "\<And>b. b \<in> set bs \<union> call_arg (call_of p) \<Longrightarrow> m_next m b = m_next m' b"
    and "pc_inv i p bs m"
  shows "pc_inv i p bs m'"
proof -
  have r: "rep i bs m \<longleftrightarrow> rep i bs m'"
    using assms(1-3) by (intro rep_cong) auto
  have c: "chain (m_next m) q bs z \<longleftrightarrow> chain (m_next m') q bs z" for q z
    using assms(3) by (intro chain_cong) blast
  have h: "m_next m (hd bs) = m_next m' (hd bs)" if "bs \<noteq> []"
    using that assms(3) by simp
  have "m_next m (hd bs) = m_next m' (hd bs)" if "tl bs \<noteq> []"
    using that h by (cases bs) auto
  then show ?thesis
    using assms h by (cases p) (auto simp: r [symmetric] c [symmetric])
qed

text \<open>An access changes nothing but its own list.\<close>

lemma access_frame:
  assumes "list_access i p m = Some (x, m')" "pc_inv i p bs m"
  shows "m_flag m' = m_flag m" "j \<noteq> i \<Longrightarrow> m_head m' j = m_head m j \<and> m_tail m' j = m_tail m j"
    "b \<notin> set bs \<union> call_arg (call_of p) \<Longrightarrow> m_next m' b = m_next m b"
  using assms by (cases p; auto simp: load_next_def store_next_def split: option.splits if_splits)+

lemma chain_last: "bs \<noteq> [] \<Longrightarrow> chain nx p bs q \<longleftrightarrow> chain nx p (butlast bs) (Some (last bs)) \<and> nx (last bs) = q"
  using chain_append [of nx p "butlast bs" "[last bs]" q] by simp

text \<open>Every access succeeds and leads to a place where the invariant holds, or returns the result.\<close>

definition after :: "nat \<Rightarrow> pc \<Rightarrow> nat list \<Rightarrow> lists_mem \<Rightarrow> pc + nat option \<Rightarrow> bool" where
  "after i p bs m x = (case x of
     Inl p' \<Rightarrow> call_of p' = call_of p \<and> pc_inv i p' bs m
   | Inr r \<Rightarrow> r = fst (list_op (call_of p) bs) \<and> rep i (snd (list_op (call_of p) bs)) m)"

lemma access_ok:
  assumes "pc_inv i p bs m" "call_fits i (call_of p)" "call_arg (call_of p) \<inter> set bs = {}"
  shows "\<exists>x m'. list_access i p m = Some (x, m') \<and> after i p bs m' x"
proof (cases p)
  case (E_head w)
  then show ?thesis
    using assms rep_head [of i bs m] by (cases bs) (auto simp: after_def)
next
  case (E_tail w)
  then show ?thesis
    using assms by (auto simp: after_def rep_queue)
next
  case (E_next w t)
  have "last bs \<notin> set (butlast bs)"
    using assms(1) E_next rep_distinct [of i bs m] by (metis append_butlast_last_id not_distinct_conv_prefix distinct_butlast pc_inv.simps(5))
  then show ?thesis
    using assms E_next by (auto simp: after_def store_next_def rep_queue chain_last chain_upd)
next
  case (E_tail_last w)
  then show ?thesis
    using assms by (auto simp: after_def rep_queue)
next
  case D_head
  then show ?thesis
    using assms rep_head [of i bs m] by (cases bs) (auto simp: after_def)
next
  case D_head_again
  then show ?thesis
    using assms rep_head [of i bs m] by (cases bs) (auto simp: after_def)
next
  case (D_tail h)
  then obtain b cs where bs: "bs = b # cs" "b \<notin> set cs"
    using assms(1) rep_distinct [of i bs m] by (cases bs) auto
  then have "b \<noteq> last cs" if "cs \<noteq> []"
    using that by auto
  then show ?thesis
    using assms D_tail bs by (auto simp: after_def rep_queue)
next
  case D_ans_last
  then show ?thesis
    using assms rep_head [of i bs m] by (cases bs) (auto simp: after_def)
next
  case (D_head_null a)
  then obtain b where "bs = [b]"
    using assms(1) by (cases bs) auto
  then show ?thesis
    using assms D_head_null by (auto simp: after_def rep_queue)
next
  case D_ans
  then show ?thesis
    using assms rep_head [of i bs m] by (cases bs) (auto simp: after_def)
next
  case (D_head_load a)
  then show ?thesis
    using assms rep_head [of i bs m] by (cases bs) (auto simp: after_def)
next
  case (D_head_store a n)
  then obtain b cs where bs: "bs = b # cs" "cs \<noteq> []"
    using assms(1) by (cases bs) auto
  then show ?thesis
    using assms D_head_store by (auto simp: after_def rep_queue)
next
  case (A_test r)
  then show ?thesis
    using assms rep_head [of i bs m] by (cases bs) (auto simp: after_def)
next
  case (A_root_load r)
  then show ?thesis
    using assms rep_head [of i bs m] by (cases bs) (auto simp: after_def)
next
  case (A_root_store r n)
  then show ?thesis
    using assms by (cases bs) (auto simp: after_def rep_pool)
next
  case (F_next b r)
  then show ?thesis
    using assms by (auto simp: after_def store_next_def rep_pool chain_upd)
qed (use assms in \<open>auto simp: after_def load_next_def store_next_def rep_pool rep_queue\<close>)

section \<open>The invariant\<close>

fun busy :: "thread \<Rightarrow> nat option" where
  "busy (Inside i p) = Some i"
| "busy (Leaving i c r) = Some i"
| "busy _ = None"

fun thread_inv :: "world \<Rightarrow> thread \<Rightarrow> bool" where
  "thread_inv s Outside \<longleftrightarrow> True"
| "thread_inv s (Spinning i c) \<longleftrightarrow> call_fits i c"
| "thread_inv s (Inside i p) \<longleftrightarrow> call_fits i (call_of p) \<and> pc_inv i p (content s i) (mem s)"
| "thread_inv s (Leaving i c r) \<longleftrightarrow> call_fits i c \<and> r = fst (list_op c (content s i)) \<and> rep i (snd (list_op c (content s i))) (mem s)"

definition locks_ok :: "world \<Rightarrow> bool" where
  "locks_ok s \<longleftrightarrow> (\<forall>i. m_flag (mem s) i \<longleftrightarrow> (\<exists>t. busy (threads s t) = Some i))
     \<and> (\<forall>t t' i. busy (threads s t) = Some i \<longrightarrow> busy (threads s t') = Some i \<longrightarrow> t = t')"

definition memory_ok :: "world \<Rightarrow> bool" where
  "memory_ok s \<longleftrightarrow> (\<forall>i. \<not> m_flag (mem s) i \<longrightarrow> rep i (content s i) (mem s)) \<and> (\<forall>t. thread_inv s (threads s t))"

text \<open>Every one of the \<open>2 * n\<close> buffers is in exactly one list or held by exactly one thread.\<close>

definition one_place :: "nat \<Rightarrow> world \<Rightarrow> bool" where
  "one_place n s \<longleftrightarrow> (\<forall>t t'. t \<noteq> t' \<longrightarrow> held s t \<inter> held s t' = {}) \<and> (\<forall>t i. held s t \<inter> set (content s i) = {})
     \<and> (\<forall>i j. i \<noteq> j \<longrightarrow> set (content s i) \<inter> set (content s j) = {}) \<and> (\<forall>i. distinct (content s i))
     \<and> (\<Union>t. held s t) \<union> (\<Union>i. set (content s i)) = {0..<2 * n}"

text \<open>The returned calls of a list, one after the other, give the results they returned.\<close>

fun replay :: "nat list \<Rightarrow> (list_call \<times> nat option) list \<Rightarrow> nat list option" where
  "replay bs [] = Some bs"
| "replay bs ((c, r) # cs) = (if fst (list_op c bs) = r then replay (snd (list_op c bs)) cs else None)"

definition replays :: "nat \<Rightarrow> nexts \<Rightarrow> world \<Rightarrow> bool" where
  "replays n nx s \<longleftrightarrow> (\<forall>i. replay (content (start n nx) i) (calls s i) = Some (content s i))"

definition args_held :: "world \<Rightarrow> bool" where
  "args_held s \<longleftrightarrow> (\<forall>t. thread_arg (threads s t) \<subseteq> held s t)"

definition winv :: "nat \<Rightarrow> nexts \<Rightarrow> world \<Rightarrow> bool" where
  "winv n nx s \<longleftrightarrow> locks_ok s \<and> memory_ok s \<and> one_place n s \<and> replays n nx s \<and> args_held s"

lemma replay_snoc: "replay bs (cs @ [(c, r)]) = (case replay bs cs of None \<Rightarrow> None | Some bs' \<Rightarrow> if fst (list_op c bs') = r then Some (snd (list_op c bs')) else None)"
  by (induction bs cs rule: replay.induct) auto

lemma winv_start: "0 < n \<Longrightarrow> winv n nx (start n nx)"
proof -
  assume n: "0 < n"
  let ?m = "start_mem n nx"
  have "pool_list (fst (RegisteredBuffers_init 0 n nx), m_next ?m) [0..<n]"
  proof -
    have "chain (m_next ?m) p [0..<n] None \<longleftrightarrow> chain (snd (RegisteredBuffers_init 0 n nx)) p [0..<n] None" for p
      by (rule chain_cong) (simp add: start_mem_def RegisteredBuffers_init_def)
    then show ?thesis
      using Pool_init [OF n, of 0 nx] by (simp add: pool_list_def)
  qed
  moreover have "pool_list (fst (RegisteredBuffers_init n n nx), m_next ?m) [n..<2 * n]"
    using Pool_init [OF n, of n "snd (RegisteredBuffers_init 0 n nx)"]
    by (simp add: pool_list_def start_mem_def mult_2 RegisteredBuffers_init_def)
  ultimately have "rep i (content (start n nx) i) ?m" for i
    by (simp add: rep_def pool_at_def queue_at_def start_def queue_list_def start_mem_def less_2_cases_iff)
  then have "memory_ok (start n nx)"
    by (simp add: memory_ok_def start_def)
  moreover have "\<exists>i. x \<in> set (content (start n nx) i)" if "x < 2 * n" for x
    using that by (intro exI [of _ "if x < n then 0 else 1"]) (simp add: start_def)
  then have "one_place n (start n nx)"
    by (auto simp: one_place_def) (auto simp: start_def split: if_splits)
  ultimately show ?thesis
    by (simp add: winv_def locks_ok_def replays_def args_held_def) (simp add: start_def start_mem_def)
qed

lemma winvD:
  assumes "winv n nx s"
  shows "locks_ok s" "memory_ok s" "one_place n s" "replays n nx s" "args_held s" "thread_inv s (threads s t)"
    "thread_arg (threads s t) \<subseteq> held s t" "\<not> m_flag (mem s) i \<Longrightarrow> rep i (content s i) (mem s)"
    "busy (threads s t) = Some i \<Longrightarrow> m_flag (mem s) i" "m_flag (mem s) i \<Longrightarrow> \<exists>t. busy (threads s t) = Some i"
    "busy (threads s t) = Some i \<Longrightarrow> busy (threads s t') = Some i \<Longrightarrow> t = t'"
  using assms unfolding winv_def locks_ok_def memory_ok_def args_held_def by blast+

text \<open>An access of one thread keeps what the other threads and the other lists rely on.\<close>

lemma others_keep:
  assumes "winv n nx s" "threads s t = Inside i p" "list_access i p (mem s) = Some (x, m')"
  shows "\<not> m_flag (mem s) j \<Longrightarrow> rep j (content s j) m'" "t' \<noteq> t \<Longrightarrow> thread_inv (s\<lparr>mem := m'\<rparr>) (threads s t')"
proof -
  note I = winvD [OF assms(1)]
  have p: "pc_inv i p (content s i) (mem s)" and h: "call_arg (call_of p) \<subseteq> held s t" and b: "busy (threads s t) = Some i"
    using I(6,7) [of t] assms(2) by simp_all
  note F = access_frame [OF assms(3) p]
  have far: "m_next m' b = m_next (mem s) b" if "b \<in> set (content s j) \<union> A" "j \<noteq> i" "A \<subseteq> held s t''" "t'' \<noteq> t" for b j A t''
    using that h I(3) by (intro F(3)) (auto simp: one_place_def; blast)
  show "rep j (content s j) m'" if "\<not> m_flag (mem s) j"
  proof -
    have "j \<noteq> i"
      using that I(9) [OF b] by auto
    moreover have "rep j (content s j) (mem s)"
      using that by (rule I(8))
    ultimately show ?thesis
      using rep_cong [of "mem s" j m' "content s j"] F(2) far [of _ j "{}" "Suc t"] by simp
  qed
  show "thread_inv (s\<lparr>mem := m'\<rparr>) (threads s t')" if "t' \<noteq> t"
  proof (cases "threads s t'")
    case (Inside j q)
    then have "j \<noteq> i"
      using that I(11) [OF b, of t'] by auto
    moreover have "call_arg (call_of q) \<subseteq> held s t'" "call_fits j (call_of q)" "pc_inv j q (content s j) (mem s)"
      using I(6,7) [of t'] Inside by simp_all
    ultimately show ?thesis
      using pc_inv_cong [of "mem s" j m' "content s j" q] F(2) far [of _ j _ t'] that Inside by simp
  next
    case (Leaving j c r)
    then have "j \<noteq> i"
      using that I(11) [OF b, of t'] by auto
    moreover have "set (snd (list_op c (content s j))) \<subseteq> set (content s j) \<union> call_arg c"
      by (cases c) (auto split: list.splits)
    moreover have "call_arg c \<subseteq> held s t'" "thread_inv s (threads s t')"
      using I(6,7) [of t'] Leaving by simp_all
    moreover from calculation have "m_next m' b = m_next (mem s) b" if "b \<in> set (snd (list_op c (content s j)))" for b
      using that \<open>t' \<noteq> t\<close> by (intro far [of _ j "call_arg c" t']) auto
    ultimately show ?thesis
      using rep_cong [of "mem s" j m' "snd (list_op c (content s j))"] F(2) Leaving by simp
  qed (use I(6) [of t'] in simp_all)
qed

lemma winv_access:
  assumes "winv n nx s" "threads s t = Inside i p" "list_access i p (mem s) = Some (x, m')"
    and "u = (case x of Inl p' \<Rightarrow> Inside i p' | Inr r \<Rightarrow> Leaving i (call_of p) r)"
  shows "winv n nx (s\<lparr>mem := m', threads := (threads s)(t := u)\<rparr>)"
proof -
  note I = winvD [OF assms(1)]
  have p: "pc_inv i p (content s i) (mem s)" "call_fits i (call_of p)" and h: "call_arg (call_of p) \<subseteq> held s t"
    using I(6,7) [of t] assms(2) by simp_all
  have "call_arg (call_of p) \<inter> set (content s i) = {}"
    using h I(3) by (auto simp: one_place_def; blast)
  then have af: "after i p (content s i) m' x"
    using access_ok [OF p] assms(3) by auto
  then have u: "busy u = busy (threads s t)" "thread_arg u = thread_arg (threads s t)" "thread_inv (s\<lparr>mem := m'\<rparr>) u"
    using p(2) assms(2,4) by (auto simp: after_def split: sum.splits)
  have inv_eq: "thread_inv (s\<lparr>mem := m', threads := T\<rparr>) v \<longleftrightarrow> thread_inv (s\<lparr>mem := m'\<rparr>) v" for T v
    by (cases v) simp_all
  have fl: "m_flag m' = m_flag (mem s)"
    by (rule access_frame(1) [OF assms(3) p(1)])
  have bz: "busy (((threads s)(t := u)) t') = busy (threads s t')" for t'
    using u(1) by simp
  have "thread_inv (s\<lparr>mem := m'\<rparr>) (((threads s)(t := u)) t')" for t'
    using u(3) others_keep(2) [OF assms(1-3)] by simp
  then have "memory_ok (s\<lparr>mem := m', threads := (threads s)(t := u)\<rparr>)"
    using others_keep(1) [OF assms(1-3)] by (simp add: memory_ok_def inv_eq fl)
  moreover have "locks_ok (s\<lparr>mem := m', threads := (threads s)(t := u)\<rparr>)"
    using I(1) by (simp add: locks_ok_def fl bz del: fun_upd_apply)
  moreover have "args_held (s\<lparr>mem := m', threads := (threads s)(t := u)\<rparr>)"
    using I(5) u(2) by (simp add: args_held_def)
  ultimately show ?thesis
    using I(3,4) by (simp add: winv_def one_place_def replays_def)
qed

lemma winv_outside:
  assumes "winv n nx s" "busy u = None" "busy (threads s t) = None" "thread_inv s u" "thread_arg u \<subseteq> held s t"
  shows "winv n nx (s\<lparr>threads := (threads s)(t := u)\<rparr>)"
proof -
  note I = winvD [OF assms(1)]
  have inv_eq: "thread_inv (s\<lparr>threads := T\<rparr>) v \<longleftrightarrow> thread_inv s v" for T v
    by (cases v) simp_all
  have bz: "busy (((threads s)(t := u)) t') = busy (threads s t')" for t'
    using assms(2,3) by simp
  show ?thesis
    using I(1-5) assms(4,5) unfolding winv_def
    by (simp add: locks_ok_def memory_ok_def one_place_def replays_def args_held_def inv_eq bz del: fun_upd_apply) simp
qed

lemma flag_irrelevant [simp]:
  "rep i bs (m\<lparr>m_flag := f\<rparr>) \<longleftrightarrow> rep i bs m" "pc_inv i p bs (m\<lparr>m_flag := f\<rparr>) \<longleftrightarrow> pc_inv i p bs m"
proof -
  show "rep i bs (m\<lparr>m_flag := f\<rparr>) \<longleftrightarrow> rep i bs m" for i bs m f
    by (rule rep_cong) simp_all
  then show "pc_inv i p bs (m\<lparr>m_flag := f\<rparr>) \<longleftrightarrow> pc_inv i p bs m"
    by (cases p) simp_all
qed

lemma busy_upd: "(\<exists>t'. busy ((T(t := u)) t') = Some j) \<longleftrightarrow> busy u = Some j \<or> (\<exists>t'. t' \<noteq> t \<and> busy (T t') = Some j)"
  by auto

lemma winv_acquire:
  assumes "winv n nx s" "threads s t = Spinning i c" "\<not> m_flag (mem s) i"
  shows "winv n nx (s\<lparr>mem := (mem s)\<lparr>m_flag := (m_flag (mem s))(i := True)\<rparr>, threads := (threads s)(t := Inside i (call_pc c))\<rparr>)"
    (is "winv n nx ?s")
proof -
  note I = winvD [OF assms(1)]
  have c: "call_fits i c" "call_of (call_pc c) = c" "pc_inv i (call_pc c) (content s i) (mem s)"
    using I(6) [of t] I(8) [OF assms(3)] assms(2) by (simp, cases c, simp_all, cases c, simp_all)
  have free: "busy (threads s t') \<noteq> Some i" for t'
    using I(9) assms(3) by blast
  have inv_eq: "thread_inv ?s v \<longleftrightarrow> thread_inv s v" for v
    by (cases v) simp_all
  have "locks_ok ?s"
    unfolding locks_ok_def
  proof (intro conjI allI impI)
    fix j
    have "m_flag (mem s) j \<longleftrightarrow> (\<exists>t'. t' \<noteq> t \<and> busy (threads s t') = Some j)"
      using I(9) [of _ j] I(10) [of j] assms(2) by force
    then have "m_flag (mem ?s) j \<longleftrightarrow> (\<exists>t'. busy (((threads s)(t := Inside i (call_pc c))) t') = Some j)"
      unfolding busy_upd by simp
    then show "m_flag (mem ?s) j \<longleftrightarrow> (\<exists>t. busy (threads ?s t) = Some j)"
      by simp
  next
    fix t1 t2 j assume "busy (threads ?s t1) = Some j" "busy (threads ?s t2) = Some j"
    then show "t1 = t2"
      using I(11) free by (auto split: if_splits)
  qed
  moreover have "memory_ok ?s"
    using I(2) c unfolding memory_ok_def inv_eq by (auto split: if_splits)
  moreover have "args_held ?s"
    using I(5) I(7) [of t] assms(2) c(2) by (auto simp: args_held_def split: if_splits)
  ultimately show ?thesis
    using I(3,4) by (simp add: winv_def one_place_def replays_def)
qed

lemma list_op_set:
  assumes "call_arg c \<inter> set bs = {}" "distinct bs"
  shows "distinct (snd (list_op c bs))" "set_option (fst (list_op c bs)) \<subseteq> set bs"
    "set (snd (list_op c bs)) = (set bs - set_option (fst (list_op c bs))) \<union> call_arg c"
    "set_option (fst (list_op c bs)) \<inter> call_arg c = {}"
  using assms by (cases c; auto split: list.splits)+

lemma one_place_release:
  assumes "one_place n s" "call_arg c \<subseteq> held s t" "r = fst (list_op c (content s i))"
  shows "one_place n (s\<lparr>held := (held s)(t := held s t - call_arg c \<union> set_option r),
    content := (content s)(i := snd (list_op c (content s i)))\<rparr>)" (is "one_place n ?s")
proof -
  have d: "\<And>t t'. t \<noteq> t' \<Longrightarrow> held s t \<inter> held s t' = {}" "\<And>t i. held s t \<inter> set (content s i) = {}"
    "\<And>i j. i \<noteq> j \<Longrightarrow> set (content s i) \<inter> set (content s j) = {}" "\<And>i. distinct (content s i)"
    and u: "(\<Union>t. held s t) \<union> (\<Union>i. set (content s i)) = {0..<2 * n}"
    using assms(1) by (simp_all add: one_place_def)
  have a: "call_arg c \<inter> set (content s i) = {}"
    using assms(2) d(2) by blast
  note S = list_op_set [OF a d(4) [of i], folded assms(3)]
  let ?H = "held s t - call_arg c \<union> set_option r" and ?C = "snd (list_op c (content s i))"
  have H: "?H \<union> set ?C = held s t \<union> set (content s i)" "?H \<inter> set ?C = {}"
    using assms(2) a S(2,4) d(2) [of t i] unfolding S(3) by blast+
  have "(\<Union>t'. ((held s)(t := ?H)) t') \<union> (\<Union>j. set (((content s)(i := ?C)) j)) =
    (\<Union>t'\<in>- {t}. held s t') \<union> (\<Union>j\<in>- {i}. set (content s j)) \<union> (?H \<union> set ?C)"
    by (auto split: if_splits)
  also have "\<dots> = (\<Union>t. held s t) \<union> (\<Union>i. set (content s i))"
    unfolding H(1) by auto
  finally have all: "(\<Union>t'. held ?s t') \<union> (\<Union>j. set (content ?s j)) = {0..<2 * n}"
    by (simp add: u)
  have far: "?H \<inter> held s t' = {} \<and> set ?C \<inter> held s t' = {}" if "t' \<noteq> t" for t'
    using that H(1) d(1) [of t t'] d(2) [of t' i] by blast
  have apart: "?H \<inter> set (content s j) = {} \<and> set ?C \<inter> set (content s j) = {}" if "j \<noteq> i" for j
    using that H(1) d(2) [of t j] d(3) [of i j] by blast
  note all
  moreover have "held ?s t1 \<inter> held ?s t2 = {}" if "t1 \<noteq> t2" for t1 t2
    using that far [of t1] far [of t2] d(1) [of t1 t2] by (cases "t1 = t"; cases "t2 = t") auto
  moreover have "held ?s t1 \<inter> set (content ?s j) = {}" for t1 j
    using far [of t1] apart [of j] d(2) [of t1 j] H(2) by (cases "t1 = t"; cases "j = i") auto
  moreover have "set (content ?s j) \<inter> set (content ?s k) = {}" if "j \<noteq> k" for j k
    using that apart [of j] apart [of k] d(3) [of j k] by (cases "j = i"; cases "k = i") auto
  moreover have "distinct (content ?s j)" for j
    using S(1) d(4) by simp
  ultimately show ?thesis
    unfolding one_place_def by blast
qed

lemma winv_release:
  assumes "winv n nx s" "threads s t = Leaving i c r"
  shows "winv n nx \<lparr>mem = Spinlock_unlock i (mem s), threads = (threads s)(t := Outside),
      held = (held s)(t := held s t - call_arg c \<union> set_option r), calls = (calls s)(i := calls s i @ [(c, r)]),
      content = (content s)(i := snd (list_op c (content s i)))\<rparr>" (is "winv n nx ?s")
proof -
  note I = winvD [OF assms(1)]
  have c: "call_fits i c" "r = fst (list_op c (content s i))" "rep i (snd (list_op c (content s i))) (mem s)" "call_arg c \<subseteq> held s t"
    using I(6,7) [of t] assms(2) by simp_all
  have only: "busy (threads s t') = Some i \<Longrightarrow> t' = t" for t'
    using I(11) [of t i t'] assms(2) by simp
  have "thread_inv ?s (threads s t')" if "t' \<noteq> t" for t'
    using I(6) [of t'] only [of t'] that by (cases "threads s t'") (auto simp: Spinlock_unlock_def)
  then have "memory_ok ?s"
    using I(8) c(3) by (auto simp: memory_ok_def Spinlock_unlock_def)
  moreover have "locks_ok ?s"
    unfolding locks_ok_def
  proof (intro conjI allI impI)
    fix j show "m_flag (mem ?s) j \<longleftrightarrow> (\<exists>t. busy (threads ?s t) = Some j)"
      using I(9) [of _ j] I(10) [of j] only assms(2)
      by (simp add: Spinlock_unlock_def busy_upd del: fun_upd_apply) (metis busy.simps(2) fun_upd_apply option.inject)
  next
    fix t1 t2 j assume "busy (threads ?s t1) = Some j" "busy (threads ?s t2) = Some j"
    then show "t1 = t2"
      using I(11) by (auto split: if_splits)
  qed
  moreover have "one_place n ?s"
    using one_place_release [OF I(3) c(4,2)] by (simp add: one_place_def)
  moreover have "replays n nx ?s"
    using I(4) c(2) by (simp add: replays_def replay_snoc)
  moreover have "args_held ?s"
    using I(5) by (simp add: args_held_def)
  ultimately show ?thesis
    by (simp add: winv_def)
qed

lemma winv_hand:
  assumes "winv n nx s" "b \<in> held s t" "b \<notin> thread_arg (threads s t)"
  shows "winv n nx (s\<lparr>held := (\<lambda>u. if u = t' then insert b (held s u) else held s u - {b})\<rparr>)" (is "winv n nx ?s")
proof -
  note I = winvD [OF assms(1)]
  have b: "held s u \<inter> held s t = {}" if "u \<noteq> t" for u
    using I(3) that by (auto simp: one_place_def)
  have "args_held ?s"
    using I(7) assms(2,3) b by (fastforce simp: args_held_def)
  moreover have "(\<Union>u. held ?s u) = (\<Union>u. held s u)"
    using assms(2) by (auto split: if_splits)
  then have "one_place n ?s"
    using I(3) assms(2) b unfolding one_place_def by simp blast
  moreover have "thread_inv ?s v \<longleftrightarrow> thread_inv s v" for v
    by (cases v) simp_all
  ultimately show ?thesis
    using I(1,2,4) by (simp add: winv_def locks_ok_def memory_ok_def replays_def)
qed

lemma winv_step:
  assumes "wstep t s s'" "winv n nx s"
  shows "winv n nx s'"
  using assms(1)
proof cases
  case (spin i c m)
  then have "s' = s"
    by (auto simp: Spinlock_test_and_set_def fun_upd_idem)
  with assms(2) show ?thesis
    by simp
next
  case (proceed i p p' m)
  then show ?thesis
    using winv_access [OF assms(2) proceed(2,3)] by simp
next
  case (finish i p r m)
  then show ?thesis
    using winv_access [OF assms(2) finish(2,3)] by simp
qed (use assms(2) in \<open>auto simp: Spinlock_test_and_set_def intro!: winv_outside winv_acquire winv_release winv_hand\<close>)

lemma winv_reach: "reach n nx s \<Longrightarrow> 0 < n \<Longrightarrow> winv n nx s"
  by (induction rule: reach.induct) (auto intro: winv_start winv_step)

section \<open>The theorems\<close>

text \<open>
  C24: The lists are safe under every interleaving of the threads. At most one thread is inside of
  the functions of a list; the calls of every list returned what they return one after the other
  in the order in which they released the lock, on a first-in first-out queue or on a pool used as a
  stack; a list whose lock is free is in memory what these calls leave; no access dereferences a
  null pointer; and every buffer is in one list or held by one thread, at all times.
\<close>

theorem lists_linearizable:
  assumes "reach n nx s" "0 < n"
  shows "(\<forall>t t' i. busy (threads s t) = Some i \<longrightarrow> busy (threads s t') = Some i \<longrightarrow> t = t')
    \<and> (\<forall>i. replay (content (start n nx) i) (calls s i) = Some (content s i)
          \<and> (\<not> m_flag (mem s) i \<longrightarrow> (if i < 2 then pool_list (pool_at i (mem s)) (content s i) else queue_list (queue_at i (mem s)) (content s i))))
    \<and> (\<forall>t i p. threads s t = Inside i p \<longrightarrow> list_access i p (mem s) \<noteq> None)
    \<and> one_place n s"
proof -
  note W = winv_reach [OF assms]
  note I = winvD [OF W]
  have "list_access i p (mem s) \<noteq> None" if "threads s t = Inside i p" for t i p
  proof -
    have p: "pc_inv i p (content s i) (mem s)" "call_fits i (call_of p)" "call_arg (call_of p) \<subseteq> held s t"
      using I(6,7) [of t] that by simp_all
    moreover have "call_arg (call_of p) \<inter> set (content s i) = {}"
      using p(3) I(3) by (auto simp: one_place_def; blast)
    ultimately show ?thesis
      using access_ok by fastforce
  qed
  moreover have "replay (content (start n nx) i) (calls s i) = Some (content s i)" for i
    using I(4) by (simp add: replays_def)
  ultimately show ?thesis
    using I(3,8,11) unfolding rep_def by blast
qed

text \<open>A pool with one buffer; thread 5 has got the lock of the pool to take it.\<close>

definition sample_world :: world where
  "sample_world = (start 1 (\<lambda>_. None))\<lparr>mem := (start_mem 1 (\<lambda>_. None))\<lparr>m_flag := (\<lambda>_. False)(0 := True)\<rparr>,
     threads := (\<lambda>_. Outside)(5 := Inside 0 A_root)\<rparr>"

lemma sample_reach: "reach 1 (\<lambda>_. None) sample_world"
proof -
  let ?s = "start 1 (\<lambda>_. None)" and ?s1 = "(start 1 (\<lambda>_. None))\<lparr>threads := (\<lambda>_. Outside)(5 := Spinning 0 Call_Alloc)\<rparr>"
  have "wstep 5 ?s ?s1"
    using wstep.call [of ?s 5 0 Call_Alloc] by (simp add: start_def)
  moreover have "wstep 5 ?s1 sample_world"
    using wstep.acquire [of ?s1 5 0 Call_Alloc] by (simp add: start_def start_mem_def sample_world_def Spinlock_test_and_set_def)
  ultimately show ?thesis
    by (metis reach.init reach.step)
qed

theorem lists_linearizable_witness:
  "list_access 0 A_root (mem sample_world) \<noteq> None \<and> queue_list (queue_at 2 (mem sample_world)) []"
proof -
  have "threads sample_world 5 = Inside 0 A_root" "\<not> m_flag (mem sample_world) 2" "content sample_world 2 = []"
    by (simp_all add: sample_world_def start_mem_def start_def)
  then show ?thesis
    using lists_linearizable [OF sample_reach] by (metis less_irrefl zero_less_one)
qed

text \<open>The number of accesses that are left, at most.\<close>

primrec accesses_left :: "pc \<Rightarrow> nat" where
  "accesses_left (E_head w) = 4"
| "accesses_left (E_tail_first w) = 2"
| "accesses_left (E_head_first w) = 1"
| "accesses_left (E_tail w) = 3"
| "accesses_left (E_next w t) = 2"
| "accesses_left (E_tail_last w) = 1"
| "accesses_left D_head = 7"
| "accesses_left D_head_again = 6"
| "accesses_left (D_tail h) = 5"
| "accesses_left D_ans_last = 3"
| "accesses_left (D_tail_null a) = 2"
| "accesses_left (D_head_null a) = 1"
| "accesses_left D_ans = 4"
| "accesses_left (D_head_load a) = 3"
| "accesses_left (D_next a h) = 2"
| "accesses_left (D_head_store a n) = 1"
| "accesses_left A_root = 5"
| "accesses_left (A_test r) = 4"
| "accesses_left (A_root_load r) = 3"
| "accesses_left (A_next r h) = 2"
| "accesses_left (A_root_store r n) = 1"
| "accesses_left (F_root b) = 3"
| "accesses_left (F_next b r) = 2"
| "accesses_left (F_root_store b) = 1"

lemma access_progress: "list_access i p m = Some (Inl p', m') \<Longrightarrow> accesses_left p' < accesses_left p"
  by (cases p) (auto simp: load_next_def store_next_def split: option.splits if_splits)

lemma accesses_bound: "0 < accesses_left p \<and> accesses_left p \<le> 7"
  by (cases p) simp_all

lemma leave:
  "threads s t = Leaving i c r \<Longrightarrow> \<exists>s'. wstep t s s' \<and> threads s' = (threads s)(t := Outside) \<and> \<not> m_flag (mem s') i"
  by (rule exI, rule conjI, erule wstep.release) (simp add: Spinlock_unlock_def)

lemma section_ends:
  assumes "winv n nx s" "threads s t = Inside i p"
  shows "\<exists>k s'. k \<le> Suc (accesses_left p) \<and> (wstep t ^^ k) s s' \<and> threads s' = (threads s)(t := Outside) \<and> \<not> m_flag (mem s') i"
  using assms
proof (induction "accesses_left p" arbitrary: s p rule: less_induct)
  case less
  note I = winvD [OF less.prems(1)]
  have p: "pc_inv i p (content s i) (mem s)" "call_fits i (call_of p)" "call_arg (call_of p) \<subseteq> held s t"
    using I(6,7) [of t] less.prems(2) by simp_all
  have "call_arg (call_of p) \<inter> set (content s i) = {}"
    using p(3) I(3) by (auto simp: one_place_def; blast)
  then obtain x m' where x: "list_access i p (mem s) = Some (x, m')"
    using access_ok [OF p(1,2)] by blast
  show ?case
  proof (cases x)
    case (Inl p')
    let ?s = "s\<lparr>mem := m', threads := (threads s)(t := Inside i p')\<rparr>"
    have st: "wstep t s ?s"
      using wstep.proceed [OF less.prems(2)] x Inl by simp
    have lt: "accesses_left p' < accesses_left p"
      using access_progress x Inl by simp
    obtain k s' where "k \<le> Suc (accesses_left p')" "(wstep t ^^ k) ?s s'" "threads s' = (threads ?s)(t := Outside)" "\<not> m_flag (mem s') i"
      using less.hyps [OF lt winv_step [OF st less.prems(1)]] by auto
    then show ?thesis
      using lt st relpowp_Suc_I2 [of "wstep t" s ?s k s'] by (intro exI [of _ "Suc k"] exI [of _ s']) simp
  next
    case (Inr r)
    let ?s = "s\<lparr>mem := m', threads := (threads s)(t := Leaving i (call_of p) r)\<rparr>"
    have st: "wstep t s ?s"
      using wstep.finish [OF less.prems(2)] x Inr by simp
    obtain s' where "wstep t ?s s'" "threads s' = (threads ?s)(t := Outside)" "\<not> m_flag (mem s') i"
      using leave [of ?s t] by auto
    then show ?thesis
      using st accesses_bound [of p] by (intro exI [of _ 2] exI [of _ s']) (auto simp: numeral_2_eq_2)
  qed
qed

text \<open>
  C25: No lock is kept. A thread inside of a function of a list, if it runs, releases the lock and
  has returned after at most eight steps of its own, whatever the other threads did before; and then
  each thread that spins for this lock gets it with its next step.
\<close>

theorem lock_is_released:
  assumes "reach n nx s" "0 < n" "threads s t = Inside i p"
  shows "\<exists>k s'. k \<le> 8 \<and> (wstep t ^^ k) s s' \<and> threads s' t = Outside
    \<and> (\<forall>t' c. t' \<noteq> t \<longrightarrow> threads s t' = Spinning i c \<longrightarrow> (\<exists>s''. wstep t' s' s'' \<and> threads s'' t' = Inside i (call_pc c)))"
proof -
  obtain k s' where k: "k \<le> Suc (accesses_left p)" "(wstep t ^^ k) s s'" "threads s' = (threads s)(t := Outside)" "\<not> m_flag (mem s') i"
    using section_ends [OF winv_reach [OF assms(1,2)] assms(3)] by blast
  have "\<exists>s''. wstep t' s' s'' \<and> threads s'' t' = Inside i (call_pc c)" if "t' \<noteq> t" "threads s t' = Spinning i c" for t' c
    using wstep.acquire [of s' t' i c] that k(3,4) by (fastforce simp: Spinlock_test_and_set_def)
  with k show ?thesis
    using accesses_bound [of p] by (intro exI [of _ k] exI [of _ s']) auto
qed

theorem lock_is_released_witness:
  "\<exists>k s'. k \<le> 8 \<and> (wstep 5 ^^ k) sample_world s' \<and> threads s' 5 = Outside"
  using lock_is_released [OF sample_reach, of 5 0 A_root] by (auto simp: sample_world_def)

end
