(* ===== verification/Worker_Wakeup.thy ===== *)
theory Worker_Wakeup
  imports Spinlock
begin

text \<open>
  A worker and the poller that feeds it (\<^verbatim>\<open>Worker::Enqueue\<close> of \<^verbatim>\<open>server.h\<close>, the waiting part of
  \<^verbatim>\<open>Worker::Serve\<close> of \<^verbatim>\<open>server.cc\<close>). The worker polls its queue for a while, without the mutex, and
  then sleeps on the condition variable; the poller enqueues and notifies under the mutex. The
  operations on the queue are those of its list, one at a time, which is what their spin lock
  gives. A sleeping worker may also wake up without a notification.
\<close>

section \<open>The two threads\<close>

datatype owner = Poller | Server_worker

text \<open>The places in \<^verbatim>\<open>Worker::Enqueue\<close>, and those in \<^verbatim>\<open>Worker::Serve\<close> up to the work on a request.\<close>

datatype poller_pc = P_away | P_lock nat | P_enqueue nat | P_notify | P_unlock

datatype worker_pc = W_poll | W_lock | W_test | W_sleep | W_woken | W_unlock nat | W_serve nat

record wake =
  wk_mtx :: "owner option"
  wk_queue :: "nat list"
  wk_poller :: poller_pc
  wk_worker :: worker_pc
  wk_sent :: "nat list"
  wk_done :: "nat list"

definition wake_init :: wake where
  "wake_init = \<lparr>wk_mtx = None, wk_queue = [], wk_poller = P_away, wk_worker = W_poll, wk_sent = [], wk_done = []\<rparr>"

text \<open>The next step of the poller; \<open>w\<close> is the buffer it dispatches next. \<^const>\<open>None\<close>: it is blocked.\<close>

definition Enqueue_step :: "nat \<Rightarrow> wake \<Rightarrow> wake option" where
  "Enqueue_step w s = (case wk_poller s of
     P_away \<Rightarrow> Some (s\<lparr>wk_poller := P_lock w\<rparr>)
   | P_lock b \<Rightarrow> (if wk_mtx s = None then Some (s\<lparr>wk_mtx := Some Poller, wk_poller := P_enqueue b\<rparr>) else None)
   | P_enqueue b \<Rightarrow> Some (s\<lparr>wk_queue := snd (list_op (Call_Enqueue b) (wk_queue s)), wk_sent := wk_sent s @ [b], wk_poller := P_notify\<rparr>)
   | P_notify \<Rightarrow> Some (s\<lparr>wk_worker := (if wk_worker s = W_sleep then W_woken else wk_worker s), wk_poller := P_unlock\<rparr>)
   | P_unlock \<Rightarrow> Some (s\<lparr>wk_mtx := None, wk_poller := P_away\<rparr>))"

text \<open>
  The steps the worker may take. A poll that finds nothing is repeated until 50 microseconds are
  over, that is any number of times. The wait evaluates its predicate with the mutex and goes to
  sleep and releases the mutex in one step.
\<close>

definition Serve_steps :: "wake \<Rightarrow> wake list" where
  "Serve_steps s = (case wk_worker s of
     W_poll \<Rightarrow> (case list_op Call_Dequeue (wk_queue s) of
         (None, q) \<Rightarrow> [s\<lparr>wk_queue := q\<rparr>, s\<lparr>wk_queue := q, wk_worker := W_lock\<rparr>]
       | (Some b, q) \<Rightarrow> [s\<lparr>wk_queue := q, wk_worker := W_serve b\<rparr>])
   | W_lock \<Rightarrow> (if wk_mtx s = None then [s\<lparr>wk_mtx := Some Server_worker, wk_worker := W_test\<rparr>] else [])
   | W_test \<Rightarrow> (case list_op Call_Dequeue (wk_queue s) of
         (None, q) \<Rightarrow> [s\<lparr>wk_queue := q, wk_mtx := None, wk_worker := W_sleep\<rparr>]
       | (Some b, q) \<Rightarrow> [s\<lparr>wk_queue := q, wk_worker := W_unlock b\<rparr>])
   | W_sleep \<Rightarrow> []
   | W_woken \<Rightarrow> (if wk_mtx s = None then [s\<lparr>wk_mtx := Some Server_worker, wk_worker := W_test\<rparr>] else [])
   | W_unlock b \<Rightarrow> [s\<lparr>wk_mtx := None, wk_worker := W_serve b\<rparr>]
   | W_serve b \<Rightarrow> [s\<lparr>wk_done := wk_done s @ [b], wk_worker := W_poll\<rparr>])"

inductive wake_reach :: "wake \<Rightarrow> bool" where
  wake_start: "wake_reach wake_init"
| poller: "wake_reach s \<Longrightarrow> Enqueue_step w s = Some s' \<Longrightarrow> wake_reach s'"
| worker: "wake_reach s \<Longrightarrow> s' \<in> set (Serve_steps s) \<Longrightarrow> wake_reach s'"
| spurious: "wake_reach s \<Longrightarrow> wk_worker s = W_sleep \<Longrightarrow> wake_reach (s\<lparr>wk_worker := W_woken\<rparr>)"

section \<open>The invariant\<close>

fun in_hand :: "worker_pc \<Rightarrow> nat list" where
  "in_hand (W_unlock b) = [b]"
| "in_hand (W_serve b) = [b]"
| "in_hand _ = []"

fun poller_locked :: "poller_pc \<Rightarrow> bool" where
  "poller_locked P_away \<longleftrightarrow> False"
| "poller_locked (P_lock b) \<longleftrightarrow> False"
| "poller_locked _ \<longleftrightarrow> True"

fun worker_locked :: "worker_pc \<Rightarrow> bool" where
  "worker_locked W_test \<longleftrightarrow> True"
| "worker_locked (W_unlock b) \<longleftrightarrow> True"
| "worker_locked _ \<longleftrightarrow> False"

definition wake_inv :: "wake \<Rightarrow> bool" where
  "wake_inv s \<longleftrightarrow> wk_sent s = wk_done s @ in_hand (wk_worker s) @ wk_queue s
     \<and> (wk_mtx s = Some Poller \<longleftrightarrow> poller_locked (wk_poller s)) \<and> (wk_mtx s = Some Server_worker \<longleftrightarrow> worker_locked (wk_worker s))
     \<and> (wk_worker s = W_sleep \<and> wk_queue s \<noteq> [] \<longrightarrow> wk_poller s = P_notify)"

lemma wake_inv_poller: "wake_inv s \<Longrightarrow> Enqueue_step w s = Some s' \<Longrightarrow> wake_inv s'"
  by (cases "wk_poller s") (auto simp: wake_inv_def Enqueue_step_def split: if_splits)

lemma wake_inv_worker: "wake_inv s \<Longrightarrow> s' \<in> set (Serve_steps s) \<Longrightarrow> wake_inv s'"
  by (cases "wk_worker s"; cases "wk_queue s") (auto simp: wake_inv_def Serve_steps_def split: if_splits)

lemma wake_inv_reach: "wake_reach s \<Longrightarrow> wake_inv s"
proof (induction rule: wake_reach.induct)
  case wake_start
  then show ?case
    by (simp add: wake_inv_def wake_init_def)
next
  case (spurious s)
  then show ?case
    by (auto simp: wake_inv_def)
qed (use wake_inv_poller wake_inv_worker in blast)+

text \<open>All states after \<open>k\<close> steps of the worker.\<close>

primrec Serve_run :: "nat \<Rightarrow> wake \<Rightarrow> wake list" where
  "Serve_run 0 s = [s]"
| "Serve_run (Suc k) s = concat (map (Serve_run k) (Serve_steps s))"

lemma wakes_up:
  assumes "wake_inv s" "wk_queue s = b # bs" "wk_poller s = P_away \<or> (\<exists>w. wk_poller s = P_lock w)" "in_hand (wk_worker s) = []"
  shows "\<exists>k\<le>3. \<exists>s'. Serve_run k s = [s'] \<and> wk_worker s' = W_serve b \<and> wk_queue s' = bs"
proof -
  have mtx: "wk_mtx s \<noteq> Some Poller" "wk_worker s \<noteq> W_sleep" "wk_mtx s = Some Server_worker \<longleftrightarrow> worker_locked (wk_worker s)"
    using assms by (auto simp: wake_inv_def)
  consider "wk_worker s = W_poll" | "wk_worker s = W_test" | "wk_worker s = W_lock \<or> wk_worker s = W_woken" "wk_mtx s = None"
    using mtx assms(4) by (cases "wk_worker s"; cases "wk_mtx s") (auto, (metis owner.exhaust)+)
  then show ?thesis
  proof cases
    case 1
    then show ?thesis
      using assms(2) by (intro exI [of _ 1]) (simp add: Serve_steps_def)
  next
    case 2
    then show ?thesis
      using assms(2) by (intro exI [of _ 2]) (simp add: Serve_steps_def numeral_2_eq_2)
  next
    case 3
    then show ?thesis
      using assms(2) by (intro exI [of _ 3]) (auto simp: Serve_steps_def numeral_3_eq_3)
  qed
qed

section \<open>The theorem\<close>

text \<open>
  C26: No wake-up is lost. In every reachable state the requests that were dispatched to the worker
  are those it has served, the one it has in hand and those in its queue, in this order; the mutex
  has one owner; the worker sleeps while there is work only as long as the poller is about to
  notify it; and when the poller is outside of the mutex, a worker without work takes the first
  request of a non-empty queue within three steps, whichever way it was waiting.
\<close>

theorem no_lost_wakeup:
  assumes "wake_reach s"
  shows "wk_sent s = wk_done s @ in_hand (wk_worker s) @ wk_queue s
    \<and> \<not> (poller_locked (wk_poller s) \<and> worker_locked (wk_worker s))
    \<and> (wk_worker s = W_sleep \<and> wk_queue s \<noteq> [] \<longrightarrow> wk_poller s = P_notify)
    \<and> (\<forall>b bs. wk_queue s = b # bs \<and> \<not> poller_locked (wk_poller s) \<and> in_hand (wk_worker s) = [] \<longrightarrow>
         (\<exists>k\<le>3. \<exists>s'. Serve_run k s = [s'] \<and> wk_worker s' = W_serve b \<and> wk_queue s' = bs))"
proof -
  have I: "wake_inv s"
    using assms by (rule wake_inv_reach)
  have "\<not> poller_locked (wk_poller s) \<Longrightarrow> wk_poller s = P_away \<or> (\<exists>w. wk_poller s = P_lock w)"
    by (cases "wk_poller s") auto
  then show ?thesis
    using wakes_up [OF I] I by (auto simp: wake_inv_def)
qed

text \<open>The worker sleeps, request 7 arrives, the worker wakes up and takes it.\<close>

definition sleeping :: wake where
  "sleeping = wake_init\<lparr>wk_worker := W_sleep\<rparr>"

definition notified :: wake where
  "notified = wake_init\<lparr>wk_worker := W_woken, wk_queue := [7], wk_sent := [7]\<rparr>"

lemma notified_reach: "wake_reach notified"
proof -
  have "wake_reach (wake_init\<lparr>wk_worker := W_lock\<rparr>)"
    using wake_start by (rule worker) (simp add: wake_init_def Serve_steps_def)
  then have "wake_reach (wake_init\<lparr>wk_worker := W_test, wk_mtx := Some Server_worker\<rparr>)"
    by (rule worker) (simp add: wake_init_def Serve_steps_def)
  then have "wake_reach sleeping"
    by (rule worker) (simp add: wake_init_def Serve_steps_def sleeping_def)
  then have "wake_reach (sleeping\<lparr>wk_poller := P_lock 7\<rparr>)"
    by (rule poller [of _ 7]) (simp add: Enqueue_step_def sleeping_def wake_init_def)
  then have "wake_reach (sleeping\<lparr>wk_mtx := Some Poller, wk_poller := P_enqueue 7\<rparr>)"
    by (rule poller [of _ 0]) (simp add: Enqueue_step_def sleeping_def wake_init_def)
  then have "wake_reach (sleeping\<lparr>wk_mtx := Some Poller, wk_poller := P_notify, wk_queue := [7], wk_sent := [7]\<rparr>)"
    by (rule poller [of _ 0]) (simp add: Enqueue_step_def sleeping_def wake_init_def)
  then have "wake_reach (sleeping\<lparr>wk_mtx := Some Poller, wk_poller := P_unlock, wk_queue := [7], wk_sent := [7], wk_worker := W_woken\<rparr>)"
    by (rule poller [of _ 0]) (simp add: Enqueue_step_def sleeping_def wake_init_def)
  then show ?thesis
    by (rule poller [of _ 0]) (simp add: Enqueue_step_def sleeping_def wake_init_def notified_def)
qed

theorem no_lost_wakeup_witness:
  "\<exists>k\<le>3. \<exists>s'. Serve_run k notified = [s'] \<and> wk_worker s' = W_serve 7 \<and> wk_queue s' = []"
  using no_lost_wakeup [OF notified_reach] by (auto simp: notified_def wake_init_def)

end
