(* ===== verification/Client.thy ===== *)
theory Client
  imports Server
begin

text \<open>
  The client of \<^verbatim>\<open>src/client.h\<close> and \<^verbatim>\<open>src/client.cc\<close>: construction, joining, and the four operations,
  each of which sends one request to the server of its key and waits for the response.
\<close>

section \<open>The client\<close>

record Client =
  cl_index :: IndexManager
  cl_ib :: Infiniband
  cl_bufs :: "nat \<Rightarrow> Buffer"
  cl_next :: nexts
  cl_send_root :: "nat option"
  cl_recv_root :: "nat option"
  cl_qp :: QueuePair

text \<open>The session of the client is the connection \<open>c\<close>; an error of it is an exception that leaves the constructor.\<close>

definition Client_Join :: "('s, 'j) coord_env \<Rightarrow> TabletInfo \<Rightarrow> (nat \<Rightarrow> 'c \<Rightarrow> (u8 list \<times> 'c) option)
    \<Rightarrow> (u8 list \<Rightarrow> 'c \<Rightarrow> 'c option) \<Rightarrow> 'c \<Rightarrow> (IndexManager \<times> 'c) vprog" where
  "Client_Join E old rd wr c =
     (case SendMessage wr (make_Message \<lparr>sender_type = sender_code CLIENT, msg_type = type_code REQ_JOIN, body_len = 0\<rparr>
             (json_dump E (json_null (jlib E)))) c of
        None \<Rightarrow> fail (Exited ''system_error'')
      | Some c \<Rightarrow>
          (case RecvMessage rd c of
             None \<Rightarrow> fail (Exited ''system_error'')
           | Some (msg, c) \<Rightarrow>
               thenv (assertv (sender_type (header msg) = sender_code COORDINATOR)) (
               thenv (assertv (msg_type (header msg) = type_code RES_JOIN)) (
               bindv (json_or_throw (json_parse E (body msg))) (\<lambda>j.
               bindv (json_or_throw (get_member (jlib E) j ''index_manager'' \<bind> from_json_IndexManager (jlib E) old)) (\<lambda>im.
               ret (im, c)))))))"

definition Client_new :: "platform \<Rightarrow> nat \<Rightarrow> ('s, 'j) coord_env \<Rightarrow> TabletInfo \<Rightarrow> (nat \<Rightarrow> 'c \<Rightarrow> (u8 list \<times> 'c) option)
    \<Rightarrow> (u8 list \<Rightarrow> 'c \<Rightarrow> 'c option) \<Rightarrow> 'c \<Rightarrow> (Client \<times> 'c) vprog" where
  "Client_new P page E old rd wr c =
     bindv (Infiniband_new P 1024) (\<lambda>ib.
     bindv (RegisteredBuffers_new P page 0 (ib_pd ib) Client_kSendBufSize kMaxIBQueueDepth False (\<lambda>_. None)) (\<lambda>(sb, sroot, nx).
     bindv (RegisteredBuffers_new P page kMaxIBQueueDepth (ib_pd ib) Client_kRecvBufSize kMaxIBQueueDepth True nx) (\<lambda>(rb, rroot, nx).
     bindv (QueuePair_new P ib IBV_QPT_UD kMaxIBQueueDepth kMaxIBQueueDepth) (\<lambda>qp.
     thenv (Activate P qp) (
     bindv (Client_Join E old rd wr c) (\<lambda>(im, c).
     ret (\<lparr>cl_index = im, cl_ib = ib, cl_bufs = pool_bufs sb (pool_bufs rb (\<lambda>_. blank_buffer)), cl_next = nx,
           cl_send_root = sroot, cl_recv_root = rroot, cl_qp = qp\<rparr>, c)))))))"

definition Client_delete :: "platform \<Rightarrow> Client \<Rightarrow> unit vprog" where
  "Client_delete P cl = QueuePair_delete P (cl_qp cl)"

section \<open>Requests\<close>

definition cl_send_alloc :: "Client \<Rightarrow> nat option \<times> Client" where
  "cl_send_alloc cl = (case Pool_Alloc (cl_send_root cl, cl_next cl) of (b, root, nx) \<Rightarrow> (b, cl\<lparr>cl_send_root := root, cl_next := nx\<rparr>))"

definition cl_recv_alloc :: "Client \<Rightarrow> nat option \<times> Client" where
  "cl_recv_alloc cl = (case Pool_Alloc (cl_recv_root cl, cl_next cl) of (b, root, nx) \<Rightarrow> (b, cl\<lparr>cl_recv_root := root, cl_next := nx\<rparr>))"

definition cl_send_free :: "nat \<Rightarrow> Client \<Rightarrow> Client" where
  "cl_send_free b cl = (case Pool_Free b (cl_send_root cl, cl_next cl) of (root, nx) \<Rightarrow> cl\<lparr>cl_send_root := root, cl_next := nx\<rparr>)"

definition cl_recv_free :: "nat \<Rightarrow> Client \<Rightarrow> Client" where
  "cl_recv_free b cl = (case Pool_Free b (cl_recv_root cl, cl_next cl) of (root, nx) \<Rightarrow> cl\<lparr>cl_recv_root := root, cl_next := nx\<rparr>)"

definition some_or_abort :: "'a option \<Rightarrow> 'a vprog" where
  "some_or_abort x = (case x of None \<Rightarrow> fail Assertion_failed | Some v \<Rightarrow> ret v)"

text \<open>
  The bytes of a request that are written to the send buffer; the gaps between the fields are
  copied as they are.
\<close>

definition request_image :: "Request \<Rightarrow> u8 list \<Rightarrow> u8 list option" where
  "request_image r b = map_option (take (16 + length (req_data r))) (Request_put r b)"

definition RequestAndWait :: "platform \<Rightarrow> nat \<Rightarrow> u8 list \<Rightarrow> u8 list \<Rightarrow> ReqType \<Rightarrow> Client \<Rightarrow> (nat \<times> Client) vprog" where
  "RequestAndWait P fuel k v t cl =
     thenv (assertv (length k + length v \<le> kMaxItemSize)) (
     let hash = Hash k; r = Request_New t k v hash in
     bindv (checked (GetServerByHash (cl_index cl) hash)) (\<lambda>server.
     (case cl_send_alloc cl of (sb, cl) \<Rightarrow>
     bindv (some_or_abort sb) (\<lambda>sb.
     bindv (ask (p_bytes P) (Os (Load_bytes (of_nat (buf (cl_bufs cl sb))) (buf_size (cl_bufs cl sb))))) (\<lambda>old.
     bindv (checked (request_image r old)) (\<lambda>bs.
     thenv (exec (Os (Copy_to (of_nat (buf (cl_bufs cl sb))) bs))) (
     (case cl_recv_alloc cl of (rb, cl) \<Rightarrow>
     bindv (some_or_abort rb) (\<lambda>rb.
     thenv (PostReceive P (cl_qp cl) rb (cl_bufs cl rb)) (
     bindv (PostSendAndWait P fuel (cl_qp cl) sb (cl_bufs cl sb) (of_nat (Request_Len r)) (ib_addr server) (cl_ib cl)) (\<lambda>ib.
     let cl = cl_send_free sb (cl\<lparr>cl_ib := ib\<rparr>) in
     bindv (Receive P fuel (cl_qp cl) (cl_bufs cl)) (\<lambda>(b, bufs).
     thenv (assertv (b = Some rb)) (
     ret (rb, cl\<lparr>cl_bufs := bufs\<rparr>))))))))))))))"

definition read_response :: "platform \<Rightarrow> nat \<Rightarrow> Client \<Rightarrow> Response vprog" where
  "read_response P rb cl =
     bindv (ask (p_bytes P) (Os (Load_bytes (of_nat (buf (cl_bufs cl rb))) (buf_size (cl_bufs cl rb))))) (\<lambda>bs.
     checked (MakeResponse bs))"

definition Client_Get :: "platform \<Rightarrow> nat \<Rightarrow> u8 list \<Rightarrow> Client \<Rightarrow> (u8 list \<times> Client) vprog" where
  "Client_Get P fuel k cl =
     bindv (RequestAndWait P fuel k [] GET cl) (\<lambda>(rb, cl).
     bindv (read_response P rb cl) (\<lambda>resp.
     ret (resp_val resp, cl_recv_free rb cl)))"

definition Client_Put :: "platform \<Rightarrow> nat \<Rightarrow> u8 list \<Rightarrow> u8 list \<Rightarrow> Client \<Rightarrow> (bool \<times> Client) vprog" where
  "Client_Put P fuel k v cl =
     bindv (RequestAndWait P fuel k v PUT cl) (\<lambda>(rb, cl).
     bindv (read_response P rb cl) (\<lambda>resp.
     ret (resp_status resp = Status_byte OK, cl_recv_free rb cl)))"

definition Client_Add :: "platform \<Rightarrow> nat \<Rightarrow> u8 list \<Rightarrow> u8 list \<Rightarrow> Client \<Rightarrow> (bool \<times> Client) vprog" where
  "Client_Add P fuel k v cl =
     bindv (RequestAndWait P fuel k v ADD cl) (\<lambda>(rb, cl).
     bindv (read_response P rb cl) (\<lambda>resp.
     ret (resp_status resp = Status_byte OK, cl_recv_free rb cl)))"

definition Client_Del :: "platform \<Rightarrow> nat \<Rightarrow> u8 list \<Rightarrow> Client \<Rightarrow> (bool \<times> Client) vprog" where
  "Client_Del P fuel k cl =
     bindv (RequestAndWait P fuel k [] DEL cl) (\<lambda>(rb, cl).
     bindv (read_response P rb cl) (\<lambda>resp.
     ret (resp_status resp = Status_byte OK, cl_recv_free rb cl)))"

section \<open>Routing\<close>

lemma seat_of_key:
  assumes "m < kNumTablets cfg"
  obtains i k where "i < kNumServers cfg" "k < kNumTabletsPerServer cfg" "m = CalcTabletId cfg 0 i k"
proof -
  let ?T = "kNumTabletsPerServer cfg"
  have "0 < ?T"
    using assms by (cases "?T = 0") (simp_all add: kNumTablets_def)
  then have "m mod ?T < ?T" "m div ?T < kNumServers cfg"
    using assms by (simp_all add: kNumTablets_def less_mult_imp_div_less mult.commute)
  moreover have "m = CalcTabletId cfg 0 (m div ?T) (m mod ?T)"
    by (simp add: CalcTabletId_def)
  ultimately show thesis
    using that by blast
qed

text \<open>What dispatching does when the tablet of the request is known.\<close>

definition request_hash_at :: "platform \<Rightarrow> nat \<Rightarrow> Server \<Rightarrow> history \<Rightarrow> u64" where
  "request_hash_at P b sv tr = request_hash (p_bytes P tr (Os (Load_bytes (of_nat (buf (sv_bufs sv b))) (buf_size (sv_bufs sv b)))))"

lemma Dispatch_to:
  assumes "GetTabletId (sv_index sv) (request_hash_at P b sv tr) = Some t"
  shows "fst (Dispatch P cfg b sv tr) = (case Worker_Enqueue (t mod kNumTabletAndBackupsPerServer cfg) b sv of
     None \<Rightarrow> Inl Undefined_behaviour | Some sv' \<Rightarrow> Inr (sv'\<lparr>sv_num_recv := sv_num_recv sv' + 1\<rparr>))"
  using assms by (simp add: Dispatch_def request_hash_at_def vprog_defs checked_def split: option.split)

text \<open>
  C34: In a complete index every key hash that is in range is routed consistently: the server the
  client sends the request to holds the master tablet \<open>t\<close> of the key as its \<open>k\<close>-th tablet, the
  number \<open>k\<close> is that of a worker, and a server with this index that receives a request with the
  key hash puts it into the queue of worker \<open>k\<close>.
\<close>

theorem routing_correct:
  assumes "wf_index nvds_config im" "\<forall>i<kNumServers nvds_config. \<forall>k<kNumTabletsPerServer nvds_config. wired nvds_config im i k"
    and "\<forall>i<kNumServers nvds_config. info_id (im_servers im ! i) = i"
    and "GetTabletId im h = Some t"
  shows "\<exists>i si k. i < kNumServers nvds_config \<and> GetServerByHash im h = Some si \<and> info_id si = i
    \<and> \<not> is_backup (im_tablets im ! t) \<and> server_id (im_tablets im ! t) = i
    \<and> k < kNumTabletsPerServer nvds_config \<and> tablets si ! k = t
    \<and> (\<forall>P b sv tr. sv_index sv = im \<and> request_hash_at P b sv tr = h \<longrightarrow>
         fst (Dispatch P nvds_config b sv tr) = (case Worker_Enqueue k b sv of
           None \<Rightarrow> Inl Undefined_behaviour | Some sv' \<Rightarrow> Inr (sv'\<lparr>sv_num_recv := sv_num_recv sv' + 1\<rparr>)))"
proof -
  let ?c = nvds_config
  obtain m where m: "m < kNumTablets ?c" "t = key_tablet_map im ! m"
    using assms(1,4) by (auto simp: GetTabletId_def array_get_def wf_index_def split: if_splits)
  obtain i k where ik: "i < kNumServers ?c" "k < kNumTabletsPerServer ?c" "m = CalcTabletId ?c 0 i k"
    using seat_of_key [OF m(1)] .
  have w: "wired ?c im i k"
    using assms(2) ik by blast
  then have t: "t = CalcTabletId ?c i 0 k" "\<not> is_backup (im_tablets im ! t)" "server_id (im_tablets im ! t) = i"
    "tablets (im_servers im ! i) ! k = t"
    by (simp_all add: wired_def Let_def m(2) ik(3))
  have k: "t mod kNumTabletAndBackupsPerServer ?c = k"
    using CalcTabletId_split(2) [of 0 ?c k i] ik(2) by (simp add: t(1)) (simp add: CalcTabletId_def)
  have "GetTablet im t = Some (im_tablets im ! t)"
    using CalcTabletId_less [OF ik(1), of 0 k] ik(2) assms(1) by (simp add: GetTablet_def wf_index_def t(1))
  then have "GetServerByHash im h = Some (im_servers im ! i)"
    using assms(1,3,4) ik(1) t(3) by (simp add: GetServerByHash_def GetServerId_def GetTabletByHash_def GetServer_def wf_index_def)
  moreover have "fst (Dispatch P ?c b sv tr) = (case Worker_Enqueue k b sv of
      None \<Rightarrow> Inl Undefined_behaviour | Some sv' \<Rightarrow> Inr (sv'\<lparr>sv_num_recv := sv_num_recv sv' + 1\<rparr>))"
    if "sv_index sv = im" "request_hash_at P b sv tr = h" for P b sv tr
    using Dispatch_to [of sv P b tr t ?c] that assms(4) by (simp add: k)
  ultimately show ?thesis
    using ik t assms(3) by (intro exI [of _ i] exI [of _ "im_servers im ! i"] exI [of _ k]) simp
qed

theorem routing_correct_witness:
  "GetTabletId pair_index 0 = Some 0 \<and> (\<exists>si k. GetServerByHash pair_index 0 = Some si \<and> k < 1 \<and> tablets si ! k = 0)"
proof -
  have n: "kNumReplicas nvds_config = 1" "kNumServers nvds_config = 2" "kNumTabletsPerServer nvds_config = 1"
    by (simp_all add: nvds_config_def)
  have c: "CalcTabletId nvds_config i j k = 2 * i + j + k" for i j k
    by (simp add: CalcTabletId_def kNumTabletAndBackupsPerServer_def n)
  have wf: "wf_index nvds_config pair_index"
    by (simp add: wf_index_def pair_index_def pair_tablet_def kNumTablets_def kNumTabletAndBackups_def kNumTabletAndBackupsPerServer_def n)
  have "wired nvds_config pair_index 0 0" "wired nvds_config pair_index 1 0"
    by (simp_all add: wired_def c n pair_index_def pair_tablet_def master_def Let_def)
  then have wi: "\<forall>i<kNumServers nvds_config. \<forall>k<kNumTabletsPerServer nvds_config. wired nvds_config pair_index i k"
    by (simp add: n less_2_cases_iff)
  have id: "\<forall>i<kNumServers nvds_config. info_id (im_servers pair_index ! i) = i"
    by (simp add: n less_2_cases_iff pair_index_def)
  have g: "GetTabletId pair_index 0 = Some 0"
    by (simp add: GetTabletId_def to_double_def excess_bits.simps pair_index_def)
  show ?thesis
    using routing_correct [OF wf wi id g] g n(3) by auto
qed

section \<open>Buffers of the client\<close>

text \<open>The two pools of a client hold the buffers \<open>R\<close> for receiving and \<open>S\<close> for sending.\<close>

definition cl_pools :: "Client \<Rightarrow> nat list \<Rightarrow> nat list \<Rightarrow> bool" where
  "cl_pools cl R S \<longleftrightarrow> pool_list (cl_recv_root cl, cl_next cl) R \<and> pool_list (cl_send_root cl, cl_next cl) S \<and> set R \<inter> set S = {}"

lemma some_or_abort_Inr: "some_or_abort x tr = (Inr y, tr') \<longleftrightarrow> x = Some y \<and> tr' = tr"
  by (auto simp: some_or_abort_def ret_def fail_def split: option.splits)

lemmas client_Inr = run_Inr some_or_abort_Inr

lemma cl_send_alloc_pools:
  assumes "cl_pools cl R S" "cl_send_alloc cl = (Some b, cl')"
  obtains S' where "S = b # S'" "cl_pools cl' R S'" "b \<notin> set S'" "b \<notin> set R"
proof -
  obtain r nx where e: "Pool_Alloc (cl_send_root cl, cl_next cl) = (Some b, r, nx)" "cl' = cl\<lparr>cl_send_root := r, cl_next := nx\<rparr>"
    using assms(2) by (auto simp: cl_send_alloc_def split: prod.splits)
  have pl: "pool_list (cl_send_root cl, cl_next cl) S"
    using assms(1) by (simp add: cl_pools_def)
  show thesis
    using Pool_Alloc_list [OF pl] e pl assms(1)
    by (cases S) (auto simp: cl_pools_def pool_list_def intro!: that)
qed

lemma cl_recv_alloc_pools:
  assumes "cl_pools cl R S" "cl_recv_alloc cl = (Some b, cl')"
  obtains R' where "R = b # R'" "cl_pools cl' R' S" "b \<notin> set R'" "b \<notin> set S"
proof -
  obtain r nx where e: "Pool_Alloc (cl_recv_root cl, cl_next cl) = (Some b, r, nx)" "cl' = cl\<lparr>cl_recv_root := r, cl_next := nx\<rparr>"
    using assms(2) by (auto simp: cl_recv_alloc_def split: prod.splits)
  have pl: "pool_list (cl_recv_root cl, cl_next cl) R"
    using assms(1) by (simp add: cl_pools_def)
  show thesis
    using Pool_Alloc_list [OF pl] e pl assms(1)
    by (cases R) (auto simp: cl_pools_def pool_list_def intro!: that)
qed

lemma cl_free_pools:
  assumes "cl_pools cl R S" "b \<notin> set R" "b \<notin> set S"
  shows "cl_pools (cl_send_free b cl) R (b # S)" "cl_pools (cl_recv_free b cl) (b # R) S"
  using assms Pool_Free_list [of "(cl_send_root cl, cl_next cl)" S b] Pool_Free_list [of "(cl_recv_root cl, cl_next cl)" R b]
  by (simp_all add: cl_pools_def cl_send_free_def cl_recv_free_def Pool_Free_def pool_list_def chain_upd)

lemma cl_pools_fields [simp]: "cl_pools (cl\<lparr>cl_ib := ib\<rparr>) R S = cl_pools cl R S" "cl_pools (cl\<lparr>cl_bufs := bs\<rparr>) R S = cl_pools cl R S"
  by (simp_all add: cl_pools_def)

lemma RequestAndWait_pools:
  assumes p: "cl_pools cl R S" and run: "RequestAndWait P fuel k v t cl tr = (Inr (rb, cl'), tr')"
  shows "\<exists>R'. R = rb # R' \<and> cl_pools cl' R' S \<and> rb \<notin> set R' \<and> rb \<notin> set S"
proof -
  obtain so cl1 where s: "cl_send_alloc cl = (so, cl1)"
    by fastforce
  obtain ro cl2 where r: "cl_recv_alloc cl1 = (ro, cl2)"
    by fastforce
  obtain sb ib bufs where "so = Some sb" "ro = Some rb" and cl': "cl' = (cl_send_free sb (cl2\<lparr>cl_ib := ib\<rparr>))\<lparr>cl_bufs := bufs\<rparr>"
    using run unfolding RequestAndWait_def Let_def by (auto simp: client_Inr s r)
  then have a: "cl_send_alloc cl = (Some sb, cl1)" "cl_recv_alloc cl1 = (Some rb, cl2)"
    using s r by simp_all
  obtain S' where S: "S = sb # S'" "cl_pools cl1 R S'" "sb \<notin> set S'" "sb \<notin> set R"
    by (rule cl_send_alloc_pools [OF p a(1)])
  obtain R' where R: "R = rb # R'" "cl_pools cl2 R' S'" "rb \<notin> set R'" "rb \<notin> set S'"
    by (rule cl_recv_alloc_pools [OF S(2) a(2)])
  have "cl_pools cl' R' S"
    using cl_free_pools(1) [of "cl2\<lparr>cl_ib := ib\<rparr>" R' S' sb] R S by (simp add: cl')
  then show ?thesis
    using R S by auto
qed

text \<open>
  C35: No operation of a client leaks or duplicates a buffer: on whatever platform it returns,
  both pools hold the same buffers in the same order as before.
\<close>

theorem client_keeps_buffers:
  assumes "cl_pools cl R S"
    and "Client_Get P fuel k cl tr = (Inr (x, cl'), tr') \<or> Client_Put P fuel k v cl tr = (Inr (y, cl'), tr')
      \<or> Client_Add P fuel k v cl tr = (Inr (y, cl'), tr') \<or> Client_Del P fuel k cl tr = (Inr (y, cl'), tr')"
  shows "cl_pools cl' R S"
proof -
  obtain rb cl1 t v' tr1 where r: "RequestAndWait P fuel k v' t cl tr = (Inr (rb, cl1), tr1)" "cl' = cl_recv_free rb cl1"
    using assms(2) unfolding Client_Get_def Client_Put_def Client_Add_def Client_Del_def
    by (fastforce simp: client_Inr split: prod.splits)
  obtain R' where "R = rb # R'" "cl_pools cl1 R' S" "rb \<notin> set R'" "rb \<notin> set S"
    using RequestAndWait_pools [OF assms(1) r(1)] by blast
  then show ?thesis
    using cl_free_pools(2) r(2) by simp
qed

text \<open>A client of a platform that answers every request with a successful response from receive buffer 7.\<close>

definition answering :: platform where
  "answering = good_platform\<lparr>p_bytes := (\<lambda>tr c. replicate 2176 0)\<rparr>"

definition sample_client :: Client where
  "sample_client = \<lparr>cl_index = pair_index, cl_ib = sample_ib, cl_bufs = (\<lambda>_. blank_buffer\<lparr>buf_size := 1152\<rparr>),
     cl_next = (\<lambda>_. None), cl_send_root = Some 3, cl_recv_root = Some 7,
     cl_qp = \<lparr>qp_type = IBV_QPT_UD, qp_ptr = 9, scq = 10, rcq = 11, psn = 33\<rparr>\<rparr>"

theorem client_keeps_buffers_witness:
  "\<exists>k x cl' tr'. Client_Get answering 1 k sample_client [] = (Inr (x, cl'), tr') \<and> cl_pools cl' [7] [3]"
proof -
  obtain k where k: "length k = 8" "Hash k = 0"
    using Hash_surj by blast
  have h: "GetServerByHash pair_index 0 = Some (im_servers pair_index ! 0)"
    by (simp add: GetServerByHash_def GetServerId_def GetTabletByHash_def GetTabletId_def to_double_def excess_bits.simps
        pair_index_def GetTablet_def GetServer_def pair_tablet_def)
  obtain bs where i: "request_image (Request_New GET k [] 0) (replicate 2176 0) = Some bs"
    using k by (simp add: request_image_def Request_put_def Request_New_def)
  have m: "MakeResponse (replicate 2176 0) = Some \<lparr>resp_type = 0, resp_status = 0, resp_val_len = 0, resp_val = []\<rparr>"
    by (simp add: MakeResponse_def Let_def kIBUDPadding_def numeral_2_eq_2)
  have p: "cl_pools sample_client [7] [3]"
    by (simp add: cl_pools_def sample_client_def pool_list_def)
  obtain x cl' tr' where g: "Client_Get answering 1 k sample_client [] = (Inr (x, cl'), tr')"
    by (simp add: Client_Get_def RequestAndWait_def read_response_def k h i m kMaxItemSize_def Let_def sample_client_def answering_def
        good_platform_def good_wc_def vprog_defs checked_def some_or_abort_def cl_send_alloc_def cl_recv_alloc_def Pool_Alloc_def
        cl_send_free_def Pool_Free_def PostReceive_def PostSendAndWait_def PostSend_def GetAddrHandler_def Receive_def TryReceive_def
        PollCQ_def sample_ib_def)
  show ?thesis
    using client_keeps_buffers [OF p disjI1 [OF g]] g by blast
qed

end
