(* ===== verification/Cluster.thy ===== *)
theory Cluster
  imports Client
begin

text \<open>
  How the index travels: the coordinator turns it into JSON and sends it, the servers and clients
  parse it. They all end up with the index of the coordinator, and each server with its number.
\<close>

section \<open>The index in a reply\<close>

lemma index_arrives:
  assumes "json_laws L" "fits_IndexManager im" "\<forall>ti\<in>set (old # im_tablets im). length (backups ti) = 1"
  shows "from_json_IndexManager L old (to_json_IndexManager L im) = Some im"
  using index_roundtrip [OF assms(1,2)] assms(3) by blast

lemma json_or_throw_Inr: "json_or_throw x tr = (Inr y, tr') \<longleftrightarrow> x = Some y \<and> tr' = tr"
  by (auto simp: json_or_throw_def ret_def fail_def split: option.splits)

text \<open>Connecting the tablets changes nothing else of the server.\<close>

lemma join_tablet_keep:
  "join_tablet P cfg si i sv tr = (Inr sv', tr') \<Longrightarrow> \<exists>ts. sv' = sv\<lparr>sv_tablets := ts\<rparr>"
  by (auto simp: join_tablet_def run_Inr)

lemma join_tablets_keep:
  "forv is (join_tablet P cfg si) sv tr = (Inr sv', tr') \<Longrightarrow> \<exists>ts. sv' = sv\<lparr>sv_tablets := ts\<rparr>"
proof (induction "is" arbitrary: sv tr)
  case Nil
  then show ?case
    by (auto simp: ret_Inr intro: exI [of _ "sv_tablets sv'"])
next
  case (Cons i "is")
  then obtain sv1 tr1 where "join_tablet P cfg si i sv tr = (Inr sv1, tr1)" and "forv is (join_tablet P cfg si) sv1 tr1 = (Inr sv', tr')"
    by (auto simp: run_Inr)
  from join_tablet_keep [OF this(1)] Cons.IH [OF this(2)] show ?case
    by auto
qed

lemma at_nat_num:
  assumes "json_laws L" "n < 2 ^ 32" "distinct (map fst ((k, json_num L (int n)) # kvs))"
  shows "at_nat L (json_obj L ((k, json_num L (int n)) # kvs)) k = Some n"
  using assms(2) json_lawsD(5) [OF assms(1,3), of k] by (simp add: at_nat_def nat_value_def json_lawsD [OF assms(1)])

lemma join_accept_index:
  assumes "env_laws E" "fits_IndexManager im" "\<forall>ti\<in>set (old # im_tablets im). length (backups ti) = 1" "i < 2 ^ 32"
    and "join_accept P cfg E old (reply E [(''id'', json_num (jlib E) (int i)), (''index_manager'', to_json_IndexManager (jlib E) im)]) sv tr = (Inr sv', tr')"
  shows "sv_id sv' = i \<and> sv_index sv' = im \<and> sv_active sv'"
proof -
  have L: "json_laws (jlib E)" and pd: "\<And>j. json_parse E (json_dump E j) = Some j"
    using assms(1) by (simp_all add: env_laws_def)
  show ?thesis
    using assms(5) index_arrives [OF L assms(2,3)]
    by (auto simp: join_accept_def reply_def make_Message_def run_Inr json_or_throw_Inr checked_Inr pd at_nat_num [OF L assms(4)]
        json_lawsD [OF L] Let_def dest!: join_tablets_keep)
qed

lemma Client_Join_index:
  assumes "env_laws E" "fits_IndexManager im" "\<forall>ti\<in>set (old # im_tablets im). length (backups ti) = 1"
    and "SendMessage wr (make_Message \<lparr>sender_type = sender_code CLIENT, msg_type = type_code REQ_JOIN, body_len = 0\<rparr>
             (json_dump E (json_null (jlib E)))) c = Some c1"
    and "RecvMessage rd c1 = Some (reply E [(''index_manager'', to_json_IndexManager (jlib E) im)], c2)"
  shows "Client_Join E old rd wr c tr = (Inr (im, c2), tr)"
proof -
  have L: "json_laws (jlib E)" and pd: "\<And>j. json_parse E (json_dump E j) = Some j"
    using assms(1) by (simp_all add: env_laws_def)
  show ?thesis
    using assms(4,5) index_arrives [OF L assms(2,3)]
    by (simp add: Client_Join_def reply_def make_Message_def json_or_throw_def pd json_lawsD [OF L] vprog_defs)
qed

section \<open>Everybody has the same index\<close>

definition client_join_msg :: "('s, 'j) coord_env \<Rightarrow> Message" where
  "client_join_msg E = make_Message \<lparr>sender_type = sender_code CLIENT, msg_type = type_code REQ_JOIN, body_len = 0\<rparr>
     (json_dump E (json_null (jlib E)))"

text \<open>
  C22: With one replica, as configured (every tablet of the index, and the one a parsed tablet is
  read into, has exactly one backup slot; with more only the first arrives), and an index whose
  numbers fit their fields, the whole cluster works with the index of the coordinator. A server
  that receives one of the replies the coordinator sends when the last server has joined, and
  returns from \<^verbatim>\<open>Join\<close>, has the number of its session, is active and has exactly that index; and a
  client that joins from then on, with the JSON null as its body, is answered and, when it receives
  that answer, gets the same one.
\<close>

theorem index_distributed:
  assumes "env_laws E" "fits_IndexManager (index_manager st)" "\<forall>ti\<in>set (old # im_tablets (index_manager st)). length (backups ti) = 1"
    and "kNumServers cfg < 2 ^ 32" "num_servers st = kNumServers cfg"
    and "ResponseAllJoins cfg E st = Some (st', out)" "Async_send s msg \<in> set out"
    and "join_qpis cfg sv = Some qs" "SendMessage wr (join_request E (sv_nvm_size sv) (sv_addr sv) qs) c = Some c1"
    and "RecvMessage rd c1 = Some (msg, c2)" "Server_Join P cfg E old rd wr (Some c) sv tr = (Inr (ok, sv'), tr')"
  shows "(\<exists>i<kNumServers cfg. s = sessions st ! i \<and> ok \<and> sv_id sv' = i \<and> sv_active sv' \<and> sv_index sv' = index_manager st)
    \<and> (\<exists>msg'. Coordinator_HandleRecvMessage cfg E s' (client_join_msg E) st' = Some (st', [Async_send s' msg'])
        \<and> (SendMessage wr' (client_join_msg E) d = Some d1 \<and> RecvMessage rd' d1 = Some (msg', d2) \<longrightarrow>
             Client_Join E old rd' wr' d tr0 = (Inr (index_manager st, d2), tr0)))"
proof (intro conjI)
  have len: "length (sessions st) = kNumServers cfg" and st': "st' = st\<lparr>sessions := []\<rparr>"
    using assms(6) by (auto simp: ResponseAllJoins_def Let_def split: bind_splits if_splits)
  obtain i where i: "i < kNumServers cfg" "s = sessions st ! i"
    "msg = reply E [(''id'', json_num (jlib E) (int i)), (''index_manager'', to_json_IndexManager (jlib E) (index_manager st))]"
    using assms(6,7) len by (auto simp: ResponseAllJoins_def Let_def split: bind_splits if_splits)
  obtain tr1 where "join_accept P cfg E old msg sv tr1 = (Inr sv', tr')" "ok"
    using assms(8-11) by (auto simp: Server_Join_def run_Inr)
  then show "\<exists>i<kNumServers cfg. s = sessions st ! i \<and> ok \<and> sv_id sv' = i \<and> sv_active sv' \<and> sv_index sv' = index_manager st"
    using join_accept_index [OF assms(1-3), of i P cfg sv tr1 sv' tr'] i assms(4) by auto
  show "\<exists>msg'. Coordinator_HandleRecvMessage cfg E s' (client_join_msg E) st' = Some (st', [Async_send s' msg'])
        \<and> (SendMessage wr' (client_join_msg E) d = Some d1 \<and> RecvMessage rd' d1 = Some (msg', d2) \<longrightarrow>
             Client_Join E old rd' wr' d tr0 = (Inr (index_manager st, d2), tr0))"
    using Client_Join_index [OF assms(1-3), of wr' d d1 rd' d2 tr0] assms(5)
    by (simp add: client_join_msg_def Coordinator_HandleRecvMessage_def HandleMessageFromClient_def HandleClientRequestJoin_def st'
        make_Message_def)
qed

text \<open>A connection on which the pieces of one message wait to be read.\<close>

definition piece_read :: "nat \<Rightarrow> u8 list list \<Rightarrow> (u8 list \<times> u8 list list) option" where
  "piece_read n c = (case c of [] \<Rightarrow> None | p # ps \<Rightarrow> Some (p, ps))"

definition piece_write :: "u8 list \<Rightarrow> u8 list list \<Rightarrow> u8 list list option" where
  "piece_write bs c = Some c"

definition full_coordinator :: "nat Coordinator" where
  "full_coordinator = \<lparr>num_servers = 2, total_storage = 0, index_manager = pair_index, sessions = [0, 1], next_server_id = 2\<rparr>"

definition joining_server :: Server where
  "joining_server = \<lparr>sv_id = 0, sv_active = False, sv_nvm_size = 0, sv_nvm = 4096, sv_index = blank_index, sv_ib = sample_ib,
     sv_addr = blank_address, sv_bufs = (\<lambda>_. blank_buffer), sv_next = (\<lambda>_. None), sv_send_root = None, sv_recv_root = None,
     sv_qp = \<lparr>qp_type = IBV_QPT_UD, qp_ptr = 9, scq = 10, rcq = 11, psn = 33\<rparr>,
     sv_queues = [WorkQueue_init], sv_tablets = [sample_handle, sample_handle], sv_heaps = [zero_tablet, zero_tablet], sv_num_recv = 0\<rparr>"

definition second_reply :: Message where
  "second_reply = reply byte_env [(''id'', json_num (jlib byte_env) (int 1)),
     (''index_manager'', to_json_IndexManager (jlib byte_env) pair_index)]"

lemma pair_index_fits:
  "fits_IndexManager pair_index" "\<forall>ti\<in>set (pair_tablet 0 0 False 0 # im_tablets pair_index). length (backups ti) = 1"
  by (simp_all add: fits_IndexManager_def fits_TabletInfo_def fits_ServerInfo_def fits_Address_def pair_index_def pair_tablet_def blank_address_def)

lemma connect_good:
  assumes "qp_type qp = IBV_QPT_RC"
  shows "\<exists>tr'. SetStateRTR good_platform qp p tr = (Inr (), tr')" "\<exists>tr'. SetStateRTS good_platform qp p tr = (Inr (), tr')"
  using assms by (simp_all add: SetStateRTS_def SetStateRTR_def GetState_def vprog_defs good_platform_def qp_attr0_def)

lemma join_full:
  "\<exists>sv' tr'. forv [0..<2] (join_tablet good_platform nvds_config (im_servers pair_index ! 1))
     (joining_server\<lparr>sv_id := 1, sv_index := pair_index, sv_active := True\<rparr>) tr = (Inr sv', tr')"
proof -
  have u: "[0..<2] = [0, 1::nat]"
    by (simp add: upt_rec)
  let ?q = "\<lparr>qp_type = IBV_QPT_RC, qp_ptr = 9, scq = 10, rcq = 11, psn = 33\<rparr>"
  obtain tr1 where 1: "SetStateRTS good_platform ?q (sample_peer\<lparr>qpi_qpn := 1\<rparr>) tr = (Inr (), tr1)"
    using connect_good(2) [of ?q] by fastforce
  obtain tr2 where 2: "SetStateRTR good_platform ?q (sample_peer\<lparr>qpi_qpn := 0\<rparr>) tr1 = (Inr (), tr2)"
    using connect_good(1) [of ?q] by fastforce
  show ?thesis
    using 1 2 by (simp add: u join_tablet_def SettingupQPConnect_def connect_backup_def GetTablet_def pair_index_def pair_tablet_def
        joining_server_def sample_handle_def nvds_config_def find_replica.simps checked_def bindv_def thenv_def ret_def assertv_def
        master_def Let_def array_get_def)
qed

theorem index_distributed_witness:
  "\<exists>sv' tr'. Server_Join good_platform nvds_config byte_env (pair_tablet 0 0 False 0) piece_read piece_write
       (Some [header_bytes (header second_reply), body second_reply]) joining_server [] = (Inr (True, sv'), tr')
     \<and> sv_id sv' = 1 \<and> sv_active sv' \<and> sv_index sv' = pair_index"
proof -
  let ?old = "pair_tablet 0 0 False 0" and ?c = "[header_bytes (header second_reply), body second_reply]"
  obtain st' out where st: "ResponseAllJoins nvds_config byte_env full_coordinator = Some (st', out)" "Async_send 1 second_reply \<in> set out"
    by (simp add: ResponseAllJoins_def full_coordinator_def nvds_config_def second_reply_def upt_rec Let_def)
  have send: "SendMessage piece_write m c = Some c" for m c
    by (simp add: SendMessage_def piece_write_def)
  have recv: "RecvMessage piece_read ?c = Some (second_reply, [])"
    by (simp add: RecvMessage_def piece_read_def codec_header.dec_enc)
  obtain qs where qs: "join_qpis nvds_config joining_server = Some qs"
    by (simp add: join_qpis_def joining_server_def nvds_config_def kNumTabletAndBackupsPerServer_def sample_handle_def sample_backup_def upt_rec array_get_def)
  have "\<exists>sv' tr'. join_accept good_platform nvds_config byte_env ?old second_reply joining_server [] = (Inr sv', tr')"
  proof -
    have L: "json_laws (jlib byte_env)" and pd: "\<And>j. json_parse byte_env (json_dump byte_env j) = Some j"
      using byte_env_laws by (simp_all add: env_laws_def)
    have g: "GetServer pair_index 1 = Some (im_servers pair_index ! 1)" "kNumTabletAndBackupsPerServer nvds_config = 2"
      by (simp_all add: GetServer_def pair_index_def nvds_config_def kNumTabletAndBackupsPerServer_def array_get_def)
    show ?thesis
      using join_full [of "[]"] index_arrives [OF L pair_index_fits] at_nat_num [OF L, of 1 "''id''"] g
      by (simp add: join_accept_def second_reply_def reply_def make_Message_def pd json_lawsD [OF L] json_or_throw_def checked_def
          bindv_def thenv_def ret_def assertv_def Let_def)
  qed
  then obtain sv' tr' where j: "Server_Join good_platform nvds_config byte_env ?old piece_read piece_write (Some ?c) joining_server [] = (Inr (True, sv'), tr')"
    by (auto simp: Server_Join_def qs send recv checked_def bindv_def ret_def)
  have "\<exists>i<2. (1::nat) = [0, 1] ! i \<and> sv_id sv' = i \<and> sv_active sv' \<and> sv_index sv' = pair_index"
    using index_distributed [OF byte_env_laws _ _ _ _ st qs send recv j, THEN conjunct1] pair_index_fits
    by (simp add: full_coordinator_def nvds_config_def)
  then show ?thesis
    using j by (auto simp: less_2_cases_iff)
qed

end
