(* ===== verification/Exp_Common.thy ===== *)
theory Exp_Common
  imports Verbs
begin

text \<open>
  What the benchmark programs under \<^verbatim>\<open>src/experiments\<close> share, as \<^verbatim>\<open>write_rc.h\<close> and \<^verbatim>\<open>write_rc.c\<close>
  have it: the context and the connection data, the exchange of connection data over a socket,
  and the states of a connected queue pair. The structures are those of the headers of all the
  programs; a printed line has no effect in the model. \<^verbatim>\<open>nvds_expect\<close> exits the program, as does
  \<^verbatim>\<open>exit(0)\<close> at its end.
\<close>

section \<open>Data\<close>

text \<open>The functions that another file repeats word for word are defined by the first one.\<close>

named_theorems copy_defs

record nvds_ib_connection =
  c_lid :: u32
  c_qpn :: u32
  c_psn :: u32
  c_rkey :: u32
  c_vaddr :: u64

record nvds_context =
  x_context :: nat
  x_pd :: nat
  x_mr :: nat
  x_rcq :: nat
  x_scq :: nat
  x_qp :: nat
  x_buf :: nat
  x_size :: nat
  x_tx_depth :: nat
  x_wr :: send_wr

record nvds_data =
  d_port :: nat
  d_ib_port :: nat
  d_size :: nat
  d_tx_depth :: nat
  d_server_name :: "string option"
  d_local :: nvds_ib_connection
  d_remote :: nvds_ib_connection

definition RDMA_WRITE_ID :: u64 where
  "RDMA_WRITE_ID = 3"

definition RDMA_MAX_LEN :: nat where
  "RDMA_MAX_LEN = 128 * 1024"

definition conn0 :: nvds_ib_connection where
  "conn0 = \<lparr>c_lid = 0, c_qpn = 0, c_psn = 0, c_rkey = 0, c_vaddr = 0\<rparr>"

definition wr0 :: send_wr where
  "wr0 = \<lparr>wr_id = 0, sg_list = [], opcode = IBV_WR_RDMA_WRITE, send_flags = {}, dest = No_dest\<rparr>"

definition context0 :: nvds_context where
  "context0 = \<lparr>x_context = 0, x_pd = 0, x_mr = 0, x_rcq = 0, x_scq = 0, x_qp = 0, x_buf = 0, x_size = 0, x_tx_depth = 0, x_wr = wr0\<rparr>"

text \<open>The initial data of every \<^verbatim>\<open>main\<close>; a server name makes it a client.\<close>

definition data0 :: "string option \<Rightarrow> nvds_data" where
  "data0 server = \<lparr>d_port = 5500, d_ib_port = 1, d_size = RDMA_MAX_LEN, d_tx_depth = 100, d_server_name = server,
     d_local = conn0, d_remote = conn0\<rparr>"

text \<open>The image of a connection in memory, which is what goes over the socket.\<close>

definition conn_bytes :: "nvds_ib_connection \<Rightarrow> u8 list" where
  "conn_bytes c = le_bytes 4 (c_lid c) @ le_bytes 4 (c_qpn c) @ le_bytes 4 (c_psn c) @ le_bytes 4 (c_rkey c) @ le_bytes 8 (c_vaddr c)"

definition conn_of :: "u8 list \<Rightarrow> nvds_ib_connection" where
  "conn_of bs = \<lparr>c_lid = word_of_le (take 4 bs), c_qpn = word_of_le (take 4 (drop 4 bs)), c_psn = word_of_le (take 4 (drop 8 bs)),
     c_rkey = word_of_le (take 4 (drop 12 bs)), c_vaddr = word_of_le (take 8 (drop 16 bs))\<rparr>"

interpretation codec_conn: byte_codec conn_bytes conn_of 24
  by unfold_locales (simp_all add: conn_bytes_def conn_of_def codec_u32.dec_enc codec_u64.dec_enc)

section \<open>The states of a connected queue pair\<close>

definition nvds_set_qp_state_init :: "platform \<Rightarrow> nat \<Rightarrow> nvds_data \<Rightarrow> unit vprog" where
  "nvds_set_qp_state_init P qp data =
     bindv (ask (p_int P) (Modify_qp qp
              (qp_attr0\<lparr>qp_state := IBV_QPS_INIT, pkey_index := 0, port_num := d_ib_port data,
                qp_access_flags := {IBV_ACCESS_LOCAL_WRITE, IBV_ACCESS_REMOTE_READ, IBV_ACCESS_REMOTE_WRITE}\<rparr>)
              {IBV_QP_STATE, IBV_QP_PKEY_INDEX, IBV_QP_PORT, IBV_QP_ACCESS_FLAGS})) (\<lambda>err.
     nvds_expect (err = 0) ''ibv_modify_qp() failed'')"

definition nvds_set_qp_state_rtr :: "platform \<Rightarrow> nat \<Rightarrow> nvds_data \<Rightarrow> unit vprog" where
  "nvds_set_qp_state_rtr P qp data =
     bindv (ask (p_int P) (Modify_qp qp
              (qp_attr0\<lparr>qp_state := IBV_QPS_RTR, path_mtu := 2048, dest_qp_num := c_qpn (d_remote data),
                rq_psn := c_psn (d_remote data), max_dest_rd_atomic := 1, min_rnr_timer := 12,
                av := \<lparr>is_global = 0, dlid = ucast (c_lid (d_remote data)), sl = 1, src_path_bits = 0,
                       ah_port_num = d_ib_port data\<rparr>\<rparr>)
              {IBV_QP_STATE, IBV_QP_AV, IBV_QP_PATH_MTU, IBV_QP_DEST_QPN, IBV_QP_RQ_PSN,
               IBV_QP_MAX_DEST_RD_ATOMIC, IBV_QP_MIN_RNR_TIMER})) (\<lambda>err.
     nvds_expect (err = 0) ''ibv_modify_qp() failed'')"

definition nvds_set_qp_state_rts :: "platform \<Rightarrow> nat \<Rightarrow> nvds_data \<Rightarrow> unit vprog" where
  "nvds_set_qp_state_rts P qp data =
     thenv (nvds_set_qp_state_rtr P qp data) (
     bindv (ask (p_int P) (Modify_qp qp
              (qp_attr0\<lparr>qp_state := IBV_QPS_RTS, qp_timeout := 14, retry_cnt := 7, rnr_retry := 7,
                sq_psn := c_psn (d_local data), max_rd_atomic := 1\<rparr>)
              {IBV_QP_STATE, IBV_QP_TIMEOUT, IBV_QP_RETRY_CNT, IBV_QP_RNR_RETRY, IBV_QP_SQ_PSN, IBV_QP_MAX_QP_RD_ATOMIC})) (\<lambda>err.
     nvds_expect (err = 0) ''ibv_modify_qp() failed''))"

section \<open>Exchanging the connection data\<close>

definition nvds_server_exch_info :: "platform \<Rightarrow> nvds_data \<Rightarrow> nvds_data vprog" where
  "nvds_server_exch_info P data =
     bindv (ask (p_int P) (Os Socket)) (\<lambda>listen_fd.
     thenv (nvds_expect (listen_fd \<ge> 0) ''socket() failed'') (
     bindv (ask (p_int P) (Os (Setsockopt listen_fd))) (\<lambda>r.
     thenv (nvds_expect (r \<noteq> - 1) ''sotsockopt() failed'') (
     bindv (ask (p_int P) (Os (Bind listen_fd (d_port data)))) (\<lambda>r.
     thenv (nvds_expect (r \<ge> 0) ''bind() failed'') (
     thenv (exec (Os (Listen listen_fd 1024))) (
     bindv (ask (p_int P) (Os (Accept listen_fd))) (\<lambda>fd.
     thenv (nvds_expect (fd \<ge> 0) ''accept() failed'') (
     bindv (ask (\<lambda>tr c. (p_int P tr c, p_bytes P tr c)) (Os (Read_sock fd 24))) (\<lambda>(len, bs).
     thenv (nvds_expect (len = 24) ''read() failed'') (
     let data = data\<lparr>d_remote := conn_of bs\<rparr> in
     bindv (ask (p_int P) (Os (Write_sock fd (conn_bytes (d_local data))))) (\<lambda>len.
     thenv (nvds_expect (len = 24) ''write() failed'') (
     thenv (exec (Os (Close fd))) (
     thenv (exec (Os (Close listen_fd))) (
     ret data)))))))))))))))"

definition nvds_client_exch_info :: "platform \<Rightarrow> nvds_data \<Rightarrow> nvds_data vprog" where
  "nvds_client_exch_info P data =
     bindv (ask (p_int P) (Os Socket)) (\<lambda>fd.
     thenv (nvds_expect (fd \<noteq> - 1) ''socket() failed'') (
     bindv (ask (p_int P) (Os (Inet_pton (case d_server_name data of Some s \<Rightarrow> s | None \<Rightarrow> '''')))) (\<lambda>r.
     thenv (nvds_expect (r = 1) ''inet_pton() failed'') (
     bindv (ask (p_int P) (Os (Connect fd (d_port data)))) (\<lambda>r.
     thenv (nvds_expect (r = 0) ''connect() failed'') (
     bindv (ask (p_int P) (Os (Write_sock fd (conn_bytes (d_local data))))) (\<lambda>len.
     thenv (nvds_expect (len = 24) ''write() failed'') (
     bindv (ask (\<lambda>tr c. (p_int P tr c, p_bytes P tr c)) (Os (Read_sock fd 24))) (\<lambda>(len, bs).
     thenv (nvds_expect (len = 24) ''read() failed'') (
     thenv (exec (Os (Close fd))) (
     ret (data\<lparr>d_remote := conn_of bs\<rparr>))))))))))))"

section \<open>Loops and clocks\<close>

definition time_diff :: "int \<times> int \<Rightarrow> int \<times> int \<Rightarrow> int" where
  "time_diff lhs rhs = (fst lhs - fst rhs) * 1000000000 + (snd lhs - snd rhs)"

text \<open>\<^verbatim>\<open>assert(clock_gettime(CLOCK_REALTIME, &t) == 0)\<close>\<close>

definition get_clock :: "platform \<Rightarrow> (int \<times> int) vprog" where
  "get_clock P = bindv (ask (\<lambda>tr c. (p_int P tr c, p_time P tr c)) (Os Clock_gettime)) (\<lambda>(r, t). thenv (assertv (r = 0)) (ret t))"

text \<open>The values of \<^verbatim>\<open>len\<close> in \<^verbatim>\<open>for (len = first; len <= last; len <<= 1)\<close>.\<close>

function lengths :: "nat \<Rightarrow> nat \<Rightarrow> nat list" where
  "lengths len bound = (if 0 < len \<and> len \<le> bound then len # lengths (2 * len) bound else [])"
  by pat_completeness auto
termination
  by (relation "measure (\<lambda>(len, bound). Suc bound - len)") auto

declare lengths.simps [simp del]

text \<open>A loop without an exit.\<close>

definition forever :: "nat \<Rightarrow> 'a vprog" where
  "forever fuel = bindv (spin fuel (ret ()) (\<lambda>_. False)) (\<lambda>_. fail Out_of_fuel)"

definition exit_0 :: "'a vprog" where
  "exit_0 = fail (Exited ''exit(0)'')"

definition nvds_init_local_ib_connection :: "platform \<Rightarrow> nvds_context \<Rightarrow> nvds_data \<Rightarrow> nvds_data vprog" where
  "nvds_init_local_ib_connection P ctx data =
     bindv (ask (\<lambda>tr c. (p_int P tr c, p_lid P tr c)) (Query_port (x_context ctx) (d_ib_port data))) (\<lambda>(r, lid).
     thenv (nvds_expect (r = 0) ''ibv_query_port() failed'') (
     ret (data\<lparr>d_local := \<lparr>c_lid = ucast lid, c_qpn = p_qp_num P (x_qp ctx), c_psn = 33, c_rkey = p_rkey P (x_mr ctx),
                            c_vaddr = of_nat (x_buf ctx)\<rparr>\<rparr>)))"

text \<open>
  The initialisation of the programs with one queue pair. They differ in its type and its first
  move, in whether the buffer is cleared and in the depth of the receive queue. The second check after the completion
  queues looks at the receive queue again, as in the source.
\<close>

definition init_ctx_with :: "platform \<Rightarrow> qp_type \<Rightarrow> (nat \<Rightarrow> nvds_data \<Rightarrow> unit vprog) \<Rightarrow> nat \<Rightarrow> bool \<Rightarrow> nat \<Rightarrow> nvds_data \<Rightarrow> nvds_context vprog" where
  "init_ctx_with P ty set_init page_size clear rdepth data =
     bindv (ask (p_ptr P) Get_device_list) (\<lambda>dev_list.
     thenv (nvds_expect (dev_list \<noteq> 0) ''ibv_get_device_list() failed'') (
     bindv (ask (p_ptr P) (Open_device dev_list)) (\<lambda>context.
     thenv (nvds_expect (context \<noteq> 0) ''ibv_open_device() failed'') (
     bindv (ask (p_ptr P) (Alloc_pd context)) (\<lambda>pd.
     thenv (nvds_expect (pd \<noteq> 0) ''ibv_alloc_pd() failed'') (
     bindv (ask (p_ptr P) (Os (Memalign page_size (d_size data)))) (\<lambda>buf.
     thenv (if clear then exec (Os (Fill (of_nat buf) (d_size data) 0)) else ret ()) (
     bindv (ask (p_ptr P) (Reg_mr pd buf (d_size data)
              {IBV_ACCESS_LOCAL_WRITE, IBV_ACCESS_REMOTE_READ, IBV_ACCESS_REMOTE_WRITE})) (\<lambda>mr.
     thenv (nvds_expect (mr \<noteq> 0) ''ibv_reg_mr() failed'') (
     bindv (ask (p_ptr P) (Create_cq context rdepth)) (\<lambda>rcq.
     thenv (nvds_expect (rcq \<noteq> 0) ''ibv_create_cq() failed'') (
     bindv (ask (p_ptr P) (Create_cq context (d_tx_depth data))) (\<lambda>scq.
     thenv (nvds_expect (rcq \<noteq> 0) ''ibv_create_cq() failed'') (
     bindv (ask (p_ptr P) (Create_qp pd
              \<lparr>init_type = ty, init_send_cq = scq, init_recv_cq = rcq, max_send_wr = d_tx_depth data,
               max_recv_wr = rdepth, max_send_sge = 1, max_recv_sge = 1, max_inline_data = 0, sq_sig_all = 0\<rparr>)) (\<lambda>qp.
     thenv (nvds_expect (qp \<noteq> 0) ''ibv_create_qp() failed'') (
     thenv (set_init qp data) (
     ret (context0\<lparr>x_context := context, x_pd := pd, x_mr := mr, x_rcq := rcq, x_scq := scq, x_qp := qp, x_buf := buf,
            x_size := d_size data, x_tx_depth := d_tx_depth data\<rparr>))))))))))))))))))"

section \<open>Sending and polling\<close>

text \<open>The work request of a write or send from the start of the buffer.\<close>

definition buf_wr :: "platform \<Rightarrow> nvds_context \<Rightarrow> nat \<Rightarrow> wr_opcode \<Rightarrow> send_flag set \<Rightarrow> wr_dest \<Rightarrow> send_wr" where
  "buf_wr P ctx len op flags d = \<lparr>wr_id = RDMA_WRITE_ID,
     sg_list = [\<lparr>sge_addr = of_nat (x_buf ctx), sge_length = of_nat len, sge_lkey = p_lkey P (x_mr ctx)\<rparr>],
     opcode = op, send_flags = flags, dest = d\<rparr>"

definition post_wr :: "platform \<Rightarrow> nvds_context \<Rightarrow> send_wr \<Rightarrow> nvds_context vprog" where
  "post_wr P ctx wr =
     bindv (ask (p_int P) (Post_send (x_qp ctx) [wr])) (\<lambda>err.
     thenv (nvds_expect (err = 0) ''ibv_post_send() failed'') (ret (ctx\<lparr>x_wr := wr\<rparr>)))"

definition nvds_poll_send :: "platform \<Rightarrow> nat \<Rightarrow> nvds_context \<Rightarrow> unit vprog" where
  "nvds_poll_send P fuel ctx =
     bindv (spin fuel (ask (\<lambda>tr c. (p_int P tr c, p_wc P tr c)) (Poll_cq (x_scq ctx) 1)) (\<lambda>(r, _). r = 1)) (\<lambda>(_, wc).
     thenv (nvds_expect (wc_status wc = 0) ''rdma write failed'') (
     nvds_expect (wc_id wc = wr_id (x_wr ctx)) ''wr id not matched''))"

section \<open>Programs that do not touch queue pairs\<close>

text \<open>A quiet program makes only calls that neither create, move nor use a queue pair.\<close>

definition quiet :: "'a vprog \<Rightarrow> bool" where
  "quiet m \<longleftrightarrow> (\<forall>tr r tr'. m tr = (r, tr') \<longrightarrow> (\<exists>cs. tr' = cs @ tr \<and> list_all neutral cs))"

named_theorems quiet_intros

lemma quiet_ret [quiet_intros]: "quiet (ret x)"
  by (auto simp: quiet_def ret_def)

lemma quiet_fail [quiet_intros]: "quiet (fail e)"
  by (auto simp: quiet_def fail_def)

lemma quiet_ask [quiet_intros]: "neutral c \<Longrightarrow> quiet (ask f c)"
  by (auto simp: quiet_def ask_def intro: exI [of _ "[c]"])

lemma quiet_exec [quiet_intros]: "neutral c \<Longrightarrow> quiet (exec c)"
  unfolding exec_def by (rule quiet_ask)

lemma quiet_bind [quiet_intros]:
  assumes "quiet m" "\<And>x. quiet (f x)"
  shows "quiet (bindv m f)"
  unfolding quiet_def
proof (intro allI impI)
  fix tr r tr'
  assume run: "bindv m f tr = (r, tr')"
  obtain r1 tr1 where m: "m tr = (r1, tr1)"
    by fastforce
  obtain cs where cs: "tr1 = cs @ tr" "list_all neutral cs"
    using assms(1) m unfolding quiet_def by blast
  show "\<exists>cs. tr' = cs @ tr \<and> list_all neutral cs"
  proof (cases r1)
    case (Inl e)
    then show ?thesis
      using run m cs by (auto simp: bindv_def)
  next
    case (Inr x)
    then have "f x tr1 = (r, tr')"
      using run m by (simp add: bindv_def)
    then obtain ds where "tr' = ds @ tr1" "list_all neutral ds"
      using assms(2) unfolding quiet_def by blast
    then show ?thesis
      using cs by (intro exI [of _ "ds @ cs"]) simp
  qed
qed

lemma quiet_then [quiet_intros]: "quiet m \<Longrightarrow> quiet n \<Longrightarrow> quiet (thenv m n)"
  unfolding thenv_def by (intro quiet_bind)

lemma quiet_expect [quiet_intros]: "quiet (nvds_expect b msg)" "quiet (assertv b)"
  by (simp_all add: nvds_expect_def assertv_def quiet_ret quiet_fail)

lemma quiet_spin [quiet_intros]: "quiet m \<Longrightarrow> quiet (spin n m ready)"
  by (induction n) (auto intro!: quiet_intros)

lemma quiet_if [quiet_intros]: "(b \<Longrightarrow> quiet m) \<Longrightarrow> (\<not> b \<Longrightarrow> quiet n) \<Longrightarrow> quiet (if b then m else n)"
  by simp

lemma quiet_prod [quiet_intros]: "(\<And>x y. quiet (f x y)) \<Longrightarrow> quiet (case p of (x, y) \<Rightarrow> f x y)"
  by (cases p) simp

lemma quiet_let [quiet_intros]: "quiet (f x) \<Longrightarrow> quiet (Let x f)"
  by simp

lemma neutral_list:
  assumes "list_all neutral cs"
  shows "legal ty P (cs @ tr) = legal ty P tr \<and> qp_at P (cs @ tr) q = qp_at P tr q"
  using assms by (induction cs) (simp_all add: neutral_keeps del: legal.simps qp_at.simps)

lemma quiet_legal: "quiet m \<Longrightarrow> triple (legal ty P) m (\<lambda>_. legal ty P) (legal ty P)"
  unfolding triple_def quiet_def by (auto split: prod.splits sum.splits) (metis neutral_list)+

lemma quiet_qp_in: "quiet m \<Longrightarrow> triple (qp_in ty P q s) m (\<lambda>_. qp_in ty P q s) (legal ty P)"
  unfolding triple_def quiet_def qp_in_def by (auto split: prod.splits sum.splits) (metis neutral_list)+

lemma exch_info_quiet [quiet_intros]: "quiet (nvds_server_exch_info P data)" "quiet (nvds_client_exch_info P data)"
  unfolding nvds_server_exch_info_def nvds_client_exch_info_def by (intro quiet_intros; simp)+

lemma shared_quiet [quiet_intros]: "quiet (get_clock P)" "quiet (forever fuel)" "quiet exit_0"
  "quiet (nvds_init_local_ib_connection P ctx data)" "quiet (nvds_poll_send P fuel ctx)"
  unfolding get_clock_def forever_def exit_0_def nvds_init_local_ib_connection_def nvds_poll_send_def
  by (intro quiet_intros; simp)+

text \<open>A quiet first step.\<close>

lemma legal_seq:
  "quiet m \<Longrightarrow> (\<And>x. triple (legal ty P) (f x) D (legal ty P)) \<Longrightarrow> triple (legal ty P) (bindv m f) D (legal ty P)"
  "quiet m \<Longrightarrow> triple (legal ty P) n D (legal ty P) \<Longrightarrow> triple (legal ty P) (thenv m n) D (legal ty P)"
  by (rule triple_bind [OF quiet_legal] triple_then [OF quiet_legal]; assumption)+

lemma qp_seq:
  "quiet m \<Longrightarrow> (\<And>x. triple (qp_in ty P q s) (f x) D (legal ty P)) \<Longrightarrow> triple (qp_in ty P q s) (bindv m f) D (legal ty P)"
  "quiet m \<Longrightarrow> triple (qp_in ty P q s) n D (legal ty P) \<Longrightarrow> triple (qp_in ty P q s) (thenv m n) D (legal ty P)"
  by (rule triple_bind [OF quiet_qp_in] triple_then [OF quiet_qp_in]; assumption)+

lemma legal_create: "init_type i = ty \<Longrightarrow> triple (legal ty P) (ask (p_ptr P) (Create_qp pd i)) (\<lambda>q. qp_in ty P q IBV_QPS_RESET) (legal ty P)"
  by (intro triple_ask) (simp add: qp_in_def in_order_def)

section \<open>Moving the queue pair\<close>

lemma nvds_set_qp_state_init_in:
  "triple (qp_in IBV_QPT_RC P q IBV_QPS_RESET) (nvds_set_qp_state_init P q data) (\<lambda>_. qp_in IBV_QPT_RC P q IBV_QPS_INIT) (legal IBV_QPT_RC P)"
  unfolding nvds_set_qp_state_init_def by (rule triple_weaken [OF modify_expect]) (auto simp: next_state_def)

lemma nvds_set_qp_state_rtr_in:
  "triple (qp_in IBV_QPT_RC P q IBV_QPS_INIT) (nvds_set_qp_state_rtr P q data) (\<lambda>_. qp_in IBV_QPT_RC P q IBV_QPS_RTR) (legal IBV_QPT_RC P)"
  unfolding nvds_set_qp_state_rtr_def by (rule triple_weaken [OF modify_expect]) (auto simp: next_state_def)

lemma nvds_set_qp_state_rts_in:
  "triple (qp_in IBV_QPT_RC P q IBV_QPS_INIT) (nvds_set_qp_state_rts P q data) (\<lambda>_. qp_in IBV_QPT_RC P q IBV_QPS_RTS) (legal IBV_QPT_RC P)"
  unfolding nvds_set_qp_state_rts_def
  by (rule triple_then [OF nvds_set_qp_state_rtr_in], rule triple_weaken [OF modify_expect]) (auto simp: next_state_def)

lemma init_ctx_with_in:
  assumes "\<And>q. triple (qp_in ty P q IBV_QPS_RESET) (set_init q data) (\<lambda>_. qp_in ty P q IBV_QPS_INIT) (legal ty P)"
  shows "triple (legal ty P) (init_ctx_with P ty set_init page clear rdepth data) (\<lambda>ctx. qp_in ty P (x_qp ctx) IBV_QPS_INIT) (legal ty P)"
  unfolding init_ctx_with_def
  apply ((rule legal_seq, (intro quiet_intros; (simp; fail))[1])+)
  apply (rule triple_bind [OF legal_create], simp)
  apply (rule qp_seq, rule quiet_expect)
  by (rule triple_then [OF assms]) (rule triple_ret, simp)

text \<open>Posting and polling on a queue pair that is ready to send.\<close>

lemma post_wr_in:
  "triple (qp_in ty P (x_qp ctx) IBV_QPS_RTS) (post_wr P ctx wr) (\<lambda>ctx' tr. x_qp ctx' = x_qp ctx \<and> qp_in ty P (x_qp ctx) IBV_QPS_RTS tr) (legal ty P)"
  unfolding post_wr_def
  by (rule triple_bind [OF qp_in_post(1)], rule qp_seq, rule quiet_expect, rule triple_ret) simp

end
