(* ===== verification/Exp_Write.thy ===== *)
theory Exp_Write
  imports Exp_Common
begin

text \<open>
  The RDMA write benchmarks \<^verbatim>\<open>write_rc.c\<close>, \<^verbatim>\<open>write_rc_unsignaled.c\<close> and \<^verbatim>\<open>write_rc_multi.c\<close>. In the last
  two client and server play ping-pong through the first byte of their buffers and only every
  hundredth write of a queue pair is signalled. The \<^verbatim>\<open>static\<close> counter of those writes is passed
  along with the context. The functions that the files repeat from \<^verbatim>\<open>write_rc.c\<close> are in \<open>Exp_Common\<close>.
\<close>

definition n_rounds :: nat where
  "n_rounds = 1000 * 1000"

text \<open>One timed run of \<open>n_rounds\<close> rounds.\<close>

definition timed :: "platform \<Rightarrow> ('s \<Rightarrow> 's vprog) \<Rightarrow> 's \<Rightarrow> 's vprog" where
  "timed P body s =
     bindv (get_clock P) (\<lambda>begin.
     bindv (repeatv n_rounds body s) (\<lambda>s.
     bindv (get_clock P) (\<lambda>end.
     ret s)))"

definition remote_mem :: "nvds_data \<Rightarrow> wr_dest" where
  "remote_mem data = Rdma (c_vaddr (d_remote data)) (c_rkey (d_remote data))"

section \<open>write_rc.c\<close>

definition nvds_rdma_write :: "platform \<Rightarrow> nvds_data \<Rightarrow> nat \<Rightarrow> nvds_context \<Rightarrow> nvds_context vprog" where
  "nvds_rdma_write P data len ctx = post_wr P ctx (buf_wr P ctx len IBV_WR_RDMA_WRITE {IBV_SEND_SIGNALED} (remote_mem data))"

definition nvds_init_ctx :: "platform \<Rightarrow> nat \<Rightarrow> nvds_data \<Rightarrow> nvds_context vprog" where
  "nvds_init_ctx P page_size data = init_ctx_with P IBV_QPT_RC (nvds_set_qp_state_init P) page_size True 1 data"

definition nvds_run_server :: "platform \<Rightarrow> nat \<Rightarrow> nvds_context \<Rightarrow> nvds_data \<Rightarrow> unit vprog" where
  "nvds_run_server P fuel ctx data =
     bindv (nvds_server_exch_info P data) (\<lambda>data.
     thenv (nvds_set_qp_state_rtr P (x_qp ctx) data) (forever fuel))"

definition nvds_run_client :: "platform \<Rightarrow> nat \<Rightarrow> nvds_context \<Rightarrow> nvds_data \<Rightarrow> unit vprog" where
  "nvds_run_client P fuel ctx data =
     bindv (nvds_client_exch_info P data) (\<lambda>data.
     thenv (nvds_set_qp_state_rts P (x_qp ctx) data) (
     bindv (forv (lengths 1 1024) (\<lambda>len. timed P (\<lambda>ctx.
              bindv (nvds_rdma_write P data len ctx) (\<lambda>ctx.
              thenv (nvds_poll_send P fuel ctx) (ret ctx)))) ctx) (\<lambda>_.
     exit_0)))"

definition write_rc_main :: "platform \<Rightarrow> nat \<Rightarrow> nat \<Rightarrow> string list \<Rightarrow> unit vprog" where
  "write_rc_main P page_size fuel args =
     thenv (nvds_expect (length args \<le> 1) ''too many arguments'') (
     let data = data0 (case args of [] \<Rightarrow> None | s # _ \<Rightarrow> Some s) in
     bindv (nvds_init_ctx P page_size data) (\<lambda>ctx.
     bindv (nvds_init_local_ib_connection P ctx data) (\<lambda>data.
     if args \<noteq> [] then nvds_run_client P fuel ctx data else nvds_run_server P fuel ctx data)))"

section \<open>write_rc_unsignaled.c\<close>

definition unsignaled_set_qp_state_init :: "platform \<Rightarrow> nat \<Rightarrow> nvds_data \<Rightarrow> unit vprog" where [copy_defs]:
  "unsignaled_set_qp_state_init = nvds_set_qp_state_init"

definition unsignaled_set_qp_state_rtr :: "platform \<Rightarrow> nat \<Rightarrow> nvds_data \<Rightarrow> unit vprog" where [copy_defs]:
  "unsignaled_set_qp_state_rtr = nvds_set_qp_state_rtr"

definition unsignaled_set_qp_state_rts :: "platform \<Rightarrow> nat \<Rightarrow> nvds_data \<Rightarrow> unit vprog" where [copy_defs]:
  "unsignaled_set_qp_state_rts = nvds_set_qp_state_rts"

definition unsignaled_server_exch_info :: "platform \<Rightarrow> nvds_data \<Rightarrow> nvds_data vprog" where [copy_defs]:
  "unsignaled_server_exch_info = nvds_server_exch_info"

definition unsignaled_client_exch_info :: "platform \<Rightarrow> nvds_data \<Rightarrow> nvds_data vprog" where [copy_defs]:
  "unsignaled_client_exch_info = nvds_client_exch_info"

definition unsignaled_poll_send :: "platform \<Rightarrow> nat \<Rightarrow> nvds_context \<Rightarrow> unit vprog" where [copy_defs]:
  "unsignaled_poll_send = nvds_poll_send"

definition unsignaled_init_local_ib_connection :: "platform \<Rightarrow> nvds_context \<Rightarrow> nvds_data \<Rightarrow> nvds_data vprog" where [copy_defs]:
  "unsignaled_init_local_ib_connection = nvds_init_local_ib_connection"

text \<open>Busy waiting for another value of the first byte of the buffer.\<close>

definition wait_byte :: "platform \<Rightarrow> nat \<Rightarrow> nvds_context \<Rightarrow> u8 \<Rightarrow> unit vprog" where
  "wait_byte P fuel ctx v = thenv (spin fuel (ask (p_byte P) (Os (Load (of_nat (x_buf ctx))))) (\<lambda>b. b \<noteq> v)) (ret ())"

definition set_byte :: "nvds_context \<Rightarrow> u8 \<Rightarrow> unit vprog" where
  "set_byte ctx v = exec (Os (Store (of_nat (x_buf ctx)) v))"

definition fill_buf :: "nvds_context \<Rightarrow> u8 \<Rightarrow> unit vprog" where
  "fill_buf ctx v = exec (Os (Fill (of_nat (x_buf ctx)) (x_size ctx) v))"

definition unsignaled_rdma_write :: "platform \<Rightarrow> nat \<Rightarrow> nvds_data \<Rightarrow> nat \<Rightarrow> nvds_context \<times> nat \<Rightarrow> (nvds_context \<times> nat) vprog" where
  "unsignaled_rdma_write P fuel data len = (\<lambda>(ctx, k).
     bindv (post_wr P ctx (buf_wr P ctx len IBV_WR_RDMA_WRITE (if k = 99 then {IBV_SEND_SIGNALED} else {}) (remote_mem data))) (\<lambda>ctx.
     thenv (if k = 99 then unsignaled_poll_send P fuel ctx else ret ()) (
     ret (ctx, (k + 1) mod 100))))"

definition unsignaled_init_ctx :: "platform \<Rightarrow> nat \<Rightarrow> nvds_data \<Rightarrow> nvds_context vprog" where
  "unsignaled_init_ctx P page_size data = init_ctx_with P IBV_QPT_RC (unsignaled_set_qp_state_init P) page_size False 1 data"

definition unsignaled_run_client :: "platform \<Rightarrow> nat \<Rightarrow> nvds_context \<Rightarrow> nvds_data \<Rightarrow> unit vprog" where
  "unsignaled_run_client P fuel ctx data =
     bindv (unsignaled_client_exch_info P data) (\<lambda>data.
     thenv (unsignaled_set_qp_state_rts P (x_qp ctx) data) (
     thenv (exec (Os (Sleep 1000000))) (
     thenv (fill_buf ctx 1) (
     bindv (forv (lengths 1 1024) (\<lambda>len. timed P (\<lambda>s.
              bindv (unsignaled_rdma_write P fuel data len s) (\<lambda>(ctx, k).
              thenv (wait_byte P fuel ctx 1) (
              thenv (set_byte ctx 1) (
              ret (ctx, k)))))) (ctx, 0)) (\<lambda>_.
     exit_0)))))"

definition unsignaled_run_server :: "platform \<Rightarrow> nat \<Rightarrow> nvds_context \<Rightarrow> nvds_data \<Rightarrow> unit vprog" where
  "unsignaled_run_server P fuel ctx data =
     bindv (unsignaled_server_exch_info P data) (\<lambda>data.
     thenv (unsignaled_set_qp_state_rts P (x_qp ctx) data) (
     thenv (fill_buf ctx 0) (
     bindv (repeatv fuel (\<lambda>(ctx, k).
              thenv (wait_byte P fuel ctx 0) (
              thenv (set_byte ctx 0) (
              unsignaled_rdma_write P fuel data 1 (ctx, k)))) (ctx, 0)) (\<lambda>_.
     fail Out_of_fuel))))"

definition write_rc_unsignaled_main :: "platform \<Rightarrow> nat \<Rightarrow> nat \<Rightarrow> string list \<Rightarrow> unit vprog" where
  "write_rc_unsignaled_main P page_size fuel args =
     thenv (nvds_expect (length args \<le> 1) ''too many arguments'') (
     let data = data0 (case args of [] \<Rightarrow> None | s # _ \<Rightarrow> Some s) in
     bindv (unsignaled_init_ctx P page_size data) (\<lambda>ctx.
     bindv (unsignaled_init_local_ib_connection P ctx data) (\<lambda>data.
     if args \<noteq> [] then unsignaled_run_client P fuel ctx data else unsignaled_run_server P fuel ctx data)))"

section \<open>write_rc_multi.c\<close>

text \<open>
  The arrays of contexts and data have \<open>num\<close> elements and are indexed below \<open>num\<close> throughout.
\<close>

definition NUM_QP :: nat where
  "NUM_QP = 1024"

definition multi_set_qp_state_init :: "platform \<Rightarrow> nat \<Rightarrow> nvds_data \<Rightarrow> unit vprog" where [copy_defs]:
  "multi_set_qp_state_init = nvds_set_qp_state_init"

definition multi_set_qp_state_rtr :: "platform \<Rightarrow> nat \<Rightarrow> nvds_data \<Rightarrow> unit vprog" where [copy_defs]:
  "multi_set_qp_state_rtr = nvds_set_qp_state_rtr"

definition multi_set_qp_state_rts :: "platform \<Rightarrow> nat \<Rightarrow> nvds_data \<Rightarrow> unit vprog" where [copy_defs]:
  "multi_set_qp_state_rts = nvds_set_qp_state_rts"

definition multi_server_exch_info :: "platform \<Rightarrow> nvds_data \<Rightarrow> nvds_data vprog" where [copy_defs]:
  "multi_server_exch_info = nvds_server_exch_info"

definition multi_client_exch_info :: "platform \<Rightarrow> nvds_data \<Rightarrow> nvds_data vprog" where [copy_defs]:
  "multi_client_exch_info = nvds_client_exch_info"

definition multi_poll_send :: "platform \<Rightarrow> nat \<Rightarrow> nvds_context \<Rightarrow> unit vprog" where [copy_defs]:
  "multi_poll_send = nvds_poll_send"

definition multi_rdma_write :: "platform \<Rightarrow> nat \<Rightarrow> nvds_data \<Rightarrow> nat \<Rightarrow> nvds_context \<times> nat \<Rightarrow> (nvds_context \<times> nat) vprog" where
  "multi_rdma_write P fuel data len = (\<lambda>(ctx, k).
     bindv (post_wr P ctx (buf_wr P ctx len IBV_WR_RDMA_WRITE (if k div NUM_QP = 99 then {IBV_SEND_SIGNALED} else {}) (remote_mem data))) (\<lambda>ctx.
     thenv (if k div NUM_QP = 99 then multi_poll_send P fuel ctx else ret ()) (
     ret (ctx, (k + 1) mod (NUM_QP * 100)))))"

definition multi_init_local_ib_connection :: "platform \<Rightarrow> nvds_context list \<Rightarrow> nat \<Rightarrow> nvds_data list \<Rightarrow> nvds_data list vprog" where
  "multi_init_local_ib_connection P ctx_arr num data_arr =
     forv [0..<num] (\<lambda>i data_arr.
       bindv (nvds_init_local_ib_connection P (ctx_arr ! i) (data_arr ! i)) (\<lambda>data.
       ret (data_arr[i := data]))) data_arr"

text \<open>The device is opened once; the other contexts take it from their predecessor.\<close>

definition multi_init_one :: "platform \<Rightarrow> nat \<Rightarrow> nvds_data list \<Rightarrow> nat \<Rightarrow> nvds_context list \<Rightarrow> nvds_context list vprog" where
  "multi_init_one P page_size data_arr i ctx_arr =
     (let data = data_arr ! i in
     bindv (ask (p_ptr P) Get_device_list) (\<lambda>dev_list.
     thenv (nvds_expect (dev_list \<noteq> 0) ''ibv_get_device_list() failed'') (
     bindv (if i = 0
            then bindv (ask (p_ptr P) (Open_device dev_list)) (\<lambda>context.
                 thenv (nvds_expect (context \<noteq> 0) ''ibv_open_device() failed'') (
                 bindv (ask (p_ptr P) (Alloc_pd context)) (\<lambda>pd.
                 thenv (nvds_expect (pd \<noteq> 0) ''ibv_alloc_pd() failed'') (
                 ret (context, pd)))))
            else ret (x_context (ctx_arr ! (i - 1)), x_pd (ctx_arr ! (i - 1)))) (\<lambda>(context, pd).
     bindv (ask (p_ptr P) (Os (Memalign page_size (d_size data)))) (\<lambda>buf.
     thenv (exec (Os (Fill (of_nat buf) (d_size data) 0))) (
     bindv (ask (p_ptr P) (Reg_mr pd buf (d_size data)
              {IBV_ACCESS_LOCAL_WRITE, IBV_ACCESS_REMOTE_READ, IBV_ACCESS_REMOTE_WRITE})) (\<lambda>mr.
     thenv (nvds_expect (mr \<noteq> 0) ''ibv_reg_mr() failed'') (
     bindv (ask (p_ptr P) (Create_cq context 1)) (\<lambda>rcq.
     thenv (nvds_expect (rcq \<noteq> 0) ''ibv_create_cq() failed'') (
     bindv (ask (p_ptr P) (Create_cq context (d_tx_depth data))) (\<lambda>scq.
     thenv (nvds_expect (rcq \<noteq> 0) ''ibv_create_cq() failed'') (
     bindv (ask (p_ptr P) (Create_qp pd
              \<lparr>init_type = IBV_QPT_RC, init_send_cq = scq, init_recv_cq = rcq, max_send_wr = d_tx_depth data,
               max_recv_wr = 1, max_send_sge = 1, max_recv_sge = 1, max_inline_data = 0, sq_sig_all = 0\<rparr>)) (\<lambda>qp.
     thenv (nvds_expect (qp \<noteq> 0) ''ibv_create_qp() failed'') (
     thenv (multi_set_qp_state_init P qp data) (
     ret (ctx_arr[i := context0\<lparr>x_context := context, x_pd := pd, x_mr := mr, x_rcq := rcq, x_scq := scq, x_qp := qp,
            x_buf := buf, x_size := d_size data, x_tx_depth := d_tx_depth data\<rparr>]))))))))))))))))"

definition multi_init_ctx :: "platform \<Rightarrow> nat \<Rightarrow> nvds_data list \<Rightarrow> nat \<Rightarrow> nvds_context list \<Rightarrow> nvds_context list vprog" where
  "multi_init_ctx P page_size data_arr num ctx_arr = forv [0..<num] (multi_init_one P page_size data_arr) ctx_arr"

definition multi_run_server :: "platform \<Rightarrow> nat \<Rightarrow> nvds_context list \<Rightarrow> nvds_data list \<Rightarrow> nat \<Rightarrow> unit vprog" where
  "multi_run_server P fuel ctx_arr data_arr num =
     bindv (forv [0..<num] (\<lambda>i data_arr.
              bindv (multi_server_exch_info P (data_arr ! i)) (\<lambda>data.
              thenv (multi_set_qp_state_rts P (x_qp (ctx_arr ! i)) data) (
              thenv (fill_buf (ctx_arr ! i) 0) (
              ret (data_arr[i := data]))))) data_arr) (\<lambda>data_arr.
     bindv (repeatv fuel (\<lambda>(ctx_arr, j, k).
              thenv (wait_byte P fuel (ctx_arr ! j) 0) (
              thenv (set_byte (ctx_arr ! j) 0) (
              bindv (multi_rdma_write P fuel (data_arr ! j) 1 (ctx_arr ! j, k)) (\<lambda>(ctx, k).
              ret (ctx_arr[j := ctx], (j + 1) mod num, k))))) (ctx_arr, 0, 0)) (\<lambda>_.
     fail Out_of_fuel))"

definition multi_run_client :: "platform \<Rightarrow> nat \<Rightarrow> nvds_context list \<Rightarrow> nvds_data list \<Rightarrow> nat \<Rightarrow> unit vprog" where
  "multi_run_client P fuel ctx_arr data_arr num =
     bindv (forv [0..<num] (\<lambda>i data_arr.
              bindv (multi_client_exch_info P (data_arr ! i)) (\<lambda>data.
              thenv (multi_set_qp_state_rts P (x_qp (ctx_arr ! i)) data) (
              thenv (fill_buf (ctx_arr ! i) 1) (
              thenv (exec (Os (Sleep 1000))) (
              ret (data_arr[i := data])))))) data_arr) (\<lambda>data_arr.
     thenv (exec (Os (Sleep 1000))) (
     bindv (forv (lengths 128 128) (\<lambda>len. timed P (\<lambda>(ctx_arr, j, k).
              bindv (multi_rdma_write P fuel (data_arr ! j) len (ctx_arr ! j, k)) (\<lambda>(ctx, k).
              thenv (wait_byte P fuel ctx 1) (
              thenv (set_byte ctx 1) (
              ret (ctx_arr[j := ctx], (j + 1) mod num, k)))))) (ctx_arr, 0, 0)) (\<lambda>_.
     exit_0)))"

definition write_rc_multi_main :: "platform \<Rightarrow> nat \<Rightarrow> nat \<Rightarrow> nvds_context list \<Rightarrow> string list \<Rightarrow> unit vprog" where
  "write_rc_multi_main P page_size fuel ctx_arr args =
     thenv (nvds_expect (length args \<le> 1) ''too many arguments'') (
     let data_arr = replicate NUM_QP (data0 (case args of [] \<Rightarrow> None | s # _ \<Rightarrow> Some s)) in
     bindv (multi_init_ctx P page_size data_arr NUM_QP ctx_arr) (\<lambda>ctx_arr.
     bindv (multi_init_local_ib_connection P ctx_arr NUM_QP data_arr) (\<lambda>data_arr.
     if args \<noteq> [] then multi_run_client P fuel ctx_arr data_arr NUM_QP
     else multi_run_server P fuel ctx_arr data_arr NUM_QP)))"

end
