(* ===== verification/Exp_Send.thy ===== *)
theory Exp_Send
  imports Exp_Write
begin

text \<open>
  The send benchmarks \<^verbatim>\<open>send_rc.c\<close>, over a connection, and \<^verbatim>\<open>send_ud.c\<close>, with datagrams. The
  functions they have in common with \<^verbatim>\<open>write_rc.c\<close> are in \<open>Exp_Common\<close>; the address handle that
  \<^verbatim>\<open>get_ah\<close> keeps in a \<^verbatim>\<open>static\<close> variable is passed along with the context.
\<close>

section \<open>send_rc.c\<close>

definition send_rc_set_qp_state_init :: "platform \<Rightarrow> nat \<Rightarrow> nvds_data \<Rightarrow> unit vprog" where [copy_defs]:
  "send_rc_set_qp_state_init = nvds_set_qp_state_init"

definition send_rc_set_qp_state_rtr :: "platform \<Rightarrow> nat \<Rightarrow> nvds_data \<Rightarrow> unit vprog" where [copy_defs]:
  "send_rc_set_qp_state_rtr = nvds_set_qp_state_rtr"

definition send_rc_set_qp_state_rts :: "platform \<Rightarrow> nat \<Rightarrow> nvds_data \<Rightarrow> unit vprog" where [copy_defs]:
  "send_rc_set_qp_state_rts = nvds_set_qp_state_rts"

definition send_rc_server_exch_info :: "platform \<Rightarrow> nvds_data \<Rightarrow> nvds_data vprog" where [copy_defs]:
  "send_rc_server_exch_info = nvds_server_exch_info"

definition send_rc_client_exch_info :: "platform \<Rightarrow> nvds_data \<Rightarrow> nvds_data vprog" where [copy_defs]:
  "send_rc_client_exch_info = nvds_client_exch_info"

definition send_rc_init_local_ib_connection :: "platform \<Rightarrow> nvds_context \<Rightarrow> nvds_data \<Rightarrow> nvds_data vprog" where [copy_defs]:
  "send_rc_init_local_ib_connection = nvds_init_local_ib_connection"

definition send_rc_poll_send :: "platform \<Rightarrow> nat \<Rightarrow> nvds_context \<Rightarrow> unit vprog" where
  "send_rc_poll_send P fuel ctx = nvds_poll_send P fuel ctx"

definition nvds_poll_recv :: "platform \<Rightarrow> nat \<Rightarrow> nvds_context \<Rightarrow> unit vprog" where
  "nvds_poll_recv P fuel ctx =
     bindv (spin fuel (ask (\<lambda>tr c. (p_int P tr c, p_wc P tr c)) (Poll_cq (x_rcq ctx) 1)) (\<lambda>(r, _). r = 1)) (\<lambda>(_, wc).
     nvds_expect (wc_status wc = 0) ''rdma read failed'')"

definition nvds_post_send :: "platform \<Rightarrow> nvds_data \<Rightarrow> nat \<Rightarrow> nvds_context \<Rightarrow> nvds_context vprog" where
  "nvds_post_send P data len ctx = post_wr P ctx (buf_wr P ctx len IBV_WR_SEND {IBV_SEND_SIGNALED} (dest (x_wr ctx)))"

definition nvds_post_recv :: "platform \<Rightarrow> nvds_context \<Rightarrow> unit vprog" where
  "nvds_post_recv P ctx =
     bindv (ask (p_int P) (Post_recv (x_qp ctx) [\<lparr>rwr_id = of_nat (x_buf ctx),
              rsg_list = [\<lparr>sge_addr = of_nat (x_buf ctx), sge_length = of_nat (x_size ctx), sge_lkey = p_lkey P (x_mr ctx)\<rparr>]\<rparr>])) (\<lambda>err.
     assertv (err = 0))"

definition send_rc_init_ctx :: "platform \<Rightarrow> nat \<Rightarrow> nvds_data \<Rightarrow> nvds_context vprog" where
  "send_rc_init_ctx P page_size data = init_ctx_with P IBV_QPT_RC (send_rc_set_qp_state_init P) page_size True 100 data"

definition send_rc_run_server :: "platform \<Rightarrow> nat \<Rightarrow> nvds_context \<Rightarrow> nvds_data \<Rightarrow> unit vprog" where
  "send_rc_run_server P fuel ctx data =
     bindv (send_rc_server_exch_info P data) (\<lambda>data.
     thenv (send_rc_set_qp_state_rtr P (x_qp ctx) data) (
     thenv (repeatv 10 (\<lambda>_. nvds_post_recv P ctx) ()) (
     thenv (forv (lengths 1 1024) (\<lambda>len. repeatv n_rounds (\<lambda>_.
              thenv (nvds_post_recv P ctx) (nvds_poll_recv P fuel ctx))) ()) (
     exit_0))))"

definition send_rc_run_client :: "platform \<Rightarrow> nat \<Rightarrow> nvds_context \<Rightarrow> nvds_data \<Rightarrow> unit vprog" where
  "send_rc_run_client P fuel ctx data =
     bindv (send_rc_client_exch_info P data) (\<lambda>data.
     thenv (send_rc_set_qp_state_rts P (x_qp ctx) data) (
     thenv (exec (Os (Sleep 1000000))) (
     bindv (forv (lengths 1 1024) (\<lambda>len. timed P (\<lambda>ctx.
              bindv (nvds_post_send P data len ctx) (\<lambda>ctx.
              thenv (send_rc_poll_send P fuel ctx) (ret ctx)))) ctx) (\<lambda>_.
     exit_0))))"

definition send_rc_main :: "platform \<Rightarrow> nat \<Rightarrow> nat \<Rightarrow> string list \<Rightarrow> unit vprog" where
  "send_rc_main P page_size fuel args =
     thenv (nvds_expect (length args \<le> 1) ''too many arguments'') (
     let data = data0 (case args of [] \<Rightarrow> None | s # _ \<Rightarrow> Some s) in
     bindv (send_rc_init_ctx P page_size data) (\<lambda>ctx.
     bindv (send_rc_init_local_ib_connection P ctx data) (\<lambda>data.
     if args \<noteq> [] then send_rc_run_client P fuel ctx data else send_rc_run_server P fuel ctx data)))"

section \<open>send_rc_unsignaled.c\<close>

text \<open>
  Apart from the name of its header the file is the same as \<^verbatim>\<open>send_rc.c\<close>: every send is signalled.
\<close>

definition send_rc_unsignaled_set_qp_state_init :: "platform \<Rightarrow> nat \<Rightarrow> nvds_data \<Rightarrow> unit vprog" where [copy_defs]:
  "send_rc_unsignaled_set_qp_state_init = send_rc_set_qp_state_init"

definition send_rc_unsignaled_set_qp_state_rtr :: "platform \<Rightarrow> nat \<Rightarrow> nvds_data \<Rightarrow> unit vprog" where [copy_defs]:
  "send_rc_unsignaled_set_qp_state_rtr = send_rc_set_qp_state_rtr"

definition send_rc_unsignaled_set_qp_state_rts :: "platform \<Rightarrow> nat \<Rightarrow> nvds_data \<Rightarrow> unit vprog" where [copy_defs]:
  "send_rc_unsignaled_set_qp_state_rts = send_rc_set_qp_state_rts"

definition send_rc_unsignaled_server_exch_info :: "platform \<Rightarrow> nvds_data \<Rightarrow> nvds_data vprog" where [copy_defs]:
  "send_rc_unsignaled_server_exch_info = send_rc_server_exch_info"

definition send_rc_unsignaled_client_exch_info :: "platform \<Rightarrow> nvds_data \<Rightarrow> nvds_data vprog" where [copy_defs]:
  "send_rc_unsignaled_client_exch_info = send_rc_client_exch_info"

definition send_rc_unsignaled_init_local_ib_connection :: "platform \<Rightarrow> nvds_context \<Rightarrow> nvds_data \<Rightarrow> nvds_data vprog" where [copy_defs]:
  "send_rc_unsignaled_init_local_ib_connection = send_rc_init_local_ib_connection"

definition send_rc_unsignaled_poll_send :: "platform \<Rightarrow> nat \<Rightarrow> nvds_context \<Rightarrow> unit vprog" where [copy_defs]:
  "send_rc_unsignaled_poll_send = send_rc_poll_send"

definition send_rc_unsignaled_poll_recv :: "platform \<Rightarrow> nat \<Rightarrow> nvds_context \<Rightarrow> unit vprog" where [copy_defs]:
  "send_rc_unsignaled_poll_recv = nvds_poll_recv"

definition send_rc_unsignaled_post_send :: "platform \<Rightarrow> nvds_data \<Rightarrow> nat \<Rightarrow> nvds_context \<Rightarrow> nvds_context vprog" where [copy_defs]:
  "send_rc_unsignaled_post_send = nvds_post_send"

definition send_rc_unsignaled_post_recv :: "platform \<Rightarrow> nvds_context \<Rightarrow> unit vprog" where [copy_defs]:
  "send_rc_unsignaled_post_recv = nvds_post_recv"

definition send_rc_unsignaled_init_ctx :: "platform \<Rightarrow> nat \<Rightarrow> nvds_data \<Rightarrow> nvds_context vprog" where
  "send_rc_unsignaled_init_ctx P page_size data = init_ctx_with P IBV_QPT_RC (send_rc_unsignaled_set_qp_state_init P) page_size True 100 data"

definition send_rc_unsignaled_run_server :: "platform \<Rightarrow> nat \<Rightarrow> nvds_context \<Rightarrow> nvds_data \<Rightarrow> unit vprog" where
  "send_rc_unsignaled_run_server P fuel ctx data =
     bindv (send_rc_unsignaled_server_exch_info P data) (\<lambda>data.
     thenv (send_rc_unsignaled_set_qp_state_rtr P (x_qp ctx) data) (
     thenv (repeatv 10 (\<lambda>_. send_rc_unsignaled_post_recv P ctx) ()) (
     thenv (forv (lengths 1 1024) (\<lambda>len. repeatv n_rounds (\<lambda>_.
              thenv (send_rc_unsignaled_post_recv P ctx) (send_rc_unsignaled_poll_recv P fuel ctx))) ()) (
     exit_0))))"

definition send_rc_unsignaled_run_client :: "platform \<Rightarrow> nat \<Rightarrow> nvds_context \<Rightarrow> nvds_data \<Rightarrow> unit vprog" where
  "send_rc_unsignaled_run_client P fuel ctx data =
     bindv (send_rc_unsignaled_client_exch_info P data) (\<lambda>data.
     thenv (send_rc_unsignaled_set_qp_state_rts P (x_qp ctx) data) (
     thenv (exec (Os (Sleep 1000000))) (
     bindv (forv (lengths 1 1024) (\<lambda>len. timed P (\<lambda>ctx.
              bindv (send_rc_unsignaled_post_send P data len ctx) (\<lambda>ctx.
              thenv (send_rc_unsignaled_poll_send P fuel ctx) (ret ctx)))) ctx) (\<lambda>_.
     exit_0))))"

definition send_rc_unsignaled_main :: "platform \<Rightarrow> nat \<Rightarrow> nat \<Rightarrow> string list \<Rightarrow> unit vprog" where
  "send_rc_unsignaled_main P page_size fuel args =
     thenv (nvds_expect (length args \<le> 1) ''too many arguments'') (
     let data = data0 (case args of [] \<Rightarrow> None | s # _ \<Rightarrow> Some s) in
     bindv (send_rc_unsignaled_init_ctx P page_size data) (\<lambda>ctx.
     bindv (send_rc_unsignaled_init_local_ib_connection P ctx data) (\<lambda>data.
     if args \<noteq> [] then send_rc_unsignaled_run_client P fuel ctx data else send_rc_unsignaled_run_server P fuel ctx data)))"

section \<open>send_ud.c\<close>

definition DEFAULT_PSN :: u32 where
  "DEFAULT_PSN = 33"

definition ud_set_qp_state_init :: "platform \<Rightarrow> nat \<Rightarrow> nvds_data \<Rightarrow> unit vprog" where
  "ud_set_qp_state_init P qp data =
     bindv (ask (p_int P) (Modify_qp qp
              (qp_attr0\<lparr>qp_state := IBV_QPS_INIT, pkey_index := 0, port_num := d_ib_port data, qkey := 0\<rparr>)
              {IBV_QP_STATE, IBV_QP_PKEY_INDEX, IBV_QP_PORT, IBV_QP_QKEY})) (\<lambda>err.
     nvds_expect (err = 0) ''ibv_modify_qp() failed'')"

text \<open>The attributes that the mask does not name are uninitialised in the source.\<close>

definition ud_set_qp_state_rtr :: "platform \<Rightarrow> nat \<Rightarrow> nvds_data \<Rightarrow> unit vprog" where
  "ud_set_qp_state_rtr P qp data =
     bindv (ask (p_int P) (Modify_qp qp (qp_attr0\<lparr>qp_state := IBV_QPS_RTR\<rparr>) {IBV_QP_STATE})) (\<lambda>err. assertv (err = 0))"

definition ud_set_qp_state_rts :: "platform \<Rightarrow> nat \<Rightarrow> nvds_data \<Rightarrow> unit vprog" where
  "ud_set_qp_state_rts P qp data =
     thenv (ud_set_qp_state_rtr P qp data) (
     bindv (ask (p_int P) (Modify_qp qp (qp_attr0\<lparr>qp_state := IBV_QPS_RTS, sq_psn := DEFAULT_PSN\<rparr>) {IBV_QP_STATE, IBV_QP_SQ_PSN})) (\<lambda>err.
     assertv (err = 0)))"

definition ud_server_exch_info :: "platform \<Rightarrow> nvds_data \<Rightarrow> nvds_data vprog" where [copy_defs]:
  "ud_server_exch_info = nvds_server_exch_info"

definition ud_client_exch_info :: "platform \<Rightarrow> nvds_data \<Rightarrow> nvds_data vprog" where [copy_defs]:
  "ud_client_exch_info = nvds_client_exch_info"

definition ud_poll_send :: "platform \<Rightarrow> nat \<Rightarrow> nvds_context \<Rightarrow> unit vprog" where
  "ud_poll_send P fuel ctx = nvds_poll_send P fuel ctx"

definition ud_poll_recv :: "platform \<Rightarrow> nat \<Rightarrow> nvds_context \<Rightarrow> unit vprog" where
  "ud_poll_recv P fuel ctx = nvds_poll_recv P fuel ctx"

definition get_ah :: "platform \<Rightarrow> nat \<Rightarrow> u16 \<Rightarrow> nat \<Rightarrow> nat vprog" where
  "get_ah P pd lid ah =
     (if ah \<noteq> 0 then ret ah
      else bindv (ask (p_ptr P) (Create_ah pd \<lparr>is_global = 0, dlid = lid, sl = 1, src_path_bits = 0, ah_port_num = 1\<rparr>)) (\<lambda>ah.
           thenv (assertv (ah \<noteq> 0)) (ret ah)))"

definition ud_post_send :: "platform \<Rightarrow> nvds_data \<Rightarrow> nat \<Rightarrow> nvds_context \<times> nat \<Rightarrow> (nvds_context \<times> nat) vprog" where
  "ud_post_send P data len = (\<lambda>(ctx, ah).
     bindv (get_ah P (x_pd ctx) (ucast (c_lid (d_remote data))) ah) (\<lambda>ah.
     bindv (post_wr P ctx (buf_wr P ctx len IBV_WR_SEND {IBV_SEND_SIGNALED} (Ud ah (c_qpn (d_remote data)) 0))) (\<lambda>ctx.
     ret (ctx, ah))))"

definition ud_post_recv :: "platform \<Rightarrow> nvds_context \<Rightarrow> unit vprog" where
  "ud_post_recv P ctx = nvds_post_recv P ctx"

definition ud_init_local_ib_connection :: "platform \<Rightarrow> nvds_context \<Rightarrow> nvds_data \<Rightarrow> nvds_data vprog" where
  "ud_init_local_ib_connection P ctx data =
     bindv (ask (\<lambda>tr c. (p_int P tr c, p_lid P tr c)) (Query_port (x_context ctx) (d_ib_port data))) (\<lambda>(r, lid).
     thenv (nvds_expect (r = 0) ''ibv_query_port() failed'') (
     ret (data\<lparr>d_local := \<lparr>c_lid = ucast lid, c_qpn = p_qp_num P (x_qp ctx), c_psn = DEFAULT_PSN, c_rkey = p_rkey P (x_mr ctx),
                            c_vaddr = of_nat (x_buf ctx)\<rparr>\<rparr>)))"

definition ud_init_ctx :: "platform \<Rightarrow> nat \<Rightarrow> nvds_data \<Rightarrow> nvds_context vprog" where
  "ud_init_ctx P page_size data = init_ctx_with P IBV_QPT_UD (ud_set_qp_state_init P) page_size True (d_tx_depth data) data"

definition ud_run_server :: "platform \<Rightarrow> nat \<Rightarrow> nvds_context \<Rightarrow> nvds_data \<Rightarrow> unit vprog" where
  "ud_run_server P fuel ctx data =
     bindv (ud_server_exch_info P data) (\<lambda>data.
     thenv (ud_set_qp_state_rts P (x_qp ctx) data) (
     thenv (repeatv 10 (\<lambda>_. ud_post_recv P ctx) ()) (
     bindv (forv (lengths 1 1024) (\<lambda>len. repeatv n_rounds (\<lambda>(ctx, ah).
              thenv (ud_poll_recv P fuel ctx) (
              thenv (ud_post_recv P ctx) (
              bindv (ud_post_send P data 1 (ctx, ah)) (\<lambda>(ctx, ah).
              thenv (ud_poll_send P fuel ctx) (ret (ctx, ah))))))) (ctx, 0)) (\<lambda>_.
     exit_0))))"

definition ud_run_client :: "platform \<Rightarrow> nat \<Rightarrow> nvds_context \<Rightarrow> nvds_data \<Rightarrow> unit vprog" where
  "ud_run_client P fuel ctx data =
     bindv (ud_client_exch_info P data) (\<lambda>data.
     thenv (ud_set_qp_state_rts P (x_qp ctx) data) (
     thenv (exec (Os (Sleep 1000000))) (
     thenv (repeatv 10 (\<lambda>_. ud_post_recv P ctx) ()) (
     bindv (forv (lengths 1 1024) (\<lambda>len. timed P (\<lambda>(ctx, ah).
              bindv (ud_post_send P data len (ctx, ah)) (\<lambda>(ctx, ah).
              thenv (ud_poll_send P fuel ctx) (
              thenv (ud_poll_recv P fuel ctx) (
              thenv (ud_post_recv P ctx) (ret (ctx, ah))))))) (ctx, 0)) (\<lambda>_.
     exit_0)))))"

definition send_ud_main :: "platform \<Rightarrow> nat \<Rightarrow> nat \<Rightarrow> string list \<Rightarrow> unit vprog" where
  "send_ud_main P page_size fuel args =
     thenv (nvds_expect (length args \<le> 1) ''too many arguments'') (
     let data = data0 (case args of [] \<Rightarrow> None | s # _ \<Rightarrow> Some s) in
     bindv (ud_init_ctx P page_size data) (\<lambda>ctx.
     bindv (ud_init_local_ib_connection P ctx data) (\<lambda>data.
     if args \<noteq> [] then ud_run_client P fuel ctx data else ud_run_server P fuel ctx data)))"

end
