(* ===== verification/Exp_Theorems.thy ===== *)
theory Exp_Theorems
  imports Exp_Send
begin

text \<open>
  The benchmark programs use their queue pairs in order on every platform, agree on the data of
  their connection, and keep the number of unsignalled writes within the depth of the send queue.
\<close>

section \<open>Rules for loops\<close>

lemma qp_pure: "quiet m \<Longrightarrow> triple (\<lambda>tr. A \<and> qp_in ty P q s tr) m (\<lambda>_ tr. A \<and> qp_in ty P q s tr) (legal ty P)"
  using quiet_qp_in [of m ty P q s] by (cases A) (simp_all add: triple_def)

lemma timed_in:
  assumes "\<And>s. triple (\<lambda>tr. A s \<and> qp_in ty P q st tr) (body s) (\<lambda>s tr. A s \<and> qp_in ty P q st tr) (legal ty P)"
  shows "triple (\<lambda>tr. A s \<and> qp_in ty P q st tr) (timed P body s) (\<lambda>s tr. A s \<and> qp_in ty P q st tr) (legal ty P)"
  unfolding timed_def
  by (rule triple_bind [OF qp_pure], intro quiet_intros, rule triple_bind, rule triple_repeat, rule assms,
      rule triple_bind [OF qp_pure], intro quiet_intros, rule triple_ret)

text \<open>A loop that keeps a ready queue pair, and the end of the program.\<close>

lemma loop_exit:
  assumes "triple (\<lambda>tr. A s \<and> qp_in ty P q st tr) m (\<lambda>s tr. A s \<and> qp_in ty P q st tr) (legal ty P)" "A s"
    and "\<And>x. quiet (fin x)"
  shows "triple (qp_in ty P q st) (bindv m fin) (\<lambda>_. legal ty P) (legal ty P)"
proof -
  have "triple (\<lambda>tr. A x \<and> qp_in ty P q st tr) (fin x) (\<lambda>_. legal ty P) (legal ty P)" for x
    by (rule triple_weaken [OF qp_pure [OF assms(3)]]) (auto simp: qp_in_legal)
  from triple_bind [OF assms(1) this] assms(2) show ?thesis
    by simp
qed

lemma post_wr_pure:
  "triple (\<lambda>tr. x_qp ctx = q \<and> qp_in ty P q IBV_QPS_RTS tr) (post_wr P ctx wr) (\<lambda>ctx tr. x_qp ctx = q \<and> qp_in ty P q IBV_QPS_RTS tr) (legal ty P)"
proof (cases "x_qp ctx = q")
  case True
  then show ?thesis
    by (intro triple_weaken [OF post_wr_in]) auto
qed (simp add: triple_def)

section \<open>write_rc and write_rc_unsignaled\<close>

lemma run_server_in: "triple (qp_in IBV_QPT_RC P (x_qp ctx) IBV_QPS_INIT) (nvds_run_server P fuel ctx data) (\<lambda>_. legal IBV_QPT_RC P) (legal IBV_QPT_RC P)"
  unfolding nvds_run_server_def
  apply (rule qp_seq, rule quiet_intros, rule triple_then [OF nvds_set_qp_state_rtr_in])
  by (rule triple_weaken [OF quiet_qp_in]) (auto intro: quiet_intros simp: qp_in_legal)

lemma run_client_in: "triple (qp_in IBV_QPT_RC P (x_qp ctx) IBV_QPS_INIT) (nvds_run_client P fuel ctx data) (\<lambda>_. legal IBV_QPT_RC P) (legal IBV_QPT_RC P)"
  unfolding nvds_run_client_def nvds_rdma_write_def
  apply (rule qp_seq, rule quiet_intros, rule triple_then [OF nvds_set_qp_state_rts_in])
  apply (rule loop_exit [OF triple_for, where A = "\<lambda>c. x_qp c = x_qp ctx"])
    apply (rule timed_in, rule triple_bind [OF post_wr_pure], rule triple_then [OF qp_pure], rule quiet_intros, rule triple_ret, simp)
  by (auto intro: quiet_intros)

lemma unsignaled_rdma_write_in:
  "triple (\<lambda>tr. x_qp (fst s) = q \<and> qp_in IBV_QPT_RC P q IBV_QPS_RTS tr) (unsignaled_rdma_write P fuel data len s)
     (\<lambda>s tr. x_qp (fst s) = q \<and> qp_in IBV_QPT_RC P q IBV_QPS_RTS tr) (legal IBV_QPT_RC P)"
proof (cases s)
  case (Pair ctx k)
  show ?thesis
    unfolding unsignaled_rdma_write_def copy_defs Pair prod.case fst_conv
    by (rule triple_bind [OF post_wr_pure], rule triple_then [OF qp_pure]) (auto intro!: quiet_intros triple_ret)
qed

lemma bytes_quiet [quiet_intros]: "quiet (wait_byte P fuel ctx v)" "quiet (set_byte ctx v)" "quiet (fill_buf ctx v)"
  unfolding wait_byte_def set_byte_def fill_buf_def by (intro quiet_intros; simp)+

lemma unsignaled_run_client_in:
  "triple (qp_in IBV_QPT_RC P (x_qp ctx) IBV_QPS_INIT) (unsignaled_run_client P fuel ctx data) (\<lambda>_. legal IBV_QPT_RC P) (legal IBV_QPT_RC P)"
  unfolding unsignaled_run_client_def copy_defs
  apply (rule qp_seq, rule quiet_intros, rule triple_then [OF nvds_set_qp_state_rts_in])
  apply (rule qp_seq, intro quiet_intros, simp, rule qp_seq, rule quiet_intros)
  apply (rule loop_exit [OF triple_for, where A = "\<lambda>s. x_qp (fst s) = x_qp ctx"])
    apply (rule timed_in, rule triple_bind [OF unsignaled_rdma_write_in], rule triple_case_prod, simp only: fst_conv)
    apply (rule triple_then [OF qp_pure], rule quiet_intros, rule triple_then [OF qp_pure], rule quiet_intros, rule triple_ret, simp)
  by (auto intro: quiet_intros)

lemma unsignaled_run_server_in:
  "triple (qp_in IBV_QPT_RC P (x_qp ctx) IBV_QPS_INIT) (unsignaled_run_server P fuel ctx data) (\<lambda>_. legal IBV_QPT_RC P) (legal IBV_QPT_RC P)"
  unfolding unsignaled_run_server_def copy_defs
  apply (rule qp_seq, rule quiet_intros, rule triple_then [OF nvds_set_qp_state_rts_in], rule qp_seq, rule quiet_intros)
  apply (rule loop_exit [OF triple_repeat, where A = "\<lambda>s. x_qp (fst s) = x_qp ctx"])
    apply (rule triple_case_prod, simp only: fst_conv)
    apply (rule triple_then [OF qp_pure], rule quiet_intros, rule triple_then [OF qp_pure], rule quiet_intros)
    apply (rule triple_weaken [OF unsignaled_rdma_write_in]; simp)
  by (auto intro: quiet_intros)

section \<open>send_rc and send_ud\<close>

lemma poll_recv_quiet [quiet_intros]: "quiet (nvds_poll_recv P fuel ctx)" "quiet (send_rc_poll_send P fuel ctx)"
  "quiet (ud_poll_send P fuel ctx)" "quiet (ud_poll_recv P fuel ctx)" "quiet (ud_init_local_ib_connection P ctx data)" "quiet (get_ah P pd lid ah)"
  unfolding nvds_poll_recv_def send_rc_poll_send_def ud_poll_send_def ud_poll_recv_def ud_init_local_ib_connection_def get_ah_def
  by (intro quiet_intros; simp)+

lemma post_recv_in:
  assumes "s \<noteq> IBV_QPS_RESET"
  shows "triple (\<lambda>tr. x_qp ctx = q \<and> qp_in ty P q s tr) (nvds_post_recv P ctx) (\<lambda>_ tr. x_qp ctx = q \<and> qp_in ty P q s tr) (legal ty P)"
proof (cases "x_qp ctx = q")
  case True
  then show ?thesis
    unfolding nvds_post_recv_def
    using triple_bind [OF qp_in_post(2) [OF assms] quiet_qp_in [OF quiet_expect(2)]] by (auto intro: triple_weaken)
qed (simp add: triple_def)

lemma send_rc_run_server_in:
  "triple (qp_in IBV_QPT_RC P (x_qp ctx) IBV_QPS_INIT) (send_rc_run_server P fuel ctx data) (\<lambda>_. legal IBV_QPT_RC P) (legal IBV_QPT_RC P)"
  unfolding send_rc_run_server_def copy_defs thenv_def [of "forv _ _ _"]
  apply (rule qp_seq, rule quiet_intros, rule triple_then [OF nvds_set_qp_state_rtr_in])
  apply (rule triple_then [where B = "qp_in IBV_QPT_RC P (x_qp ctx) IBV_QPS_RTR"])
   apply (rule triple_repeat, rule triple_weaken [OF post_recv_in [where s = IBV_QPS_RTR and q = "x_qp ctx"]]; simp)
  apply (rule loop_exit [OF triple_for, where A = "\<lambda>_. x_qp ctx = x_qp ctx"])
    apply (rule triple_repeat, rule triple_then [OF post_recv_in], simp, rule qp_pure)
  by (auto intro: quiet_intros)

lemma send_rc_run_client_in:
  "triple (qp_in IBV_QPT_RC P (x_qp ctx) IBV_QPS_INIT) (send_rc_run_client P fuel ctx data) (\<lambda>_. legal IBV_QPT_RC P) (legal IBV_QPT_RC P)"
  unfolding send_rc_run_client_def copy_defs nvds_post_send_def
  apply (rule qp_seq, rule quiet_intros, rule triple_then [OF nvds_set_qp_state_rts_in], rule qp_seq, intro quiet_intros, simp)
  apply (rule loop_exit [OF triple_for, where A = "\<lambda>c. x_qp c = x_qp ctx"])
    apply (rule timed_in, rule triple_bind [OF post_wr_pure], rule triple_then [OF qp_pure], rule quiet_intros, rule triple_ret, simp)
  by (auto intro: quiet_intros)

lemma modify_assert:
  assumes "next_state s (qp_state a)" "m = required ty (qp_state a)"
  shows "triple (qp_in ty P q s) (bindv (ask (p_int P) (Modify_qp q a m)) (\<lambda>err. assertv (err = 0)))
    (\<lambda>_. qp_in ty P q (qp_state a)) (legal ty P)"
proof (rule triple_bind [OF qp_in_modify [OF assms]])
  fix err :: int
  show "triple (\<lambda>tr. legal ty P tr \<and> (err = 0 \<longrightarrow> qp_in ty P q (qp_state a) tr)) (assertv (err = 0))
      (\<lambda>_. qp_in ty P q (qp_state a)) (legal ty P)"
    by (simp add: triple_def assertv_def ret_def fail_def)
qed

lemma ud_set_qp_state_init_in:
  "triple (qp_in IBV_QPT_UD P q IBV_QPS_RESET) (ud_set_qp_state_init P q data) (\<lambda>_. qp_in IBV_QPT_UD P q IBV_QPS_INIT) (legal IBV_QPT_UD P)"
  unfolding ud_set_qp_state_init_def by (rule triple_weaken [OF modify_expect]) (auto simp: next_state_def)

lemma ud_set_qp_state_rtr_in:
  "triple (qp_in IBV_QPT_UD P q IBV_QPS_INIT) (ud_set_qp_state_rtr P q data) (\<lambda>_. qp_in IBV_QPT_UD P q IBV_QPS_RTR) (legal IBV_QPT_UD P)"
  unfolding ud_set_qp_state_rtr_def by (rule triple_weaken [OF modify_assert]) (auto simp: next_state_def)

lemma ud_set_qp_state_rts_in:
  "triple (qp_in IBV_QPT_UD P q IBV_QPS_INIT) (ud_set_qp_state_rts P q data) (\<lambda>_. qp_in IBV_QPT_UD P q IBV_QPS_RTS) (legal IBV_QPT_UD P)"
  unfolding ud_set_qp_state_rts_def
  by (rule triple_then [OF ud_set_qp_state_rtr_in], rule triple_weaken [OF modify_assert]) (auto simp: next_state_def)

lemma ud_post_recv_in:
  "s \<noteq> IBV_QPS_RESET \<Longrightarrow> triple (\<lambda>tr. x_qp ctx = q \<and> qp_in ty P q s tr) (ud_post_recv P ctx) (\<lambda>_ tr. x_qp ctx = q \<and> qp_in ty P q s tr) (legal ty P)"
  unfolding ud_post_recv_def by (rule post_recv_in)

lemma ud_post_send_in:
  "triple (\<lambda>tr. x_qp ctx = q \<and> qp_in ty P q IBV_QPS_RTS tr) (ud_post_send P data len (ctx, ah))
     (\<lambda>s tr. x_qp (fst s) = q \<and> qp_in ty P q IBV_QPS_RTS tr) (legal ty P)"
  unfolding ud_post_send_def prod.case
  by (rule triple_bind [OF qp_pure], rule quiet_intros, rule triple_bind [OF post_wr_pure], rule triple_ret) simp

lemma ud_fill_in:
  "triple (qp_in ty P (x_qp ctx) IBV_QPS_RTS) (repeatv 10 (\<lambda>_. ud_post_recv P ctx) ()) (\<lambda>_. qp_in ty P (x_qp ctx) IBV_QPS_RTS) (legal ty P)"
  by (rule triple_repeat, rule triple_weaken [OF ud_post_recv_in [where s = IBV_QPS_RTS and q = "x_qp ctx"]]; simp)

lemma ud_run_server_in:
  "triple (qp_in IBV_QPT_UD P (x_qp ctx) IBV_QPS_INIT) (ud_run_server P fuel ctx data) (\<lambda>_. legal IBV_QPT_UD P) (legal IBV_QPT_UD P)"
  unfolding ud_run_server_def copy_defs
  apply (rule qp_seq, rule quiet_intros, rule triple_then [OF ud_set_qp_state_rts_in], rule triple_then [OF ud_fill_in])
  apply (rule loop_exit [OF triple_for, where A = "\<lambda>s. x_qp (fst s) = x_qp ctx"])
    apply (rule triple_repeat, rule triple_case_prod, simp only: fst_conv)
    apply (rule triple_then [OF qp_pure], rule quiet_intros, rule triple_then [OF ud_post_recv_in], simp)
    apply (rule triple_bind [OF ud_post_send_in])
    apply (rule triple_case_prod, simp only: fst_conv, rule triple_then [OF qp_pure], rule quiet_intros, rule triple_ret, simp)
  by (auto intro: quiet_intros)

lemma ud_run_client_in:
  "triple (qp_in IBV_QPT_UD P (x_qp ctx) IBV_QPS_INIT) (ud_run_client P fuel ctx data) (\<lambda>_. legal IBV_QPT_UD P) (legal IBV_QPT_UD P)"
  unfolding ud_run_client_def copy_defs
  apply (rule qp_seq, rule quiet_intros, rule triple_then [OF ud_set_qp_state_rts_in], rule qp_seq, intro quiet_intros, simp)
  apply (rule triple_then [OF ud_fill_in])
  apply (rule loop_exit [OF triple_for, where A = "\<lambda>s. x_qp (fst s) = x_qp ctx"])
    apply (rule timed_in, rule triple_case_prod, simp only: fst_conv)
    apply (rule triple_bind [OF ud_post_send_in])
    apply (rule triple_case_prod, simp only: fst_conv, rule triple_then [OF qp_pure], rule quiet_intros)
    apply (rule triple_then [OF qp_pure], rule quiet_intros, rule triple_then [OF ud_post_recv_in], simp, rule triple_ret, simp)
  by (auto intro: quiet_intros)

section \<open>Whole programs\<close>

text \<open>The common shape of the four \<^verbatim>\<open>main\<close> functions.\<close>

lemma main_in:
  assumes "triple (legal ty P) ini (\<lambda>ctx. qp_in ty P (x_qp ctx) IBV_QPS_INIT) (legal ty P)" "\<And>ctx. quiet (loc ctx)"
    and "\<And>ctx data. triple (qp_in ty P (x_qp ctx) IBV_QPS_INIT) (client ctx data) (\<lambda>_. legal ty P) (legal ty P)"
    and "\<And>ctx data. triple (qp_in ty P (x_qp ctx) IBV_QPS_INIT) (server ctx data) (\<lambda>_. legal ty P) (legal ty P)"
  shows "triple (legal ty P) (thenv (nvds_expect b msg) (bindv ini (\<lambda>ctx. bindv (loc ctx) (\<lambda>data. if c then client ctx data else server ctx data))))
    (\<lambda>_. legal ty P) (legal ty P)"
  by (rule legal_seq, rule quiet_intros, rule triple_bind [OF assms(1)], rule qp_seq, rule assms(2), rule triple_if, rule assms(3), rule assms(4))

lemma legal_main:
  assumes "triple (legal ty P) m (\<lambda>_. legal ty P) (legal ty P)"
  shows "legal ty P (snd (m []))"
proof -
  obtain r tr where "m [] = (r, tr)"
    by fastforce
  then show ?thesis
    using triple_run [OF assms, of "[]" r tr] by (simp split: sum.splits)
qed

text \<open>The two send benchmarks over a connection are the same program.\<close>

lemma send_rc_unsignaled_eq: "send_rc_unsignaled_main = send_rc_main"
  by (intro ext) (unfold send_rc_unsignaled_main_def send_rc_main_def send_rc_unsignaled_init_ctx_def send_rc_init_ctx_def
      send_rc_unsignaled_run_client_def send_rc_run_client_def send_rc_unsignaled_run_server_def send_rc_run_server_def copy_defs, rule refl)

text \<open>
  On every platform and with any arguments, the benchmarks \<^verbatim>\<open>write_rc\<close>, \<^verbatim>\<open>write_rc_unsignaled\<close>,
  \<^verbatim>\<open>send_rc\<close>, \<^verbatim>\<open>send_rc_unsignaled\<close> and \<^verbatim>\<open>send_ud\<close> use their queue pair in order, as client and
  as server, however long they run: it is moved from RESET through INIT and RTR to RTS with exactly the attributes its
  type requires, receives are posted only after INIT, and nothing is sent before RTS.
\<close>

lemma benchmarks_in_order:
  "legal IBV_QPT_RC P (snd (write_rc_main P page fuel args []))
   \<and> legal IBV_QPT_RC P (snd (write_rc_unsignaled_main P page fuel args []))
   \<and> legal IBV_QPT_RC P (snd (send_rc_main P page fuel args []))
   \<and> legal IBV_QPT_RC P (snd (send_rc_unsignaled_main P page fuel args []))
   \<and> legal IBV_QPT_UD P (snd (send_ud_main P page fuel args []))"
unfolding send_rc_unsignaled_eq
proof (intro conjI legal_main)
  note rc = init_ctx_with_in [OF nvds_set_qp_state_init_in] and ud = init_ctx_with_in [OF ud_set_qp_state_init_in]
  show "triple (legal IBV_QPT_RC P) (write_rc_main P page fuel args) (\<lambda>_. legal IBV_QPT_RC P) (legal IBV_QPT_RC P)"
    unfolding write_rc_main_def nvds_init_ctx_def Let_def by (rule main_in [OF rc _ run_client_in run_server_in]) (rule quiet_intros)
  show "triple (legal IBV_QPT_RC P) (write_rc_unsignaled_main P page fuel args) (\<lambda>_. legal IBV_QPT_RC P) (legal IBV_QPT_RC P)"
    unfolding write_rc_unsignaled_main_def copy_defs unsignaled_init_ctx_def Let_def
    by (rule main_in [OF rc _ unsignaled_run_client_in unsignaled_run_server_in]) (rule quiet_intros)
  show "triple (legal IBV_QPT_RC P) (send_rc_main P page fuel args) (\<lambda>_. legal IBV_QPT_RC P) (legal IBV_QPT_RC P)"
    "triple (legal IBV_QPT_RC P) (send_rc_main P page fuel args) (\<lambda>_. legal IBV_QPT_RC P) (legal IBV_QPT_RC P)"
    unfolding send_rc_main_def send_rc_init_ctx_def copy_defs Let_def
    by (rule main_in [OF rc _ send_rc_run_client_in send_rc_run_server_in], rule quiet_intros)+
  show "triple (legal IBV_QPT_UD P) (send_ud_main P page fuel args) (\<lambda>_. legal IBV_QPT_UD P) (legal IBV_QPT_UD P)"
    unfolding send_ud_main_def copy_defs ud_init_ctx_def Let_def
    by (rule main_in [OF ud _ ud_run_client_in ud_run_server_in]) (rule quiet_intros)
qed

section \<open>The exchange of connection data\<close>

text \<open>What a program has written to its socket.\<close>

definition written :: "history \<Rightarrow> u8 list" where
  "written tr = concat (map (\<lambda>c. case c of Os (Write_sock fd bs) \<Rightarrow> bs | _ \<Rightarrow> []) (rev tr))"

lemma written_simps [simp]:
  "written [] = []" "written (Os (Write_sock fd bs) # tr) = written tr @ bs"
  "written (Os (Read_sock fd n) # tr) = written tr" "written (Os (Close fd) # tr) = written tr" "written (Os Socket # tr) = written tr"
  "written (Os (Setsockopt fd) # tr) = written tr" "written (Os (Bind fd n) # tr) = written tr" "written (Os (Listen fd n) # tr) = written tr"
  "written (Os (Accept fd) # tr) = written tr" "written (Os (Inet_pton s) # tr) = written tr" "written (Os (Connect fd n) # tr) = written tr"
  by (simp_all add: written_def)

lemma server_exch_run:
  assumes "nvds_server_exch_info P data tr = (Inr data', tr')"
  shows "written tr' = written tr @ conn_bytes (d_local data)"
    "\<exists>t fd. data' = data\<lparr>d_remote := conn_of (p_bytes P t (Os (Read_sock fd 24)))\<rparr>"
  using assms by (auto simp: nvds_server_exch_info_def Let_def run_Inr split: prod.splits)

lemma client_exch_run:
  assumes "nvds_client_exch_info P data tr = (Inr data', tr')"
  shows "written tr' = written tr @ conn_bytes (d_local data)"
    "\<exists>t fd. data' = data\<lparr>d_remote := conn_of (p_bytes P t (Os (Read_sock fd 24)))\<rparr>"
  using assms by (auto simp: nvds_client_exch_info_def Let_def run_Inr split: prod.splits)

text \<open>
  C38: When client and server both return from the exchange over a connection that delivers what
  was written, each has the connection data of the other: identifier, queue pair number, packet
  number, key and address of its memory.
\<close>

theorem connection_exchange:
  assumes "written trs = []" "written trc = []"
    and "nvds_server_exch_info Ps ds trs = (Inr ds', trs')" "nvds_client_exch_info Pc dc trc = (Inr dc', trc')"
    and "\<And>t fd. p_bytes Ps t (Os (Read_sock fd 24)) = take 24 (written trc')"
    and "\<And>t fd. p_bytes Pc t (Os (Read_sock fd 24)) = take 24 (written trs')"
  shows "d_remote ds' = d_local dc \<and> d_remote dc' = d_local ds \<and> d_local ds' = d_local ds \<and> d_local dc' = d_local dc"
proof -
  have "written trs' = conn_bytes (d_local ds)" "written trc' = conn_bytes (d_local dc)"
    using server_exch_run(1) [OF assms(3)] client_exch_run(1) [OF assms(4)] assms(1,2) by simp_all
  then have "conn_of (p_bytes Ps t (Os (Read_sock fd 24))) = d_local dc" "conn_of (p_bytes Pc t (Os (Read_sock fd 24))) = d_local ds" for t fd
    using assms(5,6) codec_conn.dec_take [of _ "[]"] by simp_all
  then show ?thesis
    using server_exch_run(2) [OF assms(3)] client_exch_run(2) [OF assms(4)] by auto
qed

text \<open>A platform on which every call succeeds and a socket delivers the given bytes.\<close>

definition bench_platform :: "u8 list \<Rightarrow> platform" where
  "bench_platform bs = \<lparr>p_int = (\<lambda>tr c. case c of Os (Read_sock fd n) \<Rightarrow> 24 | Os (Write_sock fd b) \<Rightarrow> 24 | Os (Inet_pton s) \<Rightarrow> 1
       | Poll_cq cq n \<Rightarrow> 1 | _ \<Rightarrow> 0),
     p_ptr = (\<lambda>tr c. length tr + 1), p_wc = (\<lambda>tr c. \<lparr>wc_status = 0, wc_id = RDMA_WRITE_ID, wc_byte_len = 1, wc_slid = 3, wc_src_qp = 70\<rparr>),
     p_bytes = (\<lambda>tr c. bs), p_byte = (\<lambda>tr c. 1), p_attr = (\<lambda>tr c. qp_attr0), p_lid = (\<lambda>tr c. 3), p_time = (\<lambda>tr c. (0, 0)),
     p_lkey = (\<lambda>m. 5), p_rkey = (\<lambda>m. 6), p_qp_num = (\<lambda>q. 70)\<rparr>"

definition sample_conn :: "u32 \<Rightarrow> nvds_ib_connection" where
  "sample_conn q = \<lparr>c_lid = 3, c_qpn = q, c_psn = 33, c_rkey = 9, c_vaddr = 4096\<rparr>"

theorem connection_exchange_witness:
  "\<exists>ds' dc' trs trc.
     nvds_server_exch_info (bench_platform (conn_bytes (sample_conn 2))) ((data0 None)\<lparr>d_local := sample_conn 1\<rparr>) [] = (Inr ds', trs)
   \<and> nvds_client_exch_info (bench_platform (conn_bytes (sample_conn 1))) ((data0 None)\<lparr>d_local := sample_conn 2\<rparr>) [] = (Inr dc', trc)
   \<and> d_remote ds' = sample_conn 2 \<and> d_remote dc' = sample_conn 1"
proof -
  let ?Ps = "bench_platform (conn_bytes (sample_conn 2))" and ?Pc = "bench_platform (conn_bytes (sample_conn 1))"
  let ?ds = "(data0 None)\<lparr>d_local := sample_conn 1\<rparr>" and ?dc = "(data0 None)\<lparr>d_local := sample_conn 2\<rparr>"
  obtain ds' trs where s: "nvds_server_exch_info ?Ps ?ds [] = (Inr ds', trs)"
    by (simp add: nvds_server_exch_info_def vprog_defs bench_platform_def Let_def)
  obtain dc' trc where c: "nvds_client_exch_info ?Pc ?dc [] = (Inr dc', trc)"
    by (simp add: nvds_client_exch_info_def vprog_defs bench_platform_def Let_def)
  have w: "written trs = conn_bytes (sample_conn 1)" "written trc = conn_bytes (sample_conn 2)"
    using server_exch_run(1) [OF s] client_exch_run(1) [OF c] by simp_all
  have b: "p_bytes (bench_platform bs) t call = bs" for bs t call
    by (simp add: bench_platform_def)
  have "d_remote ds' = sample_conn 2 \<and> d_remote dc' = sample_conn 1"
    using connection_exchange [OF _ _ s c] by (simp add: w b codec_conn.length_enc)
  with s c show ?thesis
    by blast
qed

section \<open>Unsignalled writes\<close>

text \<open>
  The writes of a queue pair that may still occupy its send queue, oldest first, each with whether
  it is signalled. Only a signalled write produces a completion, and a connected queue pair
  completes its writes in order: each completion that a poll of its completion queue returns is that
  of the oldest signalled write, and frees it and the unsignalled writes before it. Writes after it,
  and writes no signalled write follows, stay.
\<close>

definition retire :: "bool list \<Rightarrow> bool list" where
  "retire bs = (case dropWhile Not bs of [] \<Rightarrow> bs | _ # later \<Rightarrow> later)"

fun pending :: "platform \<Rightarrow> nat \<Rightarrow> nat \<Rightarrow> history \<Rightarrow> bool list" where
  "pending P q cq [] = []"
| "pending P q cq (c # tr) =
     (case c of
        Post_send q' wrs \<Rightarrow> if q' = q then pending P q cq tr @ map (\<lambda>wr. IBV_SEND_SIGNALED \<in> send_flags wr) wrs
          else pending P q cq tr
      | Poll_cq cq' n \<Rightarrow> if cq' = cq then (retire ^^ nat (p_int P tr c)) (pending P q cq tr) else pending P q cq tr
      | _ \<Rightarrow> pending P q cq tr)"

definition outstanding :: "platform \<Rightarrow> nat \<Rightarrow> nat \<Rightarrow> history \<Rightarrow> nat" where
  "outstanding P q cq tr = length (pending P q cq tr)"

primrec within :: "platform \<Rightarrow> nat \<Rightarrow> nat \<Rightarrow> nat \<Rightarrow> history \<Rightarrow> bool" where
  "within P q cq N [] \<longleftrightarrow> True"
| "within P q cq N (c # tr) \<longleftrightarrow> outstanding P q cq (c # tr) \<le> N \<and> within P q cq N tr"

text \<open>
  The writes outstanding are one of the given lists, which a completion does not leave, and never
  were more than \<open>N\<close>.
\<close>

definition window :: "platform \<Rightarrow> nat \<Rightarrow> nat \<Rightarrow> nat \<Rightarrow> bool list set \<Rightarrow> history \<Rightarrow> bool" where
  "window P q cq N k tr \<longleftrightarrow> pending P q cq tr \<in> k \<and> (\<forall>bs\<in>k. length bs \<le> N \<and> retire bs \<in> k) \<and> within P q cq N tr"

lemma retire_closed: "\<forall>bs\<in>k. retire bs \<in> k \<Longrightarrow> bs \<in> k \<Longrightarrow> (retire ^^ n) bs \<in> k"
  by (induction n) auto

lemma window_neutral: "window P q cq N k tr \<Longrightarrow> neutral c \<Longrightarrow> window P q cq N k (c # tr)"
  using retire_closed [of k "pending P q cq tr"] by (cases c) (auto simp: window_def outstanding_def)

lemma window_list: "window P q cq N k tr \<Longrightarrow> list_all neutral cs \<Longrightarrow> window P q cq N k (cs @ tr)"
  by (induction cs) (simp_all add: window_neutral)

lemma quiet_window: "quiet m \<Longrightarrow> triple (window P q cq N k) m (\<lambda>_. window P q cq N k) (within P q cq N)"
proof -
  assume "quiet m"
  then have "window P q cq N k tr \<Longrightarrow> m tr = (r, tr') \<Longrightarrow> window P q cq N k tr'" for tr r tr'
    unfolding quiet_def using window_list by blast
  moreover have "window P q cq N k tr \<Longrightarrow> within P q cq N tr" for tr
    by (simp add: window_def)
  ultimately show ?thesis
    unfolding triple_def by (metis (mono_tags, lifting) case_prod_conv old.sum.simps(5,6) prod.collapse sum.exhaust)
qed

lemma window_seq:
  "quiet m \<Longrightarrow> (\<And>x. triple (window P q cq N k) (f x) D (within P q cq N)) \<Longrightarrow> triple (window P q cq N k) (bindv m f) D (within P q cq N)"
  "quiet m \<Longrightarrow> triple (window P q cq N k) n D (within P q cq N) \<Longrightarrow> triple (window P q cq N k) (thenv m n) D (within P q cq N)"
  by (rule triple_bind [OF quiet_window] triple_then [OF quiet_window]; assumption)+

lemma window_modify: "triple (window P q cq N k) (ask f (Modify_qp q' a m)) (\<lambda>_. window P q cq N k) (within P q cq N)"
  by (rule triple_ask) (simp add: window_def outstanding_def)

lemma rts_window: "triple (window P q cq N k) (nvds_set_qp_state_rts P q' data) (\<lambda>_. window P q cq N k) (within P q cq N)"
  unfolding nvds_set_qp_state_rts_def nvds_set_qp_state_rtr_def
  by (rule triple_then, rule triple_bind [OF window_modify], rule quiet_window, rule quiet_intros,
      rule triple_bind [OF window_modify], rule quiet_window, rule quiet_intros)

lemma triple_spin_until:
  assumes "triple A m (\<lambda>x tr. if ready x then D x tr else A tr) C" "\<And>tr. A tr \<Longrightarrow> C tr"
  shows "triple A (spin n m ready) D C"
proof (induction n)
  case (Suc n)
  have "triple (\<lambda>tr. if ready x then D x tr else A tr) (if ready x then ret x else spin n m ready) D C" for x
    using Suc by (cases "ready x") (simp_all add: triple_ret)
  then show ?case
    by (simp add: triple_bind [OF assms(1)])
qed (simp add: triple_fail assms(2))

text \<open>
  After \<open>k\<close> writes of a batch: all of them are outstanding, and the hundredth, which is signalled,
  frees the whole batch when it completes.
\<close>

definition batch :: "nat \<Rightarrow> bool list set" where
  "batch k = (if k = 100 then {replicate 99 False @ [True], []} else {replicate k False})"

lemma retire_simps:
  "retire [] = []" "retire (replicate k False) = replicate k False" "retire (replicate k False @ [True]) = []"
proof -
  have "dropWhile Not (replicate k False @ xs) = dropWhile Not xs" for xs
    by (induction k) simp_all
  from this [of "[]"] this [of "[True]"]
  show "retire [] = []" "retire (replicate k False) = replicate k False" "retire (replicate k False @ [True]) = []"
    by (simp_all add: retire_def)
qed

lemma batch_closed: "k \<le> 100 \<Longrightarrow> bs \<in> batch k \<Longrightarrow> length bs \<le> 100 \<and> retire bs \<in> batch k"
  by (auto simp: batch_def retire_simps split: if_splits)

lemma batch_Suc: "k < 100 \<Longrightarrow> bs \<in> batch k \<Longrightarrow> bs @ [k = 99] \<in> batch (Suc k)"
  by (auto simp: batch_def replicate_append_same split: if_splits)

text \<open>A poll for the completion of a whole batch that returns leaves no write outstanding.\<close>

lemma poll_send_window:
  "triple (window P q (x_scq ctx) 100 (batch 100)) (nvds_poll_send P fuel ctx) (\<lambda>_. window P q (x_scq ctx) 100 {[]})
     (within P q (x_scq ctx) 100)"
proof -
  let ?cq = "x_scq ctx" and ?w = "window P q (x_scq ctx) 100 (batch 100)"
  have "?w (Poll_cq ?cq 1 # tr)" if "?w tr" for tr
    using retire_closed [of "batch 100" "pending P q ?cq tr"] batch_closed [of 100] that
    by (auto simp: window_def outstanding_def)
  moreover have "window P q ?cq 100 {[]} (Poll_cq ?cq 1 # tr)" if "?w tr" "p_int P tr (Poll_cq ?cq 1) = 1" for tr
    using that by (auto simp: window_def outstanding_def batch_def retire_simps)
  ultimately have "triple ?w (ask (\<lambda>tr c. (p_int P tr c, p_wc P tr c)) (Poll_cq ?cq 1))
      (\<lambda>(r, wc) tr. if r = 1 then window P q ?cq 100 {[]} tr else ?w tr) (within P q ?cq 100)"
    by (intro triple_ask) auto
  then have "triple ?w (spin fuel (ask (\<lambda>tr c. (p_int P tr c, p_wc P tr c)) (Poll_cq ?cq 1)) (\<lambda>(r, _). r = 1))
      (\<lambda>_. window P q ?cq 100 {[]}) (within P q ?cq 100)"
    by (intro triple_spin_until) (auto simp: window_def case_prod_unfold)
  then show ?thesis
    unfolding nvds_poll_send_def
    by (rule triple_bind) (auto intro!: triple_case_prod quiet_window quiet_intros split: prod.splits)
qed

text \<open>
  The state of the loops: the context still names its queues, and \<open>k\<close> unsignalled writes have been
  posted since the last completion.
\<close>

definition counting :: "platform \<Rightarrow> nat \<Rightarrow> nat \<Rightarrow> nvds_context \<times> nat \<Rightarrow> history \<Rightarrow> bool" where
  "counting P q cq s tr \<longleftrightarrow> x_qp (fst s) = q \<and> x_scq (fst s) = cq \<and> snd s < 100 \<and> window P q cq 100 (batch (snd s)) tr"

lemma counting_quiet: "quiet m \<Longrightarrow> triple (counting P q cq s) m (\<lambda>_. counting P q cq s) (within P q cq 100)"
proof (cases "x_qp (fst s) = q \<and> x_scq (fst s) = cq \<and> snd s < 100")
  case True
  then have "counting P q cq s = window P q cq 100 (batch (snd s))"
    by (simp add: counting_def fun_eq_iff)
  then show "quiet m \<Longrightarrow> ?thesis"
    using quiet_window by simp
qed (auto simp: counting_def triple_def)

lemma post_wr_window:
  assumes "x_qp ctx = q" "x_scq ctx = cq" "k < 100" "IBV_SEND_SIGNALED \<in> send_flags wr \<longleftrightarrow> k = 99"
  shows "triple (window P q cq 100 (batch k)) (post_wr P ctx wr)
    (\<lambda>ctx' tr. x_qp ctx' = q \<and> x_scq ctx' = cq \<and> window P q cq 100 (batch (Suc k)) tr) (within P q cq 100)"
  unfolding post_wr_def
proof (rule triple_bind)
  show "triple (window P q cq 100 (batch k)) (ask (p_int P) (Post_send (x_qp ctx) [wr]))
      (\<lambda>_. window P q cq 100 (batch (Suc k))) (within P q cq 100)"
  proof (rule triple_ask)
    fix tr
    assume w: "window P q cq 100 (batch k) tr"
    then have "pending P q cq tr @ [k = 99] \<in> batch (Suc k)"
      using batch_Suc [OF assms(3)] by (simp add: window_def)
    moreover from this have "length (pending P q cq tr @ [k = 99]) \<le> 100"
      using batch_closed [of "Suc k" "pending P q cq tr @ [k = 99]"] assms(3) by auto
    moreover have "pending P q cq (Post_send (x_qp ctx) [wr] # tr) = pending P q cq tr @ [k = 99]"
      using assms by simp
    ultimately show "window P q cq 100 (batch (Suc k)) (Post_send (x_qp ctx) [wr] # tr)"
      using w assms(3) batch_closed [of "Suc k"] by (simp add: window_def outstanding_def del: pending.simps)
  qed
  show "triple (window P q cq 100 (batch (Suc k))) (thenv (nvds_expect (err = 0) ''ibv_post_send() failed'') (ret (ctx\<lparr>x_wr := wr\<rparr>)))
      (\<lambda>ctx' tr. x_qp ctx' = q \<and> x_scq ctx' = cq \<and> window P q cq 100 (batch (Suc k)) tr) (within P q cq 100)" for err :: int
    by (rule window_seq, rule quiet_intros, rule triple_ret) (use assms in simp)
qed

lemma unsignaled_rdma_write_counting:
  "triple (counting P q cq s) (unsignaled_rdma_write P fuel data len s) (counting P q cq) (within P q cq 100)"
proof (cases "x_qp (fst s) = q \<and> x_scq (fst s) = cq \<and> snd s < 100")
  case True
  then obtain ctx k where s: "s = (ctx, k)" and c: "x_qp ctx = q" "x_scq ctx = cq" "k < 100"
    by (cases s) auto
  have post: "triple (counting P q cq s)
      (post_wr P ctx (buf_wr P ctx len IBV_WR_RDMA_WRITE (if k = 99 then {IBV_SEND_SIGNALED} else {}) (remote_mem data)))
      (\<lambda>ctx' tr. x_qp ctx' = q \<and> x_scq ctx' = cq \<and> window P q cq 100 (batch (Suc k)) tr) (within P q cq 100)"
    by (rule triple_weaken [OF post_wr_window [OF c]]) (auto simp: buf_wr_def counting_def s)
  have "triple (\<lambda>tr. x_qp ctx' = q \<and> x_scq ctx' = cq \<and> window P q cq 100 (batch (Suc k)) tr)
      (thenv (if k = 99 then nvds_poll_send P fuel ctx' else ret ()) (ret (ctx', (k + 1) mod 100))) (counting P q cq) (within P q cq 100)" for ctx'
  proof (cases "x_qp ctx' = q \<and> x_scq ctx' = cq")
    case ctx: True
    show ?thesis
    proof (cases "k = 99")
      case True
      have "triple (window P q cq 100 (batch (Suc k))) (nvds_poll_send P fuel ctx') (\<lambda>_. window P q cq 100 {[]}) (within P q cq 100)"
        using poll_send_window [of P q ctx' fuel] ctx True by simp
      then show ?thesis
        using True ctx by (auto intro!: triple_then [where B = "window P q cq 100 {[]}"] triple_ret simp: counting_def batch_def)
    next
      case False
      with c(3) have "(k + 1) mod 100 = Suc k" "Suc k < 100"
        by simp_all
      then show ?thesis
        using False ctx by (auto intro!: triple_then [where B = "window P q cq 100 (batch (Suc k))"] triple_ret simp: counting_def)
    qed
  qed (auto simp: triple_def)
  with post show ?thesis
    unfolding unsignaled_rdma_write_def copy_defs s prod.case by (intro triple_bind)
qed (auto simp: triple_def counting_def)

lemma counting_seq:
  "quiet m \<Longrightarrow> (\<And>x. triple (counting P q cq s) (f x) D (within P q cq 100)) \<Longrightarrow> triple (counting P q cq s) (bindv m f) D (within P q cq 100)"
  "quiet m \<Longrightarrow> triple (counting P q cq s) n D (within P q cq 100) \<Longrightarrow> triple (counting P q cq s) (thenv m n) D (within P q cq 100)"
  by (rule triple_bind [OF counting_quiet] triple_then [OF counting_quiet]; assumption)+

lemma counting_end: "quiet m \<Longrightarrow> triple (counting P q cq s) m (\<lambda>_. within P q cq 100) (within P q cq 100)"
  by (rule triple_weaken [OF counting_quiet]) (auto simp: counting_def window_def)

lemma unsignaled_run_client_window:
  "triple (window P (x_qp ctx) (x_scq ctx) 100 {[]}) (unsignaled_run_client P fuel ctx data) (\<lambda>_. within P (x_qp ctx) (x_scq ctx) 100) (within P (x_qp ctx) (x_scq ctx) 100)"
  unfolding unsignaled_run_client_def copy_defs
  apply (rule window_seq, rule quiet_intros, rule triple_then [OF rts_window], rule window_seq, intro quiet_intros, simp,
      rule window_seq, rule quiet_intros)
  apply (rule triple_weaken [where A' = "counting P (x_qp ctx) (x_scq ctx) (ctx, 0)"])
     apply (rule triple_bind, rule triple_for)
      apply (unfold timed_def, rule counting_seq, rule quiet_intros, rule triple_bind, rule triple_repeat)
       apply (rule triple_bind [OF unsignaled_rdma_write_counting], rule triple_case_prod)
       apply (rule counting_seq, rule quiet_intros, rule counting_seq, rule quiet_intros, rule triple_ret, assumption)
      apply (rule counting_seq, rule quiet_intros, rule triple_ret, assumption)
     apply (rule counting_end, rule quiet_intros)
  by (auto simp: counting_def batch_def)

lemma unsignaled_run_server_window:
  "triple (window P (x_qp ctx) (x_scq ctx) 100 {[]}) (unsignaled_run_server P fuel ctx data) (\<lambda>_. within P (x_qp ctx) (x_scq ctx) 100) (within P (x_qp ctx) (x_scq ctx) 100)"
  unfolding unsignaled_run_server_def copy_defs
  apply (rule window_seq, rule quiet_intros, rule triple_then [OF rts_window], rule window_seq, rule quiet_intros)
  apply (rule triple_weaken [where A' = "counting P (x_qp ctx) (x_scq ctx) (ctx, 0)"])
     apply (rule triple_bind, rule triple_repeat, rule triple_case_prod)
      apply (rule counting_seq, rule quiet_intros, rule counting_seq, rule quiet_intros, rule unsignaled_rdma_write_counting)
     apply (rule counting_end, rule quiet_intros)
  by (auto simp: counting_def batch_def)

text \<open>
  C39: In \<^verbatim>\<open>write_rc_unsignaled\<close> only the last of every hundred writes is signalled and waited for.
  Only the completion of a signalled write frees slots of the send queue, its own and those of the
  writes before it; still, on every platform and at every moment of a run of client or server that
  starts with an empty send queue, at most as many writes are outstanding as the send queue of the
  queue pair has room for.
\<close>

theorem unsignaled_writes_fit:
  assumes "outstanding P (x_qp ctx) (x_scq ctx) tr = 0" "within P (x_qp ctx) (x_scq ctx) (d_tx_depth (data0 server)) tr"
  shows "within P (x_qp ctx) (x_scq ctx) (d_tx_depth (data0 server)) (snd (unsignaled_run_client P fuel ctx data tr))
    \<and> within P (x_qp ctx) (x_scq ctx) (d_tx_depth (data0 server)) (snd (unsignaled_run_server P fuel ctx data tr))"
proof -
  have d: "d_tx_depth (data0 server) = 100"
    by (simp add: data0_def)
  have w: "window P (x_qp ctx) (x_scq ctx) 100 {[]} tr"
    using assms by (simp add: window_def d outstanding_def retire_simps)
  have run: "within P (x_qp ctx) (x_scq ctx) 100 (snd (m tr))"
    if "triple (window P (x_qp ctx) (x_scq ctx) 100 {[]}) m (\<lambda>_. within P (x_qp ctx) (x_scq ctx) 100) (within P (x_qp ctx) (x_scq ctx) 100)" for m
    using triple_run [OF that w prod.collapse [symmetric]] by (simp split: sum.splits)
  show ?thesis
    unfolding d using run [OF unsignaled_run_client_window] run [OF unsignaled_run_server_window] by blast
qed

theorem unsignaled_writes_fit_witness:
  "within (bench_platform []) 1 2 100 (snd (unsignaled_run_server (bench_platform []) 7 (context0\<lparr>x_qp := 1, x_scq := 2\<rparr>) (data0 None) []))"
  using unsignaled_writes_fit [of "bench_platform []" "context0\<lparr>x_qp := 1, x_scq := 2\<rparr>" "[]" None 7 "data0 None"]
  by (simp add: data0_def outstanding_def)

end
