(* ===== verification/Exp_Multi.thy ===== *)
theory Exp_Multi
  imports Exp_Theorems
begin

text \<open>
  The benchmark \<^verbatim>\<open>write_rc_multi\<close> with its 1024 queue pairs: on a platform that hands out a new
  address for every new queue pair they are all used in order, although the program sets them up
  in one loop, connects them in a second and takes turns with them in a third.
\<close>

section \<open>Several queue pairs\<close>

text \<open>The queue pairs created so far.\<close>

primrec created :: "platform \<Rightarrow> history \<Rightarrow> nat set" where
  "created P [] = {}"
| "created P (c # tr) = (case c of Create_qp pd i \<Rightarrow> insert (p_ptr P tr c) (created P tr) | _ \<Rightarrow> created P tr)"

text \<open>
  The programs destroy no queue pair, so \<^verbatim>\<open>ibv_create_qp\<close> returns null or the address of an object
  that is different from all objects created before.
\<close>

definition fresh_qps :: "platform \<Rightarrow> bool" where
  "fresh_qps P \<longleftrightarrow> (\<forall>tr pd i. p_ptr P tr (Create_qp pd i) = 0 \<or> p_ptr P tr (Create_qp pd i) \<notin> created P tr)"

text \<open>
  \<open>steady P Q m\<close>: whatever \<open>m\<close> does, it creates no queue pair and leaves those of \<open>Q\<close> in the state
  they are in.
\<close>

definition steady :: "platform \<Rightarrow> nat set \<Rightarrow> 'a vprog \<Rightarrow> bool" where
  "steady P Q m \<longleftrightarrow> (\<forall>tr r tr'. m tr = (r, tr') \<longrightarrow> created P tr' = created P tr \<and> (\<forall>q\<in>Q. qp_at P tr' q = qp_at P tr q))"

lemma created_neutral: "list_all neutral cs \<Longrightarrow> created P (cs @ tr) = created P tr"
proof (induction cs)
  case (Cons c cs)
  then show ?case
    by (cases c) simp_all
qed simp

lemma quiet_steady: "quiet m \<Longrightarrow> steady P Q m"
  unfolding steady_def quiet_def by (metis created_neutral neutral_list)

lemma steady_bind: "steady P Q m \<Longrightarrow> (\<And>x. steady P Q (f x)) \<Longrightarrow> steady P Q (bindv m f)"
  unfolding steady_def bindv_def by (fastforce split: prod.splits sum.splits)

lemma steady_then: "steady P Q m \<Longrightarrow> steady P Q n \<Longrightarrow> steady P Q (thenv m n)"
  unfolding thenv_def by (rule steady_bind)

lemma steady_modify: "q \<notin> Q \<Longrightarrow> steady P Q (ask f (Modify_qp q a m))"
  by (auto simp: steady_def ask_def)

lemma steady_moves:
  assumes "q \<notin> Q"
  shows "steady P Q (nvds_set_qp_state_init P q data)" "steady P Q (nvds_set_qp_state_rtr P q data)" "steady P Q (nvds_set_qp_state_rts P q data)"
proof -
  note step = steady_bind [OF steady_modify [OF assms] quiet_steady [OF quiet_expect(1)]]
  show "steady P Q (nvds_set_qp_state_init P q data)"
    unfolding nvds_set_qp_state_init_def by (rule step)
  show rtr: "steady P Q (nvds_set_qp_state_rtr P q data)"
    unfolding nvds_set_qp_state_rtr_def by (rule step)
  show "steady P Q (nvds_set_qp_state_rts P q data)"
    unfolding nvds_set_qp_state_rts_def by (rule steady_then [OF rtr step])
qed

text \<open>What holds of one queue pair holds beside the others.\<close>

lemma triple_frame:
  assumes "triple A m B C" "steady P (f ` J) m"
  shows "triple (\<lambda>tr. A tr \<and> N \<subseteq> created P tr \<and> (\<forall>j\<in>J. qp_at P tr (f j) = g j)) m
    (\<lambda>x tr. B x tr \<and> N \<subseteq> created P tr \<and> (\<forall>j\<in>J. qp_at P tr (f j) = g j)) C"
  using assms unfolding triple_def steady_def by (fastforce split: prod.splits sum.splits)

lemma triple_upt:
  assumes "\<And>i s. i < n \<Longrightarrow> triple (I i s) (f i s) (I (Suc i)) C"
  shows "triple (I 0 s) (forv [0..<n] f s) (I n) C"
proof -
  have "triple (I a s) (forv [a..<n] f s) (I n) C" if "a \<le> n" for a s
    using that
  proof (induction "n - a" arbitrary: a s)
    case 0
    then show ?case
      by (auto intro: triple_ret)
  next
    case (Suc k)
    then have "triple (I (Suc a) s') (forv [Suc a..<n] f s') (I n) C" for s'
      by (intro Suc.hyps(1)) linarith+
    then show ?case
      using Suc.hyps(2) by (auto simp: upt_conv_Cons intro!: triple_bind [OF assms])
  qed
  then show ?thesis
    by simp
qed

section \<open>Setting up\<close>

text \<open>The first \<open>n\<close> contexts have different queue pairs, in the states \<open>g\<close>.\<close>

definition pairs_in :: "platform \<Rightarrow> nat \<Rightarrow> (nat \<Rightarrow> qp_state) \<Rightarrow> nvds_context list \<Rightarrow> history \<Rightarrow> bool" where
  "pairs_in P n g cs tr \<longleftrightarrow> legal IBV_QPT_RC P tr \<and> length cs = NUM_QP \<and> n \<le> NUM_QP
     \<and> inj_on (\<lambda>i. x_qp (cs ! i)) {..<n} \<and> (\<lambda>i. x_qp (cs ! i)) ` {..<n} \<subseteq> created P tr
     \<and> (\<forall>i<n. qp_at P tr (x_qp (cs ! i)) = g i)"

lemma pairs_in_legal: "pairs_in P n g cs tr \<Longrightarrow> legal IBV_QPT_RC P tr"
  by (simp add: pairs_in_def)

lemma pairs_quiet: "quiet m \<Longrightarrow> triple (pairs_in P n g cs) m (\<lambda>_. pairs_in P n g cs) (legal IBV_QPT_RC P)"
proof -
  assume m: "quiet m"
  have "triple (legal IBV_QPT_RC P) m (\<lambda>_. legal IBV_QPT_RC P) (legal IBV_QPT_RC P)"
    by (rule quiet_legal [OF m])
  with quiet_steady [OF m, of P UNIV] show ?thesis
    unfolding triple_def steady_def pairs_in_def by (fastforce split: prod.splits sum.splits)
qed

lemma pairs_seq:
  "quiet m \<Longrightarrow> (\<And>x. triple (pairs_in P n g cs) (f x) D (legal IBV_QPT_RC P)) \<Longrightarrow> triple (pairs_in P n g cs) (bindv m f) D (legal IBV_QPT_RC P)"
  "quiet m \<Longrightarrow> triple (pairs_in P n g cs) k D (legal IBV_QPT_RC P) \<Longrightarrow> triple (pairs_in P n g cs) (thenv m k) D (legal IBV_QPT_RC P)"
  by (rule triple_bind [OF pairs_quiet] triple_then [OF pairs_quiet]; assumption)+

lemma pairs_move:
  assumes "i < n" "\<And>q. triple (qp_in IBV_QPT_RC P q s) (m q) (\<lambda>_. qp_in IBV_QPT_RC P q s') (legal IBV_QPT_RC P)"
    and "\<And>q Q. q \<notin> Q \<Longrightarrow> steady P Q (m q)" "g i = s"
  shows "triple (pairs_in P n g cs) (m (x_qp (cs ! i))) (\<lambda>_. pairs_in P n (g(i := s')) cs) (legal IBV_QPT_RC P)"
proof -
  let ?f = "\<lambda>i. x_qp (cs ! i)"
  have "triple (pairs_in P n g cs) (m (?f i)) (\<lambda>_. pairs_in P n (g(i := s')) cs) (legal IBV_QPT_RC P)"
    if inj: "inj_on ?f {..<n}" "length cs = NUM_QP" "n \<le> NUM_QP"
  proof -
    have "?f i \<notin> ?f ` ({..<n} - {i})"
      using inj(1) assms(1) by (auto simp: inj_on_def)
    from triple_frame [OF assms(2) assms(3) [OF this], where N = "?f ` {..<n}" and g = g]
    show ?thesis
      by (rule triple_weaken) (use inj assms(1,4) in \<open>auto simp: pairs_in_def qp_in_def\<close>)
  qed
  then show ?thesis
    by (auto simp: triple_def pairs_in_def)
qed

abbreviation "all_in s \<equiv> (\<lambda>_ :: nat. s :: qp_state)"

text \<open>Of the contexts only their queue pairs matter.\<close>

lemma pairs_context:
  assumes "x_qp c = x_qp c'"
  shows "pairs_in P m g (cs[n := c]) = pairs_in P m g (cs[n := c'])"
proof -
  have "x_qp (cs[n := c] ! i) = x_qp (cs[n := c'] ! i)" for i
    using assms by (cases "n < length cs") (simp_all add: nth_list_update list_update_beyond)
  then show ?thesis
    by (intro ext) (simp add: pairs_in_def)
qed

lemma pairs_create:
  assumes "fresh_qps P" "n < NUM_QP" "init_type i = IBV_QPT_RC"
  shows "triple (pairs_in P n g cs) (ask (p_ptr P) (Create_qp pd i))
    (\<lambda>q tr. legal IBV_QPT_RC P tr \<and> (q \<noteq> 0 \<longrightarrow> pairs_in P (Suc n) (g(n := IBV_QPS_RESET)) (cs[n := context0\<lparr>x_qp := q\<rparr>]) tr))
    (legal IBV_QPT_RC P)"
proof (rule triple_ask, intro conjI impI)
  fix tr
  let ?q = "p_ptr P tr (Create_qp pd i)"
  assume p: "pairs_in P n g cs tr"
  then show "legal IBV_QPT_RC P (Create_qp pd i # tr)"
    using assms(3) by (simp add: pairs_in_def in_order_def)
  assume "?q \<noteq> 0"
  then have new: "?q \<notin> created P tr"
    using assms(1) [unfolded fresh_qps_def, rule_format, of tr pd i] by simp
  have "\<forall>j<n. x_qp (cs ! j) \<noteq> ?q \<and> ?q \<noteq> x_qp (cs ! j) \<and> x_qp (cs ! j) \<in> created P tr"
    using p new by (auto simp: pairs_in_def)
  then show "pairs_in P (Suc n) (g(n := IBV_QPS_RESET)) (cs[n := context0\<lparr>x_qp := ?q\<rparr>]) (Create_qp pd i # tr)"
    using p assms(2,3) by (auto simp: pairs_in_def in_order_def inj_on_def less_Suc_eq)
qed

lemma pairs_new_init:
  assumes "n < NUM_QP"
  shows "triple (pairs_in P (Suc n) ((all_in IBV_QPS_INIT)(n := IBV_QPS_RESET)) (cs[n := context0\<lparr>x_qp := q\<rparr>]))
    (nvds_set_qp_state_init P q data) (\<lambda>_. pairs_in P (Suc n) (all_in IBV_QPS_INIT) (cs[n := context0\<lparr>x_qp := q\<rparr>])) (legal IBV_QPT_RC P)"
    (is "triple (pairs_in P _ ?g ?cs) _ _ _")
proof (cases "length cs = NUM_QP")
  case True
  then have "x_qp (?cs ! n) = q" "?g(n := IBV_QPS_INIT) = all_in IBV_QPS_INIT"
    using assms by auto
  with pairs_move [OF lessI [of n] nvds_set_qp_state_init_in steady_moves(1), where g = ?g and cs = ?cs] show ?thesis
    by simp
next
  case False
  then show ?thesis
    by (simp add: triple_def pairs_in_def)
qed

text \<open>After \<open>n\<close> rounds of the initialisation the first \<open>n\<close> queue pairs are initialised.\<close>

lemma pairs_created_then:
  assumes "n < NUM_QP" "x_qp c = q"
  shows "triple (\<lambda>tr. legal IBV_QPT_RC P tr \<and> (q \<noteq> 0 \<longrightarrow> pairs_in P (Suc n) ((all_in IBV_QPS_INIT)(n := IBV_QPS_RESET)) (cs[n := context0\<lparr>x_qp := q\<rparr>]) tr))
    (thenv (nvds_expect (q \<noteq> 0) msg) (thenv (nvds_set_qp_state_init P q data) (ret (cs[n := c]))))
    (pairs_in P (Suc n) (all_in IBV_QPS_INIT)) (legal IBV_QPT_RC P)"
proof (rule expect_then)
  assume q: "q \<noteq> 0"
  have "triple (pairs_in P (Suc n) ((all_in IBV_QPS_INIT)(n := IBV_QPS_RESET)) (cs[n := context0\<lparr>x_qp := q\<rparr>]))
      (thenv (nvds_set_qp_state_init P q data) (ret (cs[n := c]))) (pairs_in P (Suc n) (all_in IBV_QPS_INIT)) (legal IBV_QPT_RC P)"
    using pairs_context [of c "context0\<lparr>x_qp := q\<rparr>"] assms(2)
    by (intro triple_then [OF pairs_new_init [OF assms(1)]] triple_ret) simp
  then show "triple (\<lambda>tr. legal IBV_QPT_RC P tr \<and> (q \<noteq> 0 \<longrightarrow> pairs_in P (Suc n) ((all_in IBV_QPS_INIT)(n := IBV_QPS_RESET)) (cs[n := context0\<lparr>x_qp := q\<rparr>]) tr))
      (thenv (nvds_set_qp_state_init P q data) (ret (cs[n := c]))) (pairs_in P (Suc n) (all_in IBV_QPS_INIT)) (legal IBV_QPT_RC P)"
    by (rule triple_weaken) (use q in simp_all)
qed simp

lemma multi_init_one_in:
  assumes "fresh_qps P" "n < NUM_QP"
  shows "triple (pairs_in P n (all_in IBV_QPS_INIT) cs) (multi_init_one P page data_arr n cs)
    (pairs_in P (Suc n) (all_in IBV_QPS_INIT)) (legal IBV_QPT_RC P)"
  unfolding multi_init_one_def copy_defs Let_def
  apply (rule pairs_seq, (intro quiet_intros; (simp; fail))[1])+
  apply (rule triple_case_prod)
  apply (rule pairs_seq, (intro quiet_intros; (simp; fail))[1])+
  apply (rule triple_bind [OF pairs_create [OF assms]], simp)
  by (rule pairs_created_then [OF assms(2)]) simp

lemma multi_init_ctx_in:
  assumes "fresh_qps P" "length cs = NUM_QP"
  shows "triple (legal IBV_QPT_RC P) (multi_init_ctx P page data_arr NUM_QP cs) (pairs_in P NUM_QP (all_in IBV_QPS_INIT)) (legal IBV_QPT_RC P)"
  unfolding multi_init_ctx_def
  by (rule triple_weaken [OF triple_upt [where I = "\<lambda>n. pairs_in P n (all_in IBV_QPS_INIT)"]], rule multi_init_one_in [OF assms(1)])
    (use assms(2) in \<open>simp_all add: pairs_in_def\<close>)

section \<open>Connecting and taking turns\<close>

text \<open>After \<open>n\<close> rounds the first \<open>n\<close> queue pairs are ready to send, the others still initialised.\<close>

abbreviation "ready_upto n \<equiv> (\<lambda>i. if i < n then IBV_QPS_RTS else IBV_QPS_INIT)"

lemma connect_in:
  assumes "i < NUM_QP" "\<And>d. quiet (exch d)" "\<And>d. quiet (rest d)"
  shows "triple (pairs_in P NUM_QP (ready_upto i) cs)
    (bindv (exch d) (\<lambda>data. thenv (nvds_set_qp_state_rts P (x_qp (cs ! i)) data) (rest data)))
    (\<lambda>_. pairs_in P NUM_QP (ready_upto (Suc i)) cs) (legal IBV_QPT_RC P)"
proof -
  have g: "(ready_upto i)(i := IBV_QPS_RTS) = ready_upto (Suc i)"
    by (auto simp: less_Suc_eq)
  have "triple (pairs_in P NUM_QP (ready_upto i) cs) (nvds_set_qp_state_rts P (x_qp (cs ! i)) data)
      (\<lambda>_. pairs_in P NUM_QP (ready_upto (Suc i)) cs) (legal IBV_QPT_RC P)" for data
    using pairs_move [OF assms(1) nvds_set_qp_state_rts_in steady_moves(3), where g = "ready_upto i" and cs = cs] by (simp add: g)
  then show ?thesis
    by (intro pairs_seq assms(2) triple_then [OF _ pairs_quiet [OF assms(3)]])
qed

lemma pairs_send:
  "j < n \<Longrightarrow> g j = IBV_QPS_RTS \<Longrightarrow>
     triple (pairs_in P n g cs) (ask f (Post_send (x_qp (cs ! j)) wrs)) (\<lambda>_. pairs_in P n g cs) (legal IBV_QPT_RC P)"
  by (intro triple_ask) (simp add: pairs_in_def in_order_def)

text \<open>The turns are taken by the queue pairs in order, all of them ready to send.\<close>

definition turning :: "platform \<Rightarrow> nvds_context list \<times> nat \<times> nat \<Rightarrow> history \<Rightarrow> bool" where
  "turning P s tr \<longleftrightarrow> fst (snd s) < NUM_QP \<and> pairs_in P NUM_QP (all_in IBV_QPS_RTS) (fst s) tr"

lemma turning_legal: "turning P s tr \<Longrightarrow> legal IBV_QPT_RC P tr"
  unfolding turning_def by (auto dest: pairs_in_legal)

lemma triple_both:
  "triple A m (\<lambda>_. A) C \<Longrightarrow> triple (\<lambda>tr. R \<and> A tr) m (\<lambda>_ tr. R \<and> A tr) C"
  by (cases R) (simp_all add: triple_def)

lemma turning_quiet: "quiet m \<Longrightarrow> triple (turning P s) m (\<lambda>_. turning P s) (legal IBV_QPT_RC P)"
  unfolding turning_def [abs_def] by (intro triple_both pairs_quiet)

lemma turn_in:
  assumes "\<And>c. quiet (rest c :: unit vprog)"
  shows "triple (turning P (cs, j, k))
    (bindv (multi_rdma_write P fuel data len (cs ! j, k)) (\<lambda>(c, k). thenv (rest c) (ret (cs[j := c], (j + 1) mod NUM_QP, k))))
    (turning P) (legal IBV_QPT_RC P)"
proof (cases "j < NUM_QP")
  case True
  let ?I = "pairs_in P NUM_QP (all_in IBV_QPS_RTS) cs"
  let ?J = "\<lambda>c tr. x_qp c = x_qp (cs ! j) \<and> ?I tr"
  have upd: "turning P (cs[j := c], (j + 1) mod NUM_QP, k') tr" if "?J c tr" for c k' tr
  proof -
    have "pairs_in P NUM_QP (all_in IBV_QPS_RTS) (cs[j := c]) = ?I"
      using pairs_context [of c "cs ! j"] that by simp
    then show ?thesis
      using that by (simp add: turning_def NUM_QP_def)
  qed
  have post: "triple ?I (post_wr P (cs ! j) wr) ?J (legal IBV_QPT_RC P)" for wr
    unfolding post_wr_def
    by (rule triple_bind [OF pairs_send [OF True]], simp, rule pairs_seq, rule quiet_intros, rule triple_ret, simp)
  have quiet: "triple (?J c) m (\<lambda>_. ?J c) (legal IBV_QPT_RC P)" if "quiet m" for c :: nvds_context and m :: "unit vprog"
    using that by (intro triple_both pairs_quiet)
  have wr: "triple ?I (multi_rdma_write P fuel data len (cs ! j, k)) (\<lambda>(c, _). ?J c) (legal IBV_QPT_RC P)"
    unfolding multi_rdma_write_def copy_defs prod.case
    by (rule triple_bind [OF post], rule triple_then [OF quiet]) (auto intro: quiet_intros triple_ret)
  have "triple ?I (bindv (multi_rdma_write P fuel data len (cs ! j, k)) (\<lambda>(c, k). thenv (rest c) (ret (cs[j := c], (j + 1) mod NUM_QP, k))))
      (turning P) (legal IBV_QPT_RC P)"
    apply (rule triple_bind [OF wr], rule triple_case_prod, simp only: prod.case)
    by (rule triple_then [OF quiet [OF assms]], rule triple_ret, rule upd)
  then show ?thesis
    using True by (simp add: turning_def [abs_def])
qed (simp add: turning_def triple_def)

lemma connect_all:
  assumes "\<And>i s. quiet (exch i s)" "\<And>i s d. quiet (rest i s d)"
  shows "triple (pairs_in P NUM_QP (all_in IBV_QPS_INIT) cs)
    (forv [0..<NUM_QP] (\<lambda>i s. bindv (exch i s) (\<lambda>data. thenv (nvds_set_qp_state_rts P (x_qp (cs ! i)) data) (rest i s data))) s)
    (\<lambda>_. turning P (cs, 0, 0)) (legal IBV_QPT_RC P)"
proof -
  have "triple (pairs_in P NUM_QP (ready_upto 0) cs)
      (forv [0..<NUM_QP] (\<lambda>i s. bindv (exch i s) (\<lambda>data. thenv (nvds_set_qp_state_rts P (x_qp (cs ! i)) data) (rest i s data))) s)
      (\<lambda>_. pairs_in P NUM_QP (ready_upto NUM_QP) cs) (legal IBV_QPT_RC P)"
    by (rule triple_upt [where I = "\<lambda>n _. pairs_in P NUM_QP (ready_upto n) cs"], rule connect_in) (rule assms | assumption)+
  then show ?thesis
    by (rule triple_weaken) (auto simp: turning_def pairs_in_def NUM_QP_def)
qed

section \<open>The whole program\<close>

lemma turns_end:
  assumes "triple (turning P s) m (turning P) (legal IBV_QPT_RC P)" "\<And>x. quiet (fin x)"
  shows "triple (turning P s) (bindv m fin) (\<lambda>_. legal IBV_QPT_RC P) (legal IBV_QPT_RC P)"
proof (rule triple_bind [OF assms(1)])
  fix x
  show "triple (turning P x) (fin x) (\<lambda>_. legal IBV_QPT_RC P) (legal IBV_QPT_RC P)"
    by (rule triple_weaken [OF turning_quiet [OF assms(2)]]) (auto dest: turning_legal)
qed

lemma turning_timed:
  "(\<And>s. triple (turning P s) (body s) (turning P) (legal IBV_QPT_RC P)) \<Longrightarrow> triple (turning P s) (timed P body s) (turning P) (legal IBV_QPT_RC P)"
  unfolding timed_def
  by (rule triple_bind [OF turning_quiet], intro quiet_intros, rule triple_bind, rule triple_repeat, assumption,
      rule triple_bind [OF turning_quiet], intro quiet_intros, rule triple_ret)

lemma thenv_monoid: "thenv (ret u) m = m" "thenv (thenv l m) n = thenv l (thenv m n)"
  by (auto simp: thenv_def bindv_def ret_def split: prod.splits sum.splits)

lemma multi_run_server_in:
  "triple (pairs_in P NUM_QP (all_in IBV_QPS_INIT) cs) (multi_run_server P fuel cs data_arr NUM_QP) (\<lambda>_. legal IBV_QPT_RC P) (legal IBV_QPT_RC P)"
  unfolding multi_run_server_def copy_defs
  apply (rule triple_bind [OF connect_all], (intro quiet_intros; (simp; fail)?)+)
  apply (rule turns_end [OF triple_repeat])
   apply (rule triple_case_prod, rule triple_case_prod, rule triple_then [OF turning_quiet], rule quiet_intros)
   apply (rule triple_then [OF turning_quiet], rule quiet_intros)
   apply (rule turn_in [where rest = "\<lambda>_. ret ()", unfolded thenv_monoid], rule quiet_intros)
  by (rule quiet_intros)

lemma multi_run_client_in:
  "triple (pairs_in P NUM_QP (all_in IBV_QPS_INIT) cs) (multi_run_client P fuel cs data_arr NUM_QP) (\<lambda>_. legal IBV_QPT_RC P) (legal IBV_QPT_RC P)"
  unfolding multi_run_client_def copy_defs
  apply (rule triple_bind [OF connect_all], (intro quiet_intros; (simp; fail)?)+)
  apply (rule triple_then [OF turning_quiet], intro quiet_intros, simp)
  apply (rule turns_end [OF triple_for], rule turning_timed)
   apply (rule triple_case_prod, rule triple_case_prod)
   apply (rule turn_in [where rest = "\<lambda>c. thenv (wait_byte P fuel c 1) (set_byte c 1)", unfolded thenv_monoid])
  by (intro quiet_intros)+

lemma multi_local_quiet: "quiet (multi_init_local_ib_connection P cs n data_arr)"
proof -
  have "quiet (forv is (\<lambda>i s. bindv (nvds_init_local_ib_connection P (cs ! i) (s ! i)) (\<lambda>data. ret (s[i := data]))) s)" for "is" s
    by (induction "is" arbitrary: s) (auto intro!: quiet_intros)
  then show ?thesis
    unfolding multi_init_local_ib_connection_def .
qed

text \<open>
  On every platform that hands out different queue pairs, the benchmark \<^verbatim>\<open>write_rc_multi\<close> uses
  all of its queue pairs in order, as client and as server, however long it runs: each is moved
  from RESET through INIT and RTR to RTS with exactly the attributes the transition requires, and
  nothing is sent on one that is not ready to send, while its neighbours are still on their way.
\<close>

lemma multi_in_order:
  assumes "fresh_qps P" "length ctx_arr = NUM_QP"
  shows "legal IBV_QPT_RC P (snd (write_rc_multi_main P page fuel ctx_arr args []))"
proof (rule legal_main)
  show "triple (legal IBV_QPT_RC P) (write_rc_multi_main P page fuel ctx_arr args) (\<lambda>_. legal IBV_QPT_RC P) (legal IBV_QPT_RC P)"
    unfolding write_rc_multi_main_def Let_def
    apply (rule legal_seq, rule quiet_intros, rule triple_bind [OF multi_init_ctx_in [OF assms]])
    by (rule pairs_seq, rule multi_local_quiet, rule triple_if, rule multi_run_client_in, rule multi_run_server_in)
qed

lemma bench_platform_fresh: "fresh_qps (bench_platform bs)"
proof -
  have "\<forall>q\<in>created (bench_platform bs) tr. q \<le> length tr" for tr
  proof (induction tr)
    case (Cons c tr)
    then show ?case
      by (cases c) (auto simp: bench_platform_def le_Suc_eq)
  qed simp
  then show ?thesis
    by (fastforce simp: fresh_qps_def bench_platform_def)
qed

end
