(* ===== verification/Exp_Rdma.thy ===== *)
theory Exp_Rdma
  imports Exp_Multi
begin

text \<open>
  The two trials in the directory \<^verbatim>\<open>cs\<close> that the benchmarks grew from: \<^verbatim>\<open>rdma.c\<close>, which writes to
  and reads from the memory of its peer over a connection, and the unfinished \<^verbatim>\<open>ibud.c\<close> (repeated
  word for word in \<^verbatim>\<open>experiments\<close>), which was to do the same with datagrams. The functions they
  share with \<^verbatim>\<open>write_rc.c\<close> are in \<open>Exp_Common\<close>.
\<close>

section \<open>rdma.c\<close>

definition RDMA_READ_ID :: u64 where
  "RDMA_READ_ID = 4"

definition RDMA_WRITE_LEN :: nat where
  "RDMA_WRITE_LEN = 64"

definition RDMA_READ_LEN :: nat where
  "RDMA_READ_LEN = RDMA_WRITE_LEN"

definition rdma_set_qp_state_init :: "platform \<Rightarrow> nat \<Rightarrow> nvds_data \<Rightarrow> unit vprog" where [copy_defs]:
  "rdma_set_qp_state_init = nvds_set_qp_state_init"

definition rdma_set_qp_state_rtr :: "platform \<Rightarrow> nat \<Rightarrow> nvds_data \<Rightarrow> unit vprog" where [copy_defs]:
  "rdma_set_qp_state_rtr = nvds_set_qp_state_rtr"

definition rdma_set_qp_state_rts :: "platform \<Rightarrow> nat \<Rightarrow> nvds_data \<Rightarrow> unit vprog" where [copy_defs]:
  "rdma_set_qp_state_rts = nvds_set_qp_state_rts"

definition rdma_server_exch_info :: "platform \<Rightarrow> nvds_data \<Rightarrow> nvds_data vprog" where [copy_defs]:
  "rdma_server_exch_info = nvds_server_exch_info"

definition rdma_client_exch_info :: "platform \<Rightarrow> nvds_data \<Rightarrow> nvds_data vprog" where [copy_defs]:
  "rdma_client_exch_info = nvds_client_exch_info"

definition rdma_poll_send :: "platform \<Rightarrow> nat \<Rightarrow> nvds_context \<Rightarrow> unit vprog" where [copy_defs]:
  "rdma_poll_send = nvds_poll_send"

definition rdma_init_local_ib_connection :: "platform \<Rightarrow> nvds_context \<Rightarrow> nvds_data \<Rightarrow> nvds_data vprog" where [copy_defs]:
  "rdma_init_local_ib_connection = nvds_init_local_ib_connection"

definition rdma_write :: "platform \<Rightarrow> nvds_data \<Rightarrow> nvds_context \<Rightarrow> nvds_context vprog" where
  "rdma_write P data ctx = post_wr P ctx (buf_wr P ctx RDMA_WRITE_LEN IBV_WR_RDMA_WRITE {IBV_SEND_SIGNALED} (remote_mem data))"

text \<open>What is read from the peer goes behind what is written to it.\<close>

definition read_wr :: "platform \<Rightarrow> nvds_data \<Rightarrow> nvds_context \<Rightarrow> send_wr" where
  "read_wr P data ctx = \<lparr>wr_id = RDMA_READ_ID,
     sg_list = [\<lparr>sge_addr = of_nat (x_buf ctx) + of_nat RDMA_WRITE_LEN, sge_length = of_nat RDMA_READ_LEN, sge_lkey = p_lkey P (x_mr ctx)\<rparr>],
     opcode = IBV_WR_RDMA_READ, send_flags = {IBV_SEND_SIGNALED}, dest = remote_mem data\<rparr>"

definition rdma_read :: "platform \<Rightarrow> nvds_data \<Rightarrow> nvds_context \<Rightarrow> nvds_context vprog" where
  "rdma_read P data ctx = post_wr P ctx (read_wr P data ctx)"

definition rdma_init_ctx :: "platform \<Rightarrow> nat \<Rightarrow> nvds_data \<Rightarrow> nvds_context vprog" where
  "rdma_init_ctx P page_size data = init_ctx_with P IBV_QPT_RC (rdma_set_qp_state_init P) page_size True 1 data"

definition rdma_run_server :: "platform \<Rightarrow> nat \<Rightarrow> nvds_context \<Rightarrow> nvds_data \<Rightarrow> unit vprog" where
  "rdma_run_server P fuel ctx data =
     bindv (rdma_server_exch_info P data) (\<lambda>data.
     thenv (rdma_set_qp_state_rtr P (x_qp ctx) data) (forever fuel))"

text \<open>The text \<^verbatim>\<open>"hello rdma\n"\<close> with its null character, and a loop between two readings of \<^verbatim>\<open>clock\<close>.\<close>

definition hello :: "u8 list" where
  "hello = [104, 101, 108, 108, 111, 32, 114, 100, 109, 97, 10, 0]"

definition clocked :: "('s \<Rightarrow> 's vprog) \<Rightarrow> 's \<Rightarrow> 's vprog" where
  "clocked body s = thenv (exec (Os Clock)) (bindv (repeatv n_rounds body s) (\<lambda>s. thenv (exec (Os Clock)) (ret s)))"

definition rdma_run_client :: "platform \<Rightarrow> nat \<Rightarrow> nvds_context \<Rightarrow> nvds_data \<Rightarrow> unit vprog" where
  "rdma_run_client P fuel ctx data =
     bindv (rdma_client_exch_info P data) (\<lambda>data.
     thenv (rdma_set_qp_state_rts P (x_qp ctx) data) (
     thenv (exec (Os (Copy_to (of_nat (x_buf ctx)) hello))) (
     bindv (clocked (\<lambda>ctx. bindv (rdma_write P data ctx) (\<lambda>ctx. thenv (rdma_poll_send P fuel ctx) (ret ctx))) ctx) (\<lambda>ctx.
     bindv (clocked (\<lambda>ctx. bindv (rdma_read P data ctx) (\<lambda>ctx. thenv (rdma_poll_send P fuel ctx) (ret ctx))) ctx) (\<lambda>_.
     exit_0)))))"

definition rdma_data0 :: "string option \<Rightarrow> nvds_data" where
  "rdma_data0 server = (data0 server)\<lparr>d_size := 3 * 64 * 1024 * 1024\<rparr>"

definition rdma_main :: "platform \<Rightarrow> nat \<Rightarrow> nat \<Rightarrow> string list \<Rightarrow> unit vprog" where
  "rdma_main P page_size fuel args =
     thenv (nvds_expect (length args \<le> 1) ''too many arguments'') (
     let data = rdma_data0 (case args of [] \<Rightarrow> None | s # _ \<Rightarrow> Some s) in
     bindv (rdma_init_ctx P page_size data) (\<lambda>ctx.
     bindv (rdma_init_local_ib_connection P ctx data) (\<lambda>data.
     if args \<noteq> [] then rdma_run_client P fuel ctx data else rdma_run_server P fuel ctx data)))"

section \<open>ibud.c\<close>

definition ibud_set_qp_state_init :: "platform \<Rightarrow> nat \<Rightarrow> nvds_data \<Rightarrow> unit vprog" where [copy_defs]:
  "ibud_set_qp_state_init = nvds_set_qp_state_init"

definition ibud_set_qp_state_rtr :: "platform \<Rightarrow> nat \<Rightarrow> nvds_data \<Rightarrow> unit vprog" where [copy_defs]:
  "ibud_set_qp_state_rtr = nvds_set_qp_state_rtr"

definition ibud_set_qp_state_rts :: "platform \<Rightarrow> nat \<Rightarrow> nvds_data \<Rightarrow> unit vprog" where [copy_defs]:
  "ibud_set_qp_state_rts = nvds_set_qp_state_rts"

definition ibud_server_exch_info :: "platform \<Rightarrow> nvds_data \<Rightarrow> nvds_data vprog" where [copy_defs]:
  "ibud_server_exch_info = nvds_server_exch_info"

definition ibud_client_exch_info :: "platform \<Rightarrow> nvds_data \<Rightarrow> nvds_data vprog" where [copy_defs]:
  "ibud_client_exch_info = nvds_client_exch_info"

definition ibud_rdma_read :: "platform \<Rightarrow> nvds_data \<Rightarrow> nvds_context \<Rightarrow> nvds_context vprog" where [copy_defs]:
  "ibud_rdma_read = rdma_read"

definition ibud_poll_send :: "platform \<Rightarrow> nat \<Rightarrow> nvds_context \<Rightarrow> unit vprog" where [copy_defs]:
  "ibud_poll_send = nvds_poll_send"

text \<open>The type a queue pair was created with.\<close>

fun type_at :: "platform \<Rightarrow> history \<Rightarrow> nat \<Rightarrow> qp_type option" where
  "type_at P [] q = None"
| "type_at P (Create_qp pd i # tr) q = (if p_ptr P tr (Create_qp pd i) = q then Some (init_type i) else type_at P tr q)"
| "type_at P (c # tr) q = type_at P tr q"

text \<open>
  The address handle, queue pair number and \<^verbatim>\<open>QKEY\<close> of the datagram are in the same union as the remote
  address and key, which are stored after them: the request that is posted has the latter.
\<close>

definition ibud_post_send :: "platform \<Rightarrow> nvds_data \<Rightarrow> nvds_context \<Rightarrow> nvds_context vprog" where
  "ibud_post_send P data ctx =
     thenv (\<lambda>tr. assertv (type_at P tr (x_qp ctx) = Some IBV_QPT_UD) tr) (
     bindv (ask (p_ptr P) (Create_ah (x_pd ctx)
              \<lparr>is_global = 0, dlid = ucast (c_lid (d_remote data)), sl = 1, src_path_bits = 0, ah_port_num = 1\<rparr>)) (\<lambda>ah.
     thenv (assertv (ah \<noteq> 0)) (
     post_wr P ctx (read_wr P data ctx))))"

definition ibud_init_local_ib_connection :: "platform \<Rightarrow> nvds_context \<Rightarrow> nvds_data \<Rightarrow> nvds_data vprog" where
  "ibud_init_local_ib_connection P ctx data =
     bindv (ask (\<lambda>tr c. (p_int P tr c, p_lid P tr c)) (Query_port (x_context ctx) (d_ib_port data))) (\<lambda>(r, lid).
     thenv (nvds_expect (r = 0) ''ibv_query_port() failed'') (
     bindv (ask (p_int P) (Os Lrand48)) (\<lambda>rnd.
     ret (data\<lparr>d_local := \<lparr>c_lid = ucast lid, c_qpn = p_qp_num P (x_qp ctx), c_psn = word_of_int (rnd mod 2 ^ 24),
            c_rkey = p_rkey P (x_mr ctx), c_vaddr = of_nat (x_buf ctx)\<rparr>\<rparr>))))"

definition ibud_init_ctx :: "platform \<Rightarrow> nat \<Rightarrow> nvds_data \<Rightarrow> nvds_context vprog" where
  "ibud_init_ctx P page_size data =
     bindv (ask (p_ptr P) Get_device_list) (\<lambda>dev_list.
     thenv (nvds_expect (dev_list \<noteq> 0) ''ibv_get_device_list() failed'') (
     bindv (ask (p_ptr P) (Open_device dev_list)) (\<lambda>context.
     thenv (nvds_expect (context \<noteq> 0) ''ibv_open_device() failed'') (
     bindv (ask (p_ptr P) (Alloc_pd context)) (\<lambda>pd.
     thenv (nvds_expect (pd \<noteq> 0) ''ibv_alloc_pd() failed'') (
     bindv (ask (p_ptr P) (Os (Memalign page_size (d_size data)))) (\<lambda>buf.
     thenv (exec (Os (Fill (of_nat buf) (d_size data) 0))) (
     bindv (ask (p_ptr P) (Reg_mr pd buf (d_size data)
              {IBV_ACCESS_LOCAL_WRITE, IBV_ACCESS_REMOTE_READ, IBV_ACCESS_REMOTE_WRITE})) (\<lambda>mr.
     thenv (nvds_expect (mr \<noteq> 0) ''ibv_reg_mr() failed'') (
     bindv (ask (p_ptr P) (Create_comp_channel context)) (\<lambda>ch.
     thenv (nvds_expect (ch \<noteq> 0) ''ibv_create_comp_channel() failed'') (
     bindv (ask (p_ptr P) (Create_cq context 1)) (\<lambda>rcq.
     thenv (nvds_expect (rcq \<noteq> 0) ''ibv_create_cq() failed'') (
     bindv (ask (p_ptr P) (Create_cq context (d_tx_depth data))) (\<lambda>scq.
     thenv (nvds_expect (rcq \<noteq> 0) ''ibv_create_cq() failed'') (
     bindv (ask (p_ptr P) (Create_qp pd
              \<lparr>init_type = IBV_QPT_UD, init_send_cq = scq, init_recv_cq = rcq, max_send_wr = d_tx_depth data,
               max_recv_wr = 1, max_send_sge = 1, max_recv_sge = 1, max_inline_data = 0, sq_sig_all = 0\<rparr>)) (\<lambda>qp.
     thenv (nvds_expect (qp \<noteq> 0) ''ibv_create_qp() failed'') (
     thenv (ibud_set_qp_state_init P qp data) (
     ret (context0\<lparr>x_context := context, x_pd := pd, x_mr := mr, x_rcq := rcq, x_scq := scq, x_qp := qp, x_buf := buf,
            x_size := d_size data, x_tx_depth := d_tx_depth data\<rparr>))))))))))))))))))))"

definition ibud_run_server :: "platform \<Rightarrow> nat \<Rightarrow> nvds_context \<Rightarrow> nvds_data \<Rightarrow> unit vprog" where
  "ibud_run_server P fuel ctx data =
     bindv (ibud_server_exch_info P data) (\<lambda>data.
     thenv (ibud_set_qp_state_rtr P (x_qp ctx) data) (forever fuel))"

text \<open>The second loop has an empty body.\<close>

definition ibud_run_client :: "platform \<Rightarrow> nat \<Rightarrow> nvds_context \<Rightarrow> nvds_data \<Rightarrow> unit vprog" where
  "ibud_run_client P fuel ctx data =
     bindv (ibud_client_exch_info P data) (\<lambda>data.
     thenv (ibud_set_qp_state_rts P (x_qp ctx) data) (
     thenv (exec (Os (Copy_to (of_nat (x_buf ctx)) hello))) (
     bindv (clocked (ibud_post_send P data) ctx) (\<lambda>ctx.
     bindv (clocked ret ctx) (\<lambda>_.
     exit_0)))))"

definition ibud_main :: "platform \<Rightarrow> nat \<Rightarrow> nat \<Rightarrow> string list \<Rightarrow> unit vprog" where
  "ibud_main P page_size fuel args =
     thenv (nvds_expect (length args \<le> 1) ''too many arguments'') (
     let data = (data0 (case args of [] \<Rightarrow> None | s # _ \<Rightarrow> Some s))\<lparr>d_size := 65536\<rparr> in
     bindv (ibud_init_ctx P page_size data) (\<lambda>ctx.
     bindv (ibud_init_local_ib_connection P ctx data) (\<lambda>data.
     if args \<noteq> [] then ibud_run_client P fuel ctx data else ibud_run_server P fuel ctx data)))"

section \<open>Programs in order\<close>

lemma clocked_in:
  assumes "\<And>s. triple (\<lambda>tr. A s \<and> qp_in ty P q st tr) (body s) (\<lambda>s tr. A s \<and> qp_in ty P q st tr) (legal ty P)"
  shows "triple (\<lambda>tr. A s \<and> qp_in ty P q st tr) (clocked body s) (\<lambda>s tr. A s \<and> qp_in ty P q st tr) (legal ty P)"
  unfolding clocked_def
  by (rule triple_then [OF qp_pure], intro quiet_intros, simp, rule triple_bind, rule triple_repeat, rule assms,
      rule triple_then [OF qp_pure], intro quiet_intros, simp, rule triple_ret)

lemma rdma_run_server_eq: "rdma_run_server = nvds_run_server"
  by (intro ext) (simp add: rdma_run_server_def nvds_run_server_def copy_defs)

lemma triple_given: "triple (\<lambda>tr. A s \<and> B tr) m D C \<Longrightarrow> A s \<Longrightarrow> triple B m D C"
  by (simp add: triple_def)

lemma rdma_run_client_in:
  "triple (qp_in IBV_QPT_RC P (x_qp ctx) IBV_QPS_INIT) (rdma_run_client P fuel ctx data) (\<lambda>_. legal IBV_QPT_RC P) (legal IBV_QPT_RC P)"
  unfolding rdma_run_client_def rdma_write_def rdma_read_def copy_defs
  apply (rule qp_seq, rule quiet_intros, rule triple_then [OF nvds_set_qp_state_rts_in], rule qp_seq, intro quiet_intros, simp)
  apply (rule triple_given [where A = "\<lambda>c. x_qp c = x_qp ctx" and s = ctx])
     apply (rule triple_bind [OF clocked_in [where A = "\<lambda>c. x_qp c = x_qp ctx"]])
      apply (rule triple_bind [OF post_wr_pure], rule triple_then [OF qp_pure], rule quiet_intros, rule triple_ret, assumption)
     apply (rule triple_bind [OF clocked_in [where A = "\<lambda>c. x_qp c = x_qp ctx"]])
      apply (rule triple_bind [OF post_wr_pure], rule triple_then [OF qp_pure], rule quiet_intros, rule triple_ret, assumption)
     apply (rule triple_weaken [OF qp_pure], rule quiet_intros)
  by (auto simp: qp_in_legal)

text \<open>
  C36: On every platform and with any arguments, the benchmarks \<^verbatim>\<open>write_rc\<close>, \<^verbatim>\<open>write_rc_unsignaled\<close>,
  \<^verbatim>\<open>send_rc\<close>, \<^verbatim>\<open>send_rc_unsignaled\<close>, \<^verbatim>\<open>send_ud\<close> and \<^verbatim>\<open>rdma\<close>, and on every platform that hands out
  different queue pairs also \<^verbatim>\<open>write_rc_multi\<close> with its array of 1024 contexts, use their queue pairs in order, as client and
  as server, however long they run: each is moved from RESET through INIT and RTR to RTS with exactly
  the attributes its type requires, receives are posted only after INIT, and nothing is sent before
  RTS.
\<close>

theorem programs_in_order:
  shows "legal IBV_QPT_RC P (snd (write_rc_main P page fuel args []))
   \<and> legal IBV_QPT_RC P (snd (write_rc_unsignaled_main P page fuel args []))
   \<and> legal IBV_QPT_RC P (snd (send_rc_main P page fuel args []))
   \<and> legal IBV_QPT_RC P (snd (send_rc_unsignaled_main P page fuel args []))
   \<and> legal IBV_QPT_UD P (snd (send_ud_main P page fuel args []))
   \<and> legal IBV_QPT_RC P (snd (rdma_main P page fuel args []))
   \<and> (fresh_qps P \<and> length ctx_arr = NUM_QP \<longrightarrow> legal IBV_QPT_RC P (snd (write_rc_multi_main P page fuel ctx_arr args [])))"
proof -
  have "triple (legal IBV_QPT_RC P) (rdma_main P page fuel args) (\<lambda>_. legal IBV_QPT_RC P) (legal IBV_QPT_RC P)"
    unfolding rdma_main_def rdma_init_ctx_def rdma_run_server_eq copy_defs Let_def
    by (rule main_in [OF init_ctx_with_in [OF nvds_set_qp_state_init_in] _ rdma_run_client_in run_server_in]) (rule quiet_intros)
  then show ?thesis
    using benchmarks_in_order [of P page fuel args] multi_in_order [of P ctx_arr page fuel args] legal_main by blast
qed

theorem programs_in_order_witness:
  "legal IBV_QPT_RC (bench_platform []) (snd (rdma_main (bench_platform []) 4096 3 [''host''] []))
   \<and> legal IBV_QPT_RC (bench_platform []) (snd (write_rc_multi_main (bench_platform []) 4096 3 (replicate NUM_QP context0) [] []))"
  using programs_in_order [of "bench_platform []" 4096 3 "[''host'']"]
    programs_in_order [of "bench_platform []" 4096 3 "[]" "replicate NUM_QP context0"] bench_platform_fresh [of "[]"] by simp

section \<open>A datagram queue pair with the attributes of a connection\<close>

text \<open>
  What the manual page of \<^verbatim>\<open>ibv_modify_qp\<close> says: it lists, for each type of queue pair and each
  transition, the minimum of attributes the mask must have; a modification whose mask lacks one of
  them fails. Nothing is assumed of masks with further attributes.
\<close>

definition checks_masks :: "platform \<Rightarrow> bool" where
  "checks_masks P \<longleftrightarrow> (\<forall>tr q ty a m. type_at P tr q = Some ty \<and> \<not> required ty (qp_state a) \<subseteq> m \<longrightarrow> p_int P tr (Modify_qp q a m) \<noteq> 0)"

definition talks :: "vcall \<Rightarrow> bool" where
  "talks c = (case c of Post_send q wrs \<Rightarrow> True | Post_recv q wrs \<Rightarrow> True | Os Socket \<Rightarrow> True | _ \<Rightarrow> False)"

lemma ibud_init_exits:
  assumes "checks_masks P"
  shows "\<exists>e tr'. ibud_init_ctx P page data [] = (Inl (Exited e), tr') \<and> (\<forall>c\<in>set tr'. \<not> talks c)"
proof -
  have "p_int P (Create_qp pd i # tr) (Modify_qp (p_ptr P tr (Create_qp pd i)) a
      {IBV_QP_STATE, IBV_QP_PKEY_INDEX, IBV_QP_PORT, IBV_QP_ACCESS_FLAGS}) \<noteq> 0"
    if "init_type i = IBV_QPT_UD" "qp_state a = IBV_QPS_INIT" for pd i tr a
  proof -
    have "\<not> required IBV_QPT_UD (qp_state a) \<subseteq> {IBV_QP_STATE, IBV_QP_PKEY_INDEX, IBV_QP_PORT, IBV_QP_ACCESS_FLAGS}"
      using that(2) by simp
    then show ?thesis
      using assms that(1) unfolding checks_masks_def by (metis (no_types, lifting) type_at.simps(2))
  qed
  then show ?thesis
    by (simp add: ibud_init_ctx_def copy_defs nvds_set_qp_state_init_def vprog_defs talks_def)
qed

text \<open>
  C37: The datagram trial \<^verbatim>\<open>ibud\<close> never runs. It moves its datagram queue pair to INIT with the mask of
  a connected one, without the key of the queue; on every platform that refuses a mask without an
  attribute the transition requires, as documented, it exits with a message during its initialisation, before it opens a socket, posts a
  receive or sends anything, whatever its arguments.
\<close>

theorem ibud_never_runs:
  assumes "checks_masks P"
  shows "\<exists>e. fst (ibud_main P page fuel args []) = Inl (Exited e) \<and> (\<forall>c\<in>set (snd (ibud_main P page fuel args [])). \<not> talks c)"
proof (cases "length args \<le> 1")
  case True
  obtain e tr' where "ibud_init_ctx P page ((data0 (case args of [] \<Rightarrow> None | s # _ \<Rightarrow> Some s))\<lparr>d_size := 65536\<rparr>) [] = (Inl (Exited e), tr')"
    "\<forall>c\<in>set tr'. \<not> talks c"
    using ibud_init_exits [OF assms] by blast
  then show ?thesis
    using True by (simp add: ibud_main_def Let_def bindv_def thenv_def nvds_expect_def ret_def)
next
  case False
  then show ?thesis
    by (simp add: ibud_main_def bindv_def thenv_def nvds_expect_def fail_def)
qed

text \<open>A platform that checks masks.\<close>

definition strict_platform :: platform where
  "strict_platform = (bench_platform [])\<lparr>p_int := (\<lambda>tr c. case c of
     Modify_qp q a m \<Rightarrow> (case type_at (bench_platform []) tr q of
         Some ty \<Rightarrow> if required ty (qp_state a) \<subseteq> m then 0 else 22
       | None \<Rightarrow> 22)
   | _ \<Rightarrow> 0)\<rparr>"

lemma type_at_cong: "p_ptr P = p_ptr P' \<Longrightarrow> type_at P tr q = type_at P' tr q"
  by (induction P tr q rule: type_at.induct) simp_all

lemma strict_platform_checks: "checks_masks strict_platform"
proof -
  have "type_at strict_platform tr q = type_at (bench_platform []) tr q" for tr q
    by (rule type_at_cong) (simp add: strict_platform_def)
  then show ?thesis
    by (simp add: checks_masks_def strict_platform_def)
qed

theorem ibud_never_runs_witness:
  "\<exists>e. fst (ibud_main strict_platform 4096 3 [''host''] []) = Inl (Exited e)"
  using ibud_never_runs [OF strict_platform_checks, of 4096 3 "[''host'']"] by blast

end
