(* ===== verification/Prime_Search.thy ===== *)
theory Prime_Search
  imports Allocator
begin

text \<open>
  The program \<^verbatim>\<open>prime.cc\<close> that looks for a prime number of buckets near a million. An overflow of
  \<^verbatim>\<open>i * i\<close> is undefined behaviour, \<^const>\<open>None\<close>.
\<close>

section \<open>The program\<close>

function is_prime_loop :: "int \<Rightarrow> int \<Rightarrow> bool option" where
  "is_prime_loop i x =
     (if i < 2 \<or> 2 ^ 31 \<le> i * i then None
      else if i * i < x then (if x mod i = 0 then Some False else is_prime_loop (i + 1) x)
      else Some True)"
  by pat_completeness auto
termination
proof (relation "measure (\<lambda>(i, x). nat (x - i))")
  fix i x :: int
  assume "\<not> (i < 2 \<or> 2 ^ 31 \<le> i * i)" "i * i < x"
  moreover from this have "i \<le> i * i"
    using mult_mono [of 1 i i i] by simp
  ultimately have "i < x"
    by linarith
  then show "((i + 1, x), i, x) \<in> measure (\<lambda>(i, x). nat (x - i))"
    by simp
qed simp

declare is_prime_loop.simps [simp del]

definition is_prime :: "int \<Rightarrow> bool option" where
  "is_prime x = is_prime_loop 2 x"

primrec print_primes :: "int list \<Rightarrow> int list option" where
  "print_primes [] = Some []"
| "print_primes (i # is) = do { p \<leftarrow> is_prime i; out \<leftarrow> print_primes is; Some (if p then i # out else out) }"

definition prime_main :: "int list option" where
  "prime_main = print_primes [999900..1000099]"

section \<open>What it finds\<close>

definition prime :: "int \<Rightarrow> bool" where
  "prime p \<longleftrightarrow> 1 < p \<and> (\<forall>d>0. d dvd p \<longrightarrow> d = 1 \<or> d = p)"

lemma primeD: "prime p \<Longrightarrow> d dvd p \<Longrightarrow> 0 < d \<Longrightarrow> d = 1 \<or> d = p"
  by (simp add: prime_def)

lemma from_next: "(\<forall>d\<ge>i. P d) \<longleftrightarrow> P i \<and> (\<forall>d\<ge>i + 1. P d)" for i :: int
  using order_le_less [of i] by auto

lemma is_prime_loop_eq:
  assumes "2 \<le> i" "x \<le> 46340 * 46340" "i \<le> 46340 \<or> x \<le> i * i"
  shows "i * i < 2 ^ 31 \<Longrightarrow> is_prime_loop i x = Some (\<forall>d\<ge>i. d * d < x \<longrightarrow> \<not> d dvd x)"
  using assms
proof (induction i x rule: is_prime_loop.induct)
  case (1 i x)
  show ?case
  proof (cases "i * i < x")
    case True
    then have "i * i < 46340 * 46340"
      using "1.prems"(3) by simp
    then have "i < 46340"
      using mult_mono [of 46340 i 46340 i] by linarith
    then have "(i + 1) * (i + 1) < 2 ^ 31"
      using mult_mono [of "i + 1" 46340 "i + 1" 46340] "1.prems"(2) by simp
    then have IH: "is_prime_loop (i + 1) x = Some (\<forall>d\<ge>i + 1. d * d < x \<longrightarrow> \<not> d dvd x)" if "x mod i \<noteq> 0"
      using "1.IH" True that "1.prems" \<open>i < 46340\<close> by simp
    have "(\<forall>d\<ge>i. d * d < x \<longrightarrow> \<not> d dvd x) \<longleftrightarrow> x mod i \<noteq> 0 \<and> (\<forall>d\<ge>i + 1. d * d < x \<longrightarrow> \<not> d dvd x)"
      using True from_next [of i "\<lambda>d. d * d < x \<longrightarrow> \<not> d dvd x"] by (simp add: dvd_eq_mod_eq_0)
    then show ?thesis
      using IH True "1.prems" by (simp add: is_prime_loop.simps [of i x])
  next
    case False
    have "\<not> d * d < x" if "i \<le> d" for d
      using that False "1.prems"(2) mult_mono [of i d i d] by linarith
    then show ?thesis
      using False "1.prems" by (simp add: is_prime_loop.simps [of i x])
  qed
qed

lemma is_prime_eq: "x \<le> 46340 * 46340 \<Longrightarrow> is_prime x = Some (\<forall>d\<ge>2. d * d < x \<longrightarrow> \<not> d dvd x)"
  using is_prime_loop_eq [of 2 x] by (simp add: is_prime_def)

text \<open>A number that is not prime and passes the test is the square of a prime.\<close>

lemma prime_test:
  assumes "1 < x" "\<And>d. x \<noteq> d * d"
  shows "prime x \<longleftrightarrow> (\<forall>d\<ge>2. d * d < x \<longrightarrow> \<not> d dvd x)"
proof
  assume p: "prime x"
  show "\<forall>d\<ge>2. d * d < x \<longrightarrow> \<not> d dvd x"
  proof (intro allI impI notI)
    fix d assume d: "2 \<le> d" "d * d < x" "d dvd x"
    then have "d = x"
      using primeD [OF p, of d] by simp
    with d mult_mono [of 2 d d d] show False
      by simp
  qed
next
  assume t: "\<forall>d\<ge>2. d * d < x \<longrightarrow> \<not> d dvd x"
  show "prime x"
    unfolding prime_def
  proof (intro conjI allI impI assms)
    fix d assume d: "0 < d" "d dvd x"
    then obtain e where e: "x = d * e"
      by blast
    with assms(1) d(1) have "0 < e"
      by (smt (verit) mult_less_0_iff zero_less_mult_iff)
    show "d = 1 \<or> d = x"
    proof (rule ccontr)
      assume "\<not> (d = 1 \<or> d = x)"
      with d(1) \<open>0 < e\<close> e have "2 \<le> d" "2 \<le> e" "d \<noteq> e"
        using assms(2) by auto
      then have "d * d < x \<or> e * e < x"
        using e by (cases "d < e") simp_all
      moreover have "e dvd x"
        using e by simp
      ultimately show False
        using t d(2) \<open>2 \<le> d\<close> \<open>2 \<le> e\<close> by blast
    qed
  qed
qed

lemma print_primes_eq:
  "(\<And>x. x \<in> set xs \<Longrightarrow> is_prime x = Some (P x)) \<Longrightarrow> print_primes xs = Some (List.filter P xs)"
  by (induction xs) simp_all

text \<open>The one square in the range of the search is even.\<close>

lemma range_test:
  assumes "999900 \<le> x" "x \<le> 1000099"
  shows "is_prime x = Some (prime x)"
proof (cases "x = 1000000")
  case True
  have "\<not> prime 1000000"
    by (auto simp: prime_def intro!: exI [of _ 2])
  moreover have "\<not> (\<forall>d\<ge>2. d * d < (1000000 :: int) \<longrightarrow> \<not> d dvd 1000000)"
    by (auto intro!: exI [of _ 2])
  ultimately show ?thesis
    using is_prime_eq [of 1000000] True by simp
next
  case False
  have "x \<noteq> d * d" for d
  proof
    assume x: "x = d * d"
    then have "x = \<bar>d\<bar> * \<bar>d\<bar>"
      by simp
    moreover have "\<bar>d\<bar> \<le> 999 \<or> \<bar>d\<bar> = 1000 \<or> 1001 \<le> \<bar>d\<bar>"
      by linarith
    ultimately show False
      using assms False mult_mono [of "\<bar>d\<bar>" 999 "\<bar>d\<bar>" 999] mult_mono [of 1001 "\<bar>d\<bar>" 1001 "\<bar>d\<bar>"] by fastforce
  qed
  then show ?thesis
    using is_prime_eq [of x] prime_test [of x] assms by simp
qed

text \<open>
  C40: The search prints exactly the primes of its range, in order, and the number of buckets of the
  hash table is one of them. The test itself takes the square of a prime for a prime, since it
  stops before the root; no such square is in the range.
\<close>

theorem prime_search:
  "prime_main = Some (List.filter prime [999900..1000099])
   \<and> int kHashTableSize \<in> set (List.filter prime [999900..1000099])
   \<and> (\<forall>p. prime p \<and> p \<le> 46340 \<longrightarrow> is_prime (p * p) = Some True)"
proof (intro conjI allI impI)
  show "prime_main = Some (List.filter prime [999900..1000099])"
    unfolding prime_main_def by (rule print_primes_eq) (auto simp only: set_upto atLeastAtMost_iff intro: range_test)
  have "is_prime_loop 2 1000003 = Some True"
    by code_simp
  then show "int kHashTableSize \<in> set (List.filter prime [999900..1000099])"
    using range_test [of 1000003] unfolding set_filter set_upto by (simp add: kHashTableSize_def is_prime_def)
  fix p assume p: "prime p \<and> p \<le> 46340"
  then have "1 < p"
    by (simp add: prime_def)
  with p have le: "p * p \<le> 46340 * 46340"
    by (intro mult_mono) simp_all
  note \<open>1 < p\<close>
  moreover have "\<not> d dvd p * p" if d: "2 \<le> d" "d * d < p * p" for d
  proof
    have "d < p"
      using d \<open>1 < p\<close> mult_mono [of p d p d] by linarith
    have "gcd d p = 1 \<or> gcd d p = p"
      using p d(1) by (simp add: prime_def)
    moreover have "gcd d p \<noteq> p"
      using \<open>d < p\<close> d(1) zdvd_imp_le [of p d] by (metis gcd_dvd1 not_less zero_less_numeral order_less_le_trans)
    ultimately have "coprime d p"
      by (simp add: coprime_iff_gcd_eq_1)
    moreover assume "d dvd p * p"
    ultimately have "d dvd p"
      by (simp add: coprime_dvd_mult_left_iff)
    then show False
      using primeD [of p d] p d(1) \<open>d < p\<close> by simp
  qed
  ultimately show "is_prime (p * p) = Some True"
    using is_prime_eq [OF le] by simp
qed

theorem prime_search_witness: "is_prime 25 = Some True \<and> \<not> prime 25"
proof -
  have "d = 1 \<or> d = 5" if "0 < d" "d dvd 5" for d :: int
  proof -
    have "d \<in> {1, 2, 3, 4, 5}"
      using that zdvd_imp_le [OF that(2)] by auto
    with that(2) show ?thesis
      by auto
  qed
  then have "prime 5"
    by (simp add: prime_def)
  moreover have "\<not> prime 25"
    by (auto simp: prime_def intro!: exI [of _ 5])
  ultimately show ?thesis
    using prime_search [THEN conjunct2, THEN conjunct2, rule_format, of 5] by simp
qed

end
