(* ===== verification/Text_Format.thy ===== *)
theory Text_Format
  imports NVDS_Prelude "HOL-Library.Monad_Syntax"
begin

text \<open>
  The formatting of messages in \<^verbatim>\<open>common.cc\<close>. The text that a format and its arguments stand for
  is a parameter. \<^verbatim>\<open>vsnprintf\<close> writes as much of it as fits before the terminating null character
  and returns its length, or a negative number if the length is no \<^verbatim>\<open>int\<close>. A failed assertion and an
  overflow are \<^const>\<open>None\<close>.
\<close>

definition NUL :: char where
  "NUL = CHR 0x00"

definition vsnprintf :: "nat \<Rightarrow> string \<Rightarrow> int \<times> string" where
  "vsnprintf n str = (if 2 ^ 31 \<le> length str then (- 1, []) else (int (length str), take (n - 1) str @ [NUL]))"

partial_function (option) VFormat_loop :: "int \<Rightarrow> string \<Rightarrow> string option" where
  "VFormat_loop bufSize str =
     (let (r, buf) = vsnprintf (nat bufSize) str in
      if r < 0 then None
      else if r < bufSize then Some (takeWhile (\<lambda>c. c \<noteq> NUL) buf)
      else if r + 1 < 2 ^ 31 then VFormat_loop (r + 1) str else None)"

definition VFormat :: "string \<Rightarrow> string option" where
  "VFormat str = VFormat_loop 1024 str"

text \<open>\<open>__cxa_demangle\<close> is a parameter: the readable name, if there is one.\<close>

definition Demangle :: "(string \<Rightarrow> string option) \<Rightarrow> string \<Rightarrow> string" where
  "Demangle cxa_demangle name = (case cxa_demangle name of None \<Rightarrow> name | Some res \<Rightarrow> res)"

lemma takeWhile_terminated: "takeWhile P (xs @ [x]) = takeWhile P xs" if "\<not> P x"
  using that by (induction xs) simp_all

lemma VFormat_fits: "int (length str) < n \<Longrightarrow> length str < 2 ^ 31 \<Longrightarrow> VFormat_loop n str = Some (takeWhile (\<lambda>c. c \<noteq> NUL) str)"
  by (subst VFormat_loop.simps) (simp add: vsnprintf_def takeWhile_terminated)

text \<open>
  A message is never cut off: whatever its length, below the largest \<^verbatim>\<open>int\<close>, the loop ends and
  returns the text up to its first null character; the text of the largest length overflows the size
  of the next buffer, and a longer one fails the assertion.
\<close>

lemma VFormat_returns:
  "VFormat str = (if length str < 2 ^ 31 - 1 then Some (takeWhile (\<lambda>c. c \<noteq> NUL) str) else None)"
proof (cases "length str < 1024")
  case True
  then show ?thesis
    using VFormat_fits [of str 1024] by (simp add: VFormat_def)
next
  case False
  then show ?thesis
    using VFormat_fits [of str "int (length str) + 1"]
    by (simp add: VFormat_def VFormat_loop.simps [of 1024] vsnprintf_def)
qed

end
