(* ===== verification/Spec2Isabelle.thy ===== *)
theory Spec2Isabelle
  imports Key_Value_Store Event_Loop Buffer_Flow Worker_Wakeup Cluster Exp_Rdma Prime_Search Text_Format
begin

text \<open>
  A verification of NVDS, a key-value store that keeps its data in non-volatile memory and
  replicates it with RDMA writes. File names below are relative to \<^verbatim>\<open>src/\<close> of the repository's
  source directory.

  \<^bold>\<open>The program.\<close> A coordinator (\<^verbatim>\<open>coordinator.cc\<close>) waits until the configured number of servers
  have joined, builds the index of tablets and backups (\<^verbatim>\<open>index.cc\<close>) and sends it to every server
  and later to every client, as JSON (\<^verbatim>\<open>message.cc\<close>) in messages framed on a TCP session
  (\<^verbatim>\<open>session.cc\<close>). A server (\<^verbatim>\<open>server.cc\<close>) holds master and backup tablets. A tablet (\<^verbatim>\<open>tablet.cc\<close>) is
  a hash table of objects in a heap of its own (\<^verbatim>\<open>allocator.cc\<close>); every write to it is recorded as a
  modification, and the merged modifications of a request are written into the backups through
  queue pairs (\<^verbatim>\<open>infiniband.cc\<close>). A client (\<^verbatim>\<open>client.cc\<close>) hashes the key (\<^verbatim>\<open>MurmurHash2.cc\<close>), looks up
  the server and exchanges one request and one response with it in registered buffers. The
  programs in \<^verbatim>\<open>experiments/\<close> measure the RDMA operations alone.

  \<^bold>\<open>The theories\<close> and the code they model, in the order of their dependency:

  \<^item> \<open>NVDS_Prelude\<close>, \<open>Programs\<close>: machine words, their little-endian images (locale \<open>byte_codec\<close>),
    byte memories with read-over-write laws, checked arrays and counting loops.
  \<^item> \<open>Modifications\<close>: \<^verbatim>\<open>modification.h\<close> and \<^verbatim>\<open>Tablet::MergeModifications\<close>. The merged list covers
    exactly what replication needs.
  \<^item> \<open>Murmur\<close>: \<^verbatim>\<open>MurmurHash2.cc\<close>, \<^verbatim>\<open>hash.h\<close>. The variants agree, the incremental hasher computes the
    hash of the whole, short keys of one length do not collide.
  \<^item> \<open>Allocator\<close>: the operations of \<^verbatim>\<open>allocator.h\<close> and \<^verbatim>\<open>allocator.cc\<close> on the bytes of a tablet.
    \<open>Free_Lists\<close>, \<open>Heap_Blocks\<close> and \<open>Allocator_Inv\<close> state the invariant: blocks that tile the heap,
    boundary tags, doubly linked lists by size class. \<open>Allocator_Alloc\<close>, \<open>Allocator_Free\<close> and
    \<open>Allocator_Correct\<close> prove that the operations keep it and what they return on every branch;
    for \<^verbatim>\<open>Free\<close> which neighbours are merged.
  \<^item> \<open>Tablet\<close>: \<^verbatim>\<open>Put\<close>, \<^verbatim>\<open>Add\<close>, \<^verbatim>\<open>Get\<close>, \<^verbatim>\<open>Del\<close>. \<open>Tablet_Inv\<close>, \<open>Tablet_Correct\<close>, \<open>Tablet_Theorems\<close> and
    \<open>Tablet_Delete\<close> relate the bytes to a table of keys and values and prove each operation against
    it; \<open>Write_Log\<close> proves that every changed byte is recorded.
  \<^item> \<open>Index_Manager\<close>: \<^verbatim>\<open>index.h\<close>, \<^verbatim>\<open>index.cc\<close>; \<open>Messages\<close>: \<^verbatim>\<open>message.h\<close>, \<^verbatim>\<open>session.cc\<close> over a byte stream
    (locale \<open>byte_stream\<close>); \<open>Json_Codec\<close>: \<^verbatim>\<open>message.cc\<close> over a JSON library (locale \<open>json_library\<close>);
    \<open>Coordinator\<close>: \<^verbatim>\<open>coordinator.cc\<close>, with an invariant of all reachable states; \<open>Event_Loop\<close>:
    \<^verbatim>\<open>basic_server.cc\<close> and the event service around the handlers.
  \<^item> \<open>Buffers\<close>: the buffer pool and the work queue, both instances of the locale \<open>buffer_store\<close>.
    \<open>Spinlock\<close>: \<^verbatim>\<open>spinlock.h\<close> and the same lists access by access under their locks, for any number of
    threads; every interleaving is equivalent to the operations one after the other, which is why the
    other theories treat them as single steps. \<open>Worker_Wakeup\<close>: the mutex and condition variable
    between the poller and a worker; no wake-up is lost.
  \<^item> \<open>Verbs\<close>: programs that call the verbs and the operating system, and triples about them;
    \<open>Infiniband\<close>: \<^verbatim>\<open>infiniband.cc\<close>; \<open>Replication\<close>: the other half of \<^verbatim>\<open>tablet.cc\<close>.
  \<^item> \<open>Wire\<close>: \<^verbatim>\<open>request.h\<close>, \<^verbatim>\<open>response.h\<close>; \<open>Server\<close>: \<^verbatim>\<open>server.h\<close>, \<^verbatim>\<open>server.cc\<close>; \<open>Buffer_Flow\<close>: all
    interleavings of the poller and the workers between their control points, and where each buffer
    is, the hardware included; \<open>Client\<close>: \<^verbatim>\<open>client.h\<close>, \<^verbatim>\<open>client.cc\<close>.
  \<^item> \<open>Key_Value_Store\<close>: the specification of the whole path of a request, a map from keys to values,
    and the proof that the buffers, the worker and the tablet refine it; \<open>Cluster\<close>: the way of the
    index from the coordinator to the servers and clients.
  \<^item> \<open>Exp_Common\<close>, \<open>Exp_Write\<close>, \<open>Exp_Send\<close>: six of the benchmark programs; \<open>Exp_Theorems\<close>,
    \<open>Exp_Multi\<close>: their queue pairs are used in order, the exchange of connection data, and the
    number of outstanding writes; \<open>Exp_Rdma\<close>: the two trials they grew from, one of which cannot run.
  \<^item> \<open>Prime_Search\<close>: \<^verbatim>\<open>prime.cc\<close>, the origin of the number of buckets; \<open>Text_Format\<close>: \<^verbatim>\<open>common.cc\<close>.

  \<^bold>\<open>State and failures.\<close> The tablet is a record with its memory and the modification list; a failed
  assertion and an access outside the tablet are \<^const>\<open>None\<close>. A program that calls the verbs or the
  operating system is a function on the history of calls; a \<open>platform\<close>, which is a parameter,
  answers each call from the history so far, so the theorems hold for every behaviour of the
  hardware that their hypotheses allow. Its failures are values: assertions, transport exceptions,
  exits, and undefined behaviour where C++ gives no meaning. The socket and the JSON library are
  parameters too, with their laws in the locales named above; each locale is interpreted. So is
  the network between client and server (\<open>delivers\<close> in \<open>Wire\<close>: a datagram that fits is not lost).
  What a theorem assumes of the platform is documented behaviour of the verbs: completions name
  posted requests (\<open>completes_posted\<close>), a queue pair handle is not handed out twice (\<open>fresh_qps\<close>), a
  transition without a required attribute fails (\<open>checks_masks\<close>), writes of a connected queue pair
  complete in order and only signalled ones produce a completion (\<open>pending\<close>).

  \<^bold>\<open>Bounds and fuel.\<close> Integers have the width of the source. The sizes are those of the source:
  64 MB of heap, 1000003 buckets, 128 buffers, 1024 queue pairs; the index is modelled for every
  configuration and its theorems instantiate the configuration of \<^verbatim>\<open>common.h\<close> where they need it.
  Loops of tablets and lists are total functions or, where the code may not end, least fixed
  points (\<^verbatim>\<open>Del\<close>). Polling loops take fuel; a theorem about them either says how much is enough
  (\<open>Receive_returns\<close>), or that none is (\<open>PostSendAndWait_spins\<close>), or holds for every amount.

  \<^bold>\<open>Not modelled.\<close> \<^verbatim>\<open>Server::Run\<close>, which starts the poller and an event service whose handlers all
  fail, and \<^verbatim>\<open>Client::Connect\<close>, which resolves a name; the start programs,
  statistics and printing; \<^verbatim>\<open>nvm.h\<close>, a wrapper of pointers; \<^verbatim>\<open>infiniband_old.cc\<close>, which is not built;
  \<^verbatim>\<open>ud.c\<close> and \<^verbatim>\<open>udpp.c\<close>, third-party examples of the
  verbs library, and \<^verbatim>\<open>memc.cc\<close>, a client of another system; the tests. The memory of the threads
  is sequentially consistent; the accesses to a list are ordered by its lock.
\<close>

end
